(* ===== verification/Prelude.thy ===== *)
theory Prelude
  imports Complex_Main "HOL-Library.Word" "HOL-Library.Sublist"
begin

text \<open>
  What every component of the model shares: JavaScript strings, bytes, the string operations the
  sources call (\<open>split\<close>, \<open>lastIndexOf\<close>, \<open>startsWith\<close>, ...), and the list lemmas about them.

  A JavaScript string is a sequence of UTF-16 code units, so it is a list of 16-bit words here;
  a \<open>Uint8Array\<close> is a list of 8-bit words. \<open>lit\<close> turns a HOL string literal into a
  JavaScript string and unfolds to numerals by the simplifier.
\<close>

unbundle bit_operations_syntax

type_synonym jchar = "16 word"
type_synonym jstring = "jchar list"
type_synonym byte = "8 word"
type_synonym bytes = "byte list"

definition lit :: "string \<Rightarrow> jstring" where
  "lit s = map of_char s"

lemma lit_Nil [simp]: "lit [] = []"
  and lit_Cons [simp]: "lit (c # s) = of_char c # lit s"
  by (simp_all add: lit_def)

abbreviation newline :: jchar where
  "newline \<equiv> 10"

abbreviation slash :: jchar where
  "slash \<equiv> 47"

abbreviation dot :: jchar where
  "dot \<equiv> 46"

section \<open>Splitting and joining\<close>

text \<open>\<open>s.split(c)\<close> for a separator of one code unit: the empty string gives one empty part.\<close>

fun split_on :: "'a \<Rightarrow> 'a list \<Rightarrow> 'a list list" where
  "split_on c [] = [[]]"
| "split_on c (x # xs) =
     (if x = c then [] # split_on c xs
      else (x # hd (split_on c xs)) # tl (split_on c xs))"

text \<open>\<open>parts.join(sep)\<close>.\<close>

fun join_with :: "'a list \<Rightarrow> 'a list list \<Rightarrow> 'a list" where
  "join_with sep [] = []"
| "join_with sep [p] = p"
| "join_with sep (p # q # ps) = p @ sep @ join_with sep (q # ps)"

lemma split_on_not_Nil [simp]: "split_on c xs \<noteq> []"
  by (cases xs) auto

lemma split_on_hd_tl: "split_on c xs = hd (split_on c xs) # tl (split_on c xs)"
  by simp

lemma join_with_Cons: "ps \<noteq> [] \<Longrightarrow> join_with sep (p # ps) = p @ sep @ join_with sep ps"
  by (cases ps) auto

lemma join_with_hd_Cons:
  "ps \<noteq> [] \<Longrightarrow> join_with sep ((x # hd ps) # tl ps) = x # join_with sep ps"
  by (cases ps rule: list.exhaust; cases "tl ps") auto

lemma join_split_on [simp]: "join_with [c] (split_on c xs) = xs"
  by (induction xs) (simp_all add: join_with_Cons join_with_hd_Cons)

lemma split_on_parts: "p \<in> set (split_on c xs) \<Longrightarrow> c \<notin> set p"
proof (induction xs arbitrary: p)
  case (Cons x xs)
  have "hd (split_on c xs) \<in> set (split_on c xs)"
    and tl: "set (tl (split_on c xs)) \<subseteq> set (split_on c xs)"
    by (simp, rule subsetI, rule list.set_sel(2), simp_all)
  with Cons show ?case by (auto split: if_splits)
qed simp

lemma split_on_clean: "c \<notin> set xs \<Longrightarrow> split_on c xs = [xs]"
  by (induction xs) auto

lemma split_on_append:
  "split_on c (xs @ c # ys) = split_on c xs @ split_on c ys"
  by (induction xs) auto

lemma split_on_line: "c \<notin> set xs \<Longrightarrow> split_on c (xs @ c # ys) = xs # split_on c ys"
  by (simp add: split_on_append split_on_clean)

lemma split_on_join:
  assumes "ps \<noteq> []" and "\<And>p. p \<in> set ps \<Longrightarrow> c \<notin> set p"
  shows "split_on c (join_with [c] ps) = ps"
  using assms
proof (induction "[c]" ps rule: join_with.induct)
  case (3 p q ps)
  then have "split_on c (join_with [c] (q # ps)) = q # ps" by simp
  with 3 show ?case by (simp add: split_on_line)
qed (simp_all add: split_on_clean)

text \<open>Lower case of the ASCII letters.\<close>

definition ascii_lower :: "jchar \<Rightarrow> jchar" where
  "ascii_lower c = (if 65 \<le> c \<and> c \<le> 90 then c + 32 else c)"

section \<open>Positions\<close>

text \<open>\<open>s.indexOf(c)\<close> and \<open>s.lastIndexOf(c)\<close>: -1 when there is none.\<close>

definition index_of :: "'a list \<Rightarrow> 'a \<Rightarrow> int" where
  "index_of s c = (if c \<in> set s then int (length (takeWhile (\<lambda>x. x \<noteq> c) s)) else -1)"

definition last_index_of :: "'a list \<Rightarrow> 'a \<Rightarrow> int" where
  "last_index_of s c =
     (if c \<in> set s then int (length s) - 1 - int (length (takeWhile (\<lambda>x. x \<noteq> c) (rev s)))
      else -1)"

definition starts_with :: "'a list \<Rightarrow> 'a list \<Rightarrow> bool" where
  "starts_with s p = (take (length p) s = p)"

definition ends_with :: "'a list \<Rightarrow> 'a list \<Rightarrow> bool" where
  "ends_with s p = (length p \<le> length s \<and> drop (length s - length p) s = p)"

text \<open>\<open>s.contains(t)\<close> for a whole string.\<close>

fun contains :: "'a list \<Rightarrow> 'a list \<Rightarrow> bool" where
  "contains [] t = (t = [])"
| "contains (x # xs) t = (starts_with (x # xs) t \<or> contains xs t)"

text \<open>\<open>s.slice(a, b)\<close> for positions inside the string.\<close>

definition slice :: "'a list \<Rightarrow> nat \<Rightarrow> nat \<Rightarrow> 'a list" where
  "slice s a b = take (b - a) (drop a s)"

lemma starts_with_append [simp]: "starts_with (p @ s) p"
  by (simp add: starts_with_def)

lemma starts_with_iff: "starts_with s p \<longleftrightarrow> (\<exists>t. s = p @ t)"
  by (metis append_eq_conv_conj starts_with_def)

lemma ends_with_iff: "ends_with s p \<longleftrightarrow> (\<exists>t. s = t @ p)"
proof
  assume "ends_with s p"
  then have "s = take (length s - length p) s @ p"
    by (metis append_take_drop_id ends_with_def)
  then show "\<exists>t. s = t @ p" by blast
qed (auto simp: ends_with_def)

lemma includes_iff: "contains s t \<longleftrightarrow> (\<exists>a b. s = a @ t @ b)"
proof (induction s)
  case (Cons x xs)
  have "(\<exists>a b. x # xs = a @ t @ b) \<longleftrightarrow>
      (\<exists>b. x # xs = t @ b) \<or> (\<exists>a b. xs = a @ t @ b)"
    by (metis append_Cons append_Nil list.exhaust list.inject)
  with Cons show ?case by (simp add: starts_with_iff)
qed auto

lemma slice_full [simp]: "slice s 0 (length s) = s"
  by (simp add: slice_def)

lemma slice_append: "a \<le> b \<Longrightarrow> b \<le> c \<Longrightarrow> slice s a b @ slice s b c = slice s a c"
proof -
  assume "a \<le> b" "b \<le> c"
  then have "take (c - a) (drop a s) = take ((b - a) + (c - b)) (drop a s)" by simp
  also have "\<dots> = take (b - a) (drop a s) @ take (c - b) (drop (b - a) (drop a s))"
    by (simp only: take_add)
  finally show ?thesis using \<open>a \<le> b\<close> by (simp add: slice_def)
qed

lemma length_slice: "b \<le> length s \<Longrightarrow> length (slice s a b) = b - a"
  by (simp add: slice_def)

section \<open>Errors as values\<close>

text \<open>A call that may throw: \<open>Inl\<close> the error, \<open>Inr\<close> the value.\<close>

fun try_then :: "'e + 'a \<Rightarrow> ('a \<Rightarrow> 'e + 'b) \<Rightarrow> 'e + 'b" where
  "try_then (Inl e) f = Inl e"
| "try_then (Inr a) f = f a"

lemma try_then_Inr_iff [simp]:
  "try_then r f = Inr b \<longleftrightarrow> (\<exists>a. r = Inr a \<and> f a = Inr b)"
  by (cases r) auto

lemma try_then_Inl_iff:
  "try_then r f = Inl e \<longleftrightarrow> r = Inl e \<or> (\<exists>a. r = Inr a \<and> f a = Inl e)"
  by (cases r) auto

section \<open>Numbers in text\<close>

text \<open>\<open>String(n)\<close> for a non-negative integer.\<close>

fun decimal :: "nat \<Rightarrow> jstring" where
  "decimal n = (if n < 10 then [48 + of_nat n] else decimal (n div 10) @ [48 + of_nat (n mod 10)])"

declare decimal.simps [simp del]

definition is_digit :: "jchar \<Rightarrow> bool" where
  "is_digit c \<longleftrightarrow> 48 \<le> c \<and> c \<le> 57"

lemma unat_digit: "d < 10 \<Longrightarrow> unat (48 + of_nat d :: jchar) = 48 + d"
proof -
  assume "d < 10"
  moreover have "(48 + of_nat d :: jchar) = of_nat (48 + d)" by simp
  ultimately show ?thesis by (simp only: unat_of_nat) simp
qed

lemma digit_inj: "d < 10 \<Longrightarrow> e < 10 \<Longrightarrow> (48 + of_nat d :: jchar) = 48 + of_nat e \<Longrightarrow> d = e"
  by (metis unat_digit add_left_cancel)

lemma is_digit_digit: "d < 10 \<Longrightarrow> is_digit (48 + of_nat d)"
  using unat_digit [of d] by (simp only: is_digit_def word_le_nat_alt) simp

lemma decimal_digits: "c \<in> set (decimal n) \<Longrightarrow> is_digit c"
proof (induction n rule: decimal.induct)
  case (1 n)
  then show ?case
    by (subst (asm) decimal.simps) (auto simp: is_digit_digit split: if_splits)
qed

lemma decimal_not_Nil [simp]: "decimal n \<noteq> []"
  by (subst decimal.simps) simp

lemma decimal_inj: "decimal m = decimal n \<Longrightarrow> m = n"
proof (induction m arbitrary: n rule: decimal.induct)
  case (1 m)
  have small: "length (decimal k) = 1 \<longleftrightarrow> k < 10" for k
    by (subst decimal.simps) simp
  show ?case
  proof (cases "m < 10")
    case True
    then have "n < 10" using small [of m] small [of n] "1.prems" by simp
    with True "1.prems" show ?thesis
      using digit_inj [of m n] by (simp add: decimal.simps [of m] decimal.simps [of n])
  next
    case False
    then have n: "\<not> n < 10" using small [of m] small [of n] "1.prems" by metis
    with False "1.prems" have "decimal (m div 10) = decimal (n div 10)"
      and d: "(48 + of_nat (m mod 10) :: jchar) = 48 + of_nat (n mod 10)"
      by (simp_all add: decimal.simps [of m] decimal.simps [of n])
    then have "m div 10 = n div 10" using "1.IH" False by blast
    moreover have "m mod 10 = n mod 10" by (rule digit_inj [OF _ _ d]) simp_all
    ultimately show ?thesis by (metis div_mult_mod_eq)
  qed
qed

lemma decimal_avoids: "\<not> is_digit c \<Longrightarrow> c \<notin> set (decimal n)"
  using decimal_digits by blast

end
