(* ===== verification/Index_State.thy ===== *)
theory Index_State
  imports Prelude
begin

text \<open>
  \<open>client/src/core/index-state.ts\<close>: what the local index remembers about one path, and the
  decision it exists to answer. Content hashes are JavaScript strings; \<open>''''\<close> means unknown
  (for \<open>hash\<close>) or never synced (for \<open>synchash\<close>). Times after rounding are integers, a raw
  filesystem time is a rational.
\<close>

section \<open>The three states\<close>

record index_entry =
  ie_path :: jstring
  ie_prev :: jstring
  ie_folder :: bool
  ie_ctime :: int
  ie_mtime :: int
  ie_size :: int
  ie_changeId :: "jstring option"
  ie_hash :: jstring
  ie_chunks :: "jstring list"
  ie_synchash :: jstring
  ie_syncuid :: int
  ie_synctime :: int

definition newEntry :: "jstring \<Rightarrow> index_entry" where
  "newEntry path = \<lparr>ie_path = path, ie_prev = [], ie_folder = False, ie_ctime = 0, ie_mtime = 0,
     ie_size = 0, ie_changeId = None, ie_hash = [], ie_chunks = [], ie_synchash = [],
     ie_syncuid = 0, ie_synctime = 0\<rparr>"

record local_state =
  ls_folder :: bool
  ls_mtime :: int
  ls_size :: int
  ls_hash :: jstring

record remote_state =
  rs_uid :: int
  rs_folder :: bool
  rs_deleted :: bool
  rs_mtime :: int
  rs_size :: int
  rs_hash :: jstring

datatype action =
    Do_nothing (why: string)
  | Upload (why: string)
  | Download (why: string)
  | Merge (why: string)
  | Conflict (why: string)
  | Delete_local (why: string)
  | Delete_remote (why: string)
  | Create_local_folder (why: string)
  | Restore_local (why: string)
  | Clash (why: string)

section \<open>The decision\<close>

definition decideFolder ::
  "local_state option \<Rightarrow> remote_state option \<Rightarrow> index_entry \<Rightarrow> action" where
  "decideFolder local remote index =
     (if (case local of Some l \<Rightarrow> ls_folder l | None \<Rightarrow> False) then
        (case remote of
           None \<Rightarrow> Upload ''new folder, the server has never held this path''
         | Some r \<Rightarrow>
             if rs_deleted r then Do_nothing ''folder deleted elsewhere; its files decide''
             else if \<not> rs_folder r then
               Clash ''a folder here and a file of the same name on another device''
             else Do_nothing ''folder exists on both sides'')
      else if (case remote of Some r \<Rightarrow> rs_folder r \<and> \<not> rs_deleted r | None \<Rightarrow> False) then
        (if local \<noteq> None then
           Clash ''a file here and a folder of the same name on another device''
         else if ie_synctime index > 0 then
           Do_nothing ''folder removed here, and deletions of folders do not travel''
         else Create_local_folder ''folder exists on the server and not here'')
      else Do_nothing ''folder absent on both sides'')"

definition decideMissingLocally :: "remote_state \<Rightarrow> index_entry \<Rightarrow> action" where
  "decideMissingLocally remote index =
     (if rs_deleted remote then Do_nothing ''deleted on both sides''
      else if ie_synchash index = [] then Download ''new on the server''
      else if rs_hash remote = ie_synchash index then
        Delete_remote ''deleted here and unchanged on the server''
      else Restore_local
        ''deleted here but changed on another device, so the newer content is restored'')"

definition decide ::
  "local_state option \<Rightarrow> remote_state option \<Rightarrow> index_entry \<Rightarrow> bool \<Rightarrow> action" where
  "decide local remote index mergeable =
     (let base = ie_synchash index in
      if (case local of Some l \<Rightarrow> ls_folder l | None \<Rightarrow> False)
       \<or> (case remote of Some r \<Rightarrow> rs_folder r | None \<Rightarrow> False)
      then decideFolder local remote index
      else if local = None \<and> (case remote of Some r \<Rightarrow> rs_deleted r | None \<Rightarrow> True)
      then Do_nothing ''absent on both sides''
      else case remote of
        None \<Rightarrow> Upload ''new file, the server has never held this path''
      | Some r \<Rightarrow> (case local of
          None \<Rightarrow> decideMissingLocally r index
        | Some l \<Rightarrow>
            if rs_deleted r then
              (if ls_hash l = base \<and> base \<noteq> [] then
                 Delete_local ''deleted on another device and unchanged here''
               else if base = [] then
                 Upload ''deleted on the server but never synced from here''
               else Upload
                 ''deleted on another device but edited here, so the edit is kept and re-sent'')
            else if ls_hash l = rs_hash r then
              Do_nothing ''the two sides hold the same content''
            else if base = [] then
              Conflict ''both sides have content and there is no last-synced version to merge from''
            else if ls_hash l = base then
              Download ''changed on another device and unchanged here''
            else if rs_hash r = base then
              Upload ''changed here and unchanged on the server''
            else if \<not> mergeable then
              Conflict ''changed on both sides and this file cannot be merged''
            else Merge ''changed on both sides since the last sync''))"

section \<open>What a scan records\<close>

definition needsRehash :: "index_entry \<Rightarrow> int \<Rightarrow> int \<Rightarrow> jstring option \<Rightarrow> bool" where
  "needsRehash entry mtime sz changeId =
     (if changeId \<noteq> None \<and> changeId \<noteq> ie_changeId entry then True
      else if ie_hash entry = lit ''-empty-'' \<and> ie_size entry = 0 then
        ie_mtime entry \<noteq> mtime \<or> sz \<noteq> 0
      else if ie_hash entry = [] \<or> ie_chunks entry = [] then True
      else ie_mtime entry \<noteq> mtime \<or> ie_size entry \<noteq> sz)"

record observation =
  ob_folder :: bool
  ob_mtime :: rat
  ob_ctime :: rat
  ob_size :: int
  ob_changeId :: "jstring option"

definition observe :: "index_entry \<Rightarrow> observation \<Rightarrow> index_entry" where
  "observe entry obs =
     (let mtime = \<lceil>ob_mtime obs\<rceil>; ctime = \<lceil>ob_ctime obs\<rceil> in
      if ob_folder obs then
        entry\<lparr>ie_folder := True, ie_mtime := 0, ie_ctime := 0, ie_size := 0,
              ie_hash := [], ie_chunks := []\<rparr>
      else
        let kept = (if needsRehash entry mtime (ob_size obs) (ob_changeId obs)
                    then entry\<lparr>ie_hash := [], ie_chunks := []\<rparr> else entry);
            stamped = kept\<lparr>ie_folder := False, ie_mtime := mtime, ie_ctime := ctime,
                           ie_size := ob_size obs\<rparr>
        in (if ob_changeId obs \<noteq> None then stamped\<lparr>ie_changeId := ob_changeId obs\<rparr>
            else stamped))"

section \<open>What a rename and a completed sync record\<close>

definition renamed :: "index_entry \<Rightarrow> jstring \<Rightarrow> jstring \<Rightarrow> index_entry" where
  "renamed entry from to =
     (let e1 = entry\<lparr>ie_path := to\<rparr>;
          e2 = (if ie_prev e1 = [] then e1\<lparr>ie_prev := from\<rparr> else e1);
          e3 = (if ie_prev e2 = to then e2\<lparr>ie_prev := []\<rparr> else e2)
      in e3\<lparr>ie_synctime := 0\<rparr>)"

definition synced ::
  "index_entry \<Rightarrow> jstring \<Rightarrow> jstring list \<Rightarrow> int \<Rightarrow> int \<Rightarrow> index_entry" where
  "synced entry hash chunks uid now =
     (let same = ie_hash entry = hash \<and> ie_synchash entry = hash \<and> ie_syncuid entry = uid
            \<and> ie_prev entry = [] \<and> ie_chunks entry = chunks
      in if same \<and> ie_synctime entry \<noteq> 0 then entry
         else entry\<lparr>ie_hash := hash, ie_chunks := chunks, ie_synchash := hash,
                    ie_syncuid := uid, ie_synctime := now, ie_prev := []\<rparr>)"

definition reconciled :: "index_entry \<Rightarrow> jstring \<Rightarrow> int \<Rightarrow> int \<Rightarrow> index_entry" where
  "reconciled entry synchash uid now =
     (if ie_synchash entry = synchash \<and> ie_syncuid entry = uid then entry
      else entry\<lparr>ie_synchash := synchash, ie_syncuid := uid, ie_synctime := now\<rparr>)"

definition nextUploadTime :: "index_entry \<Rightarrow> int" where
  "nextUploadTime entry =
     (if ie_synctime entry = 0 then 0
      else let delay = (if ie_size entry > 102400 then 5000
                        else if ie_size entry > 10240 then 2000 else 1000)
           in ie_synctime entry + delay)"

definition readyToSyncAgain :: "index_entry \<Rightarrow> int \<Rightarrow> bool" where
  "readyToSyncAgain entry now = (ie_synctime entry > now \<or> now \<ge> nextUploadTime entry)"

section \<open>The decision as a three-way rule\<close>

text \<open>
  The contract of \<open>decide\<close> on files: the classical three-way rule over optional contents. A side
  is what it holds, \<open>None\<close> when it holds nothing; the base is the last agreed content, \<open>None\<close>
  when nothing was ever agreed. An edit outranks a deletion, and two edits with no common
  ancestor are both kept.
\<close>

datatype verdict = Keep | Push | Pull | Merge_both | Keep_both | Remove_here | Remove_there | Restore

fun three_way :: "'c option \<Rightarrow> 'c option \<Rightarrow> 'c option \<Rightarrow> bool \<Rightarrow> verdict" where
  "three_way base mine theirs mergeable =
     (if mine = theirs then Keep
      else if mine = base then (if theirs = None then Remove_here else Pull)
      else if theirs = base then (if mine = None then Remove_there else Push)
      else if theirs = None then Push
      else if mine = None then Restore
      else if base = None \<or> \<not> mergeable then Keep_both
      else Merge_both)"

fun verdict_of :: "action \<Rightarrow> verdict option" where
  "verdict_of (Do_nothing _) = Some Keep"
| "verdict_of (Upload _) = Some Push"
| "verdict_of (Download _) = Some Pull"
| "verdict_of (Merge _) = Some Merge_both"
| "verdict_of (Conflict _) = Some Keep_both"
| "verdict_of (Delete_local _) = Some Remove_here"
| "verdict_of (Delete_remote _) = Some Remove_there"
| "verdict_of (Create_local_folder _) = None"
| "verdict_of (Restore_local _) = Some Restore"
| "verdict_of (Clash _) = None"

definition mine_of :: "local_state option \<Rightarrow> jstring option" where
  "mine_of local = map_option ls_hash local"

definition theirs_of :: "remote_state option \<Rightarrow> jstring option" where
  "theirs_of remote =
     (case remote of None \<Rightarrow> None | Some r \<Rightarrow> if rs_deleted r then None else Some (rs_hash r))"

text \<open>A path the server never held has no agreed content, whatever the index says.\<close>

definition base_of :: "remote_state option \<Rightarrow> index_entry \<Rightarrow> jstring option" where
  "base_of remote index =
     (if remote = None \<or> ie_synchash index = [] then None else Some (ie_synchash index))"

definition is_file :: "local_state option \<Rightarrow> remote_state option \<Rightarrow> bool" where
  "is_file local remote \<longleftrightarrow>
     (case local of Some l \<Rightarrow> \<not> ls_folder l | None \<Rightarrow> True) \<and>
     (case remote of Some r \<Rightarrow> \<not> rs_folder r | None \<Rightarrow> True)"

lemmas decide_defs = decide_def decideFolder_def decideMissingLocally_def Let_def
lemmas view_defs = mine_of_def theirs_of_def base_of_def is_file_def

lemma decide_three_way:
  assumes "is_file local remote"
  shows "verdict_of (decide local remote index m)
           = Some (three_way (base_of remote index) (mine_of local) (theirs_of remote) m)"
  using assms
  by (cases local; cases remote) (auto simp: decide_defs view_defs)

text \<open>Facts of the three-way rule itself.\<close>

lemma three_way_takes_theirs:
  "three_way b x y m \<in> {Pull, Remove_here} \<Longrightarrow> x = b"
  by (auto split: if_splits)

lemma three_way_takes_mine:
  "three_way b x y m \<in> {Push, Remove_there} \<Longrightarrow> y = b \<or> y = None \<and> x \<noteq> None"
  by (auto split: if_splits)

section \<open>Renames, scans and syncs\<close>

lemma renamed_path [simp]: "ie_path (renamed e a b) = b"
  by (simp add: renamed_def Let_def)

lemma renamed_prev:
  "ie_prev (renamed e a b) =
     (let p = (if ie_prev e = [] then a else ie_prev e) in if p = b then [] else p)"
  by (simp add: renamed_def Let_def)

lemma renamed_keeps:
  "ie_hash (renamed e a b) = ie_hash e" "ie_chunks (renamed e a b) = ie_chunks e"
  "ie_synchash (renamed e a b) = ie_synchash e" "ie_syncuid (renamed e a b) = ie_syncuid e"
  by (simp_all add: renamed_def Let_def)

text \<open>A file renamed along a list of names, one rename after the other.\<close>

fun rename_along :: "index_entry \<Rightarrow> jstring list \<Rightarrow> index_entry" where
  "rename_along e [] = e"
| "rename_along e (n # ns) = rename_along (renamed e (ie_path e) n) ns"

lemma rename_along_prev:
  assumes "a \<noteq> []" and "[] \<notin> set ns"
    and "ie_prev e = (if ie_path e = a then [] else a)"
  shows "ie_prev (rename_along e ns) = (if ie_path (rename_along e ns) = a then [] else a)"
  using assms
  by (induction ns arbitrary: e) (auto simp: renamed_prev Let_def)

lemma rename_along_path: "ie_path (rename_along e ns) = last (ie_path e # ns)"
  by (induction ns arbitrary: e) auto

lemma observe_file_stat:
  "\<not> ob_folder obs \<Longrightarrow>
     ie_mtime (observe e obs) = \<lceil>ob_mtime obs\<rceil> \<and> ie_ctime (observe e obs) = \<lceil>ob_ctime obs\<rceil> \<and>
     ie_size (observe e obs) = ob_size obs \<and> \<not> ie_folder (observe e obs)"
  by (simp add: observe_def Let_def)

lemma observe_file_cache:
  "\<not> ob_folder obs \<Longrightarrow>
     (ie_hash (observe e obs), ie_chunks (observe e obs)) =
       (if needsRehash e \<lceil>ob_mtime obs\<rceil> (ob_size obs) (ob_changeId obs) then ([], [])
        else (ie_hash e, ie_chunks e))"
  by (simp add: observe_def Let_def)

lemma observe_ancestor:
  "ie_synchash (observe e obs) = ie_synchash e \<and> ie_syncuid (observe e obs) = ie_syncuid e \<and>
   ie_synctime (observe e obs) = ie_synctime e \<and> ie_prev (observe e obs) = ie_prev e \<and>
   ie_path (observe e obs) = ie_path e"
  by (simp add: observe_def Let_def)

lemma observe_changeId:
  "\<not> ob_folder obs \<Longrightarrow>
     ie_changeId (observe e obs) =
       (if ob_changeId obs = None then ie_changeId e else ob_changeId obs)"
  by (auto simp: observe_def Let_def)

lemma needsRehash_observed:
  assumes "\<not> ob_folder obs" and "ie_hash (observe e obs) \<noteq> [] \<or> ie_chunks (observe e obs) \<noteq> []"
  shows "\<not> needsRehash (observe e obs) \<lceil>ob_mtime obs\<rceil> (ob_size obs) (ob_changeId obs)"
proof -
  have kept: "\<not> needsRehash e \<lceil>ob_mtime obs\<rceil> (ob_size obs) (ob_changeId obs)"
    and same: "ie_hash (observe e obs) = ie_hash e" "ie_chunks (observe e obs) = ie_chunks e"
    using assms observe_file_cache [OF assms(1), of e] by (auto split: if_splits)
  then show ?thesis
    unfolding needsRehash_def same observe_changeId [OF assms(1)]
    using observe_file_stat [OF assms(1), of e] by (auto split: if_splits)
qed

lemma observe_again:
  "observe (observe e obs) obs = observe e obs"
proof (cases "ob_folder obs")
  case True
  then show ?thesis by (simp add: observe_def)
next
  case False
  have "ie_hash (observe (observe e obs) obs) = ie_hash (observe e obs) \<and>
        ie_chunks (observe (observe e obs) obs) = ie_chunks (observe e obs)"
  proof (cases "ie_hash (observe e obs) \<noteq> [] \<or> ie_chunks (observe e obs) \<noteq> []")
    case True
    from needsRehash_observed [OF False True] show ?thesis
      using observe_file_cache [OF False, of "observe e obs"] by simp
  next
    case cleared: False
    then show ?thesis
      using observe_file_cache [OF False, of "observe e obs"] by (auto split: if_splits)
  qed
  then show ?thesis
    using observe_file_stat [OF False, of e] observe_file_stat [OF False, of "observe e obs"]
    by (intro index_entry.equality) (auto simp: observe_ancestor observe_changeId False)
qed

lemma needsRehash_sound:
  assumes "\<not> needsRehash e mt sz c" and "ie_hash e \<noteq> []"
  shows "ie_mtime e = mt \<and> ie_size e = sz \<and> (c = None \<or> c = ie_changeId e)"
  using assms by (auto simp: needsRehash_def split: if_splits)

lemma synced_state:
  "ie_hash (synced e h cs u t) = h \<and> ie_chunks (synced e h cs u t) = cs \<and>
   ie_synchash (synced e h cs u t) = h \<and> ie_syncuid (synced e h cs u t) = u \<and>
   ie_prev (synced e h cs u t) = [] \<and> (t \<noteq> 0 \<longrightarrow> ie_synctime (synced e h cs u t) \<noteq> 0)"
  by (simp add: synced_def Let_def)

lemma synced_again:
  "t \<noteq> 0 \<Longrightarrow> synced (synced e h cs u t) h cs u t' = synced e h cs u t"
  by (simp add: synced_def Let_def)

lemma reconciled_state:
  "ie_synchash (reconciled e h u t) = h \<and> ie_syncuid (reconciled e h u t) = u \<and>
   ie_hash (reconciled e h u t) = ie_hash e \<and> ie_chunks (reconciled e h u t) = ie_chunks e"
  by (simp add: reconciled_def)

lemma reconciled_again: "reconciled (reconciled e h u t) h u t' = reconciled e h u t"
  by (simp add: reconciled_def)

section \<open>Properties\<close>

text \<open>C1. On files, \<open>decide\<close> is the three-way rule over what each side holds: its verdict depends on
  the last agreed content, this side's content and the server's, and on nothing else; deletions are
  the absence of content, and a path the server never held has no agreed content.\<close>

theorem decide_is_three_way:
  assumes "is_file local remote"
  shows "verdict_of (decide local remote index mergeable)
           = Some (three_way (base_of remote index) (mine_of local) (theirs_of remote) mergeable)"
  using assms by (rule decide_three_way)

lemma decide_is_three_way_witness:
  "verdict_of (decide (Some \<lparr>ls_folder = False, ls_mtime = 5, ls_size = 2, ls_hash = lit ''b''\<rparr>)
       (Some \<lparr>rs_uid = 7, rs_folder = False, rs_deleted = True, rs_mtime = 4, rs_size = 0, rs_hash = []\<rparr>)
       ((newEntry (lit ''n.md''))\<lparr>ie_synchash := lit ''a''\<rparr>) True) = Some Push"
  by (subst decide_is_three_way)
    (simp_all add: is_file_def base_of_def mine_of_def theirs_of_def newEntry_def)


text \<open>Once an upload or a download has been recorded by \<open>synced\<close>, deciding again for the two sides
  it left equal does nothing; and whichever single side changes next, that change alone travels: an
  edit here is uploaded, an edit there downloaded, a deletion there deletes here, a deletion here
  deletes there.\<close>

theorem synced_then_decide:
  fixes e chunks uid now h
  defines "i \<equiv> synced e h chunks uid now"
  assumes "h \<noteq> []"
    and "\<not> ls_folder l" and "\<not> rs_folder r" and "\<not> rs_deleted r"
  shows "(ls_hash l = h \<and> rs_hash r = h \<longrightarrow>
           verdict_of (decide (Some l) (Some r) i m) = Some Keep)
    \<and> (ls_hash l \<noteq> h \<and> rs_hash r = h \<longrightarrow>
           verdict_of (decide (Some l) (Some r) i m) = Some Push)
    \<and> (ls_hash l = h \<and> rs_hash r \<noteq> h \<longrightarrow>
           verdict_of (decide (Some l) (Some r) i m) = Some Pull)
    \<and> (ls_hash l = h \<longrightarrow>
           verdict_of (decide (Some l) (Some (r\<lparr>rs_deleted := True\<rparr>)) i m) = Some Remove_here)
    \<and> (rs_hash r = h \<longrightarrow> verdict_of (decide None (Some r) i m) = Some Remove_there)
    \<and> (ls_hash l \<noteq> h \<and> rs_hash r \<noteq> h \<and> ls_hash l \<noteq> rs_hash r \<longrightarrow>
           verdict_of (decide (Some l) (Some r) i m) = Some (if m then Merge_both else Keep_both))"
  using assms(2-5) synced_state [of e h chunks uid now]
  by (simp add: decide_defs i_def)

lemma synced_then_decide_witness:
  "verdict_of (decide None
      (Some \<lparr>rs_uid = 7, rs_folder = False, rs_deleted = False, rs_mtime = 4, rs_size = 1, rs_hash = [9]\<rparr>)
      (synced (newEntry [1]) [9] [] 7 100) True) = Some Remove_there"
  using synced_then_decide
    [of "[9]" "\<lparr>ls_folder = False, ls_mtime = 0, ls_size = 0, ls_hash = []\<rparr>"
      "\<lparr>rs_uid = 7, rs_folder = False, rs_deleted = False, rs_mtime = 4, rs_size = 1, rs_hash = [9]\<rparr>"
      "newEntry [1]" "[]" 7 100 True] by simp

text \<open>C16. A scan keeps a cached content hash only where nothing it can see says the file changed (same
  rounded mtime and size, and the change identifier not newly different); what it keeps is the hash it
  had; the sync ancestor is never touched by a scan; and scanning the same observation twice is the
  same as scanning it once.\<close>

theorem observe_keeps_only_current:
  "(ie_hash (observe e obs) \<noteq> [] \<longrightarrow>
      \<not> ob_folder obs \<and> ie_hash (observe e obs) = ie_hash e \<and> ie_chunks (observe e obs) = ie_chunks e \<and>
      ie_mtime e = \<lceil>ob_mtime obs\<rceil> \<and> ie_size e = ob_size obs \<and>
      (ob_changeId obs = None \<or> ob_changeId obs = ie_changeId e))
   \<and> (ie_synchash (observe e obs) = ie_synchash e \<and> ie_syncuid (observe e obs) = ie_syncuid e \<and>
      ie_prev (observe e obs) = ie_prev e)
   \<and> observe (observe e obs) obs = observe e obs"
proof (intro conjI impI)
  assume h: "ie_hash (observe e obs) \<noteq> []"
  then have f: "\<not> ob_folder obs" by (auto simp: observe_def Let_def)
  then show "\<not> ob_folder obs" .
  show "ie_hash (observe e obs) = ie_hash e" and "ie_chunks (observe e obs) = ie_chunks e"
    and "ie_mtime e = \<lceil>ob_mtime obs\<rceil>" and "ie_size e = ob_size obs"
    and "ob_changeId obs = None \<or> ob_changeId obs = ie_changeId e"
    using h f observe_file_cache [OF f, of e]
      needsRehash_sound [of e "\<lceil>ob_mtime obs\<rceil>" "ob_size obs" "ob_changeId obs"]
    by (auto split: if_splits)
qed (simp_all add: observe_ancestor observe_again)

lemma observe_keeps_only_current_witness:
  "ie_mtime ((newEntry [1])\<lparr>ie_hash := [7], ie_chunks := [[7]], ie_mtime := 3, ie_size := 2\<rparr>)
     = \<lceil>3 :: rat\<rceil>"
proof -
  let ?e = "(newEntry [1])\<lparr>ie_hash := [7], ie_chunks := [[7]], ie_mtime := 3, ie_size := 2\<rparr>"
  let ?o = "\<lparr>ob_folder = False, ob_mtime = 3, ob_ctime = 1, ob_size = 2, ob_changeId = None\<rparr>"
  have "ie_hash (observe ?e ?o) \<noteq> []"
    by (simp add: observe_def needsRehash_def newEntry_def Let_def)
  with observe_keeps_only_current [of ?e ?o] show ?thesis by simp
qed

text \<open>However often a file is renamed between two syncs, the record names its old path exactly
  when it ended up somewhere else: \<open>prev\<close> is the path the server knows, and it is empty when the
  last rename went back to it.\<close>

theorem renames_remember_the_server_path:
  assumes "ie_prev e = []" and "ie_path e \<noteq> []" and "[] \<notin> set names"
  shows "ie_prev (rename_along e names)
           = (if last (ie_path e # names) = ie_path e then [] else ie_path e)"
  using rename_along_prev [of "ie_path e" names e] assms by (simp add: rename_along_path)

lemma renames_remember_the_server_path_witness:
  "ie_prev (rename_along (newEntry [1]) [[2], [3], [1]]) = []
   \<and> ie_prev (rename_along (newEntry [1]) [[2], [3]]) = [1]"
  using renames_remember_the_server_path [of "newEntry [1]" "[[2], [3], [1]]"]
    renames_remember_the_server_path [of "newEntry [1]" "[[2], [3]]"]
  by (simp add: newEntry_def)

end
