(* ===== verification/Paths.thy ===== *)
theory Paths
  imports Prelude
begin

text \<open>
  \<open>client/src/core/paths.ts\<close>, with \<open>refusedInboundPath\<close> of \<open>engine.ts\<close> and \<open>parents\<close> of
  \<open>vault.ts\<close>: which paths never sync, how a name is split at its extension, and how a free name
  beside an existing one is found.
\<close>

section \<open>Names that never sync\<close>

definition dot_name :: "jstring \<Rightarrow> bool" where
  "dot_name part \<longleftrightarrow> starts_with part [dot] \<and> part \<noteq> [dot] \<and> part \<noteq> [dot, dot]"

fun never_synced_parts :: "jstring set \<Rightarrow> jstring list \<Rightarrow> bool" where
  "never_synced_parts extra [] = False"
| "never_synced_parts extra (part # parts) =
     (if dot_name part then True
      else if part \<in> extra then True
      else never_synced_parts extra parts)"

definition isNeverSynced :: "jstring \<Rightarrow> jstring set \<Rightarrow> bool" where
  "isNeverSynced relPath extra = never_synced_parts extra (split_on slash relPath)"

fun ignored_parts :: "jstring set \<Rightarrow> bool \<Rightarrow> jstring list \<Rightarrow> bool" where
  "ignored_parts extra byList [] = byList"
| "ignored_parts extra byList (part # parts) =
     (if dot_name part then False
      else ignored_parts extra (if part \<in> extra then True else byList) parts)"

definition ignoredHere :: "jstring \<Rightarrow> jstring set \<Rightarrow> bool" where
  "ignoredHere relPath extra = ignored_parts extra False (split_on slash relPath)"

lemma isNeverSynced_iff:
  "isNeverSynced p extra \<longleftrightarrow> (\<exists>part \<in> set (split_on slash p). dot_name part \<or> part \<in> extra)"
proof -
  have "never_synced_parts extra parts \<longleftrightarrow> (\<exists>part \<in> set parts. dot_name part \<or> part \<in> extra)"
    for parts by (induction parts) auto
  then show ?thesis by (simp add: isNeverSynced_def)
qed

lemma ignoredHere_iff:
  "ignoredHere p extra \<longleftrightarrow>
     (\<forall>part \<in> set (split_on slash p). \<not> dot_name part) \<and>
     (\<exists>part \<in> set (split_on slash p). part \<in> extra)"
proof -
  have "ignored_parts extra b parts \<longleftrightarrow>
      (\<forall>part \<in> set parts. \<not> dot_name part) \<and> (b \<or> (\<exists>part \<in> set parts. part \<in> extra))"
    for parts b by (induction parts arbitrary: b) auto
  then show ?thesis by (simp add: ignoredHere_def)
qed

section \<open>Canonical paths\<close>

datatype path_refusal =
    Empty_path
  | Dot_prefixed
  | Leading_slash
  | Trailing_slash
  | Empty_segment
  | Relative_segment jstring

fun refused_segment :: "jstring list \<Rightarrow> path_refusal option" where
  "refused_segment [] = None"
| "refused_segment (part # parts) =
     (if part = [] then Some Empty_segment
      else if part = [dot] \<or> part = [dot, dot] then Some (Relative_segment part)
      else refused_segment parts)"

definition refusedInboundPath :: "jstring \<Rightarrow> path_refusal option" where
  "refusedInboundPath path =
     (if path = [] then Some Empty_path
      else if isNeverSynced path {} then Some Dot_prefixed
      else if starts_with path [slash] then Some Leading_slash
      else if ends_with path [slash] then Some Trailing_slash
      else refused_segment (split_on slash path))"

definition canonical_path :: "jstring \<Rightarrow> bool" where
  "canonical_path path \<longleftrightarrow> (\<forall>part \<in> set (split_on slash path). part \<noteq> [] \<and> hd part \<noteq> dot)"

lemma refused_segment_None:
  "refused_segment parts = None \<longleftrightarrow>
     (\<forall>part \<in> set parts. part \<noteq> [] \<and> part \<noteq> [dot] \<and> part \<noteq> [dot, dot])"
  by (induction parts) auto

lemma dot_name_hd: "part \<noteq> [] \<Longrightarrow> part \<noteq> [dot] \<Longrightarrow> part \<noteq> [dot, dot] \<Longrightarrow>
    dot_name part \<longleftrightarrow> hd part = dot"
  by (cases part) (auto simp: dot_name_def starts_with_def)

lemma empty_part_ends:
  assumes "starts_with path [c] \<or> ends_with path [c]"
  shows "[] \<in> set (split_on c path)"
proof -
  have "[] \<in> set (split_on c (c # xs))" for xs by simp
  moreover have "[] \<in> set (split_on c (xs @ [c]))" for xs
    using split_on_append [of c xs "[]"] by simp
  ultimately show ?thesis using assms by (auto simp: starts_with_iff ends_with_iff)
qed

lemma refusedInboundPath_None:
  "refusedInboundPath path = None \<longleftrightarrow> canonical_path path"
proof
  assume None: "refusedInboundPath path = None"
  show "canonical_path path"
    unfolding canonical_path_def
  proof
    fix part assume part: "part \<in> set (split_on slash path)"
    from None have "refused_segment (split_on slash path) = None"
      and "\<not> isNeverSynced path {}"
      by (auto simp: refusedInboundPath_def split: if_splits)
    with part have "part \<noteq> []" "part \<noteq> [dot]" "part \<noteq> [dot, dot]" "\<not> dot_name part"
      by (auto simp: refused_segment_None isNeverSynced_iff)
    then show "part \<noteq> [] \<and> hd part \<noteq> dot" using dot_name_hd by blast
  qed
next
  assume canon: "canonical_path path"
  then have parts: "part \<noteq> []" "part \<noteq> [dot]" "part \<noteq> [dot, dot]" "\<not> dot_name part"
    if "part \<in> set (split_on slash path)" for part
    using that dot_name_hd [of part] unfolding canonical_path_def by fastforce+
  have "[] \<notin> set (split_on slash path)" using parts(1) by blast
  then have "path \<noteq> []" "\<not> starts_with path [slash]" "\<not> ends_with path [slash]"
    using empty_part_ends [of path slash] by auto
  with parts show "refusedInboundPath path = None"
    by (auto simp: refusedInboundPath_def refused_segment_None isNeverSynced_iff)
qed

section \<open>A name and its extension\<close>

definition splitName :: "jstring \<Rightarrow> jstring \<times> jstring" where
  "splitName path =
     (let sl = last_index_of path slash; dt = last_index_of path dot in
      if dt \<le> sl + 1 then (path, [])
      else (take (nat dt) path, drop (nat dt) path))"

lemma splitName_append: "fst (splitName p) @ snd (splitName p) = p"
  by (simp add: splitName_def Let_def)

lemma last_index_of_append:
  "last_index_of (xs @ ys) c =
     (if c \<in> set ys then int (length xs) + last_index_of ys c else last_index_of xs c)"
  by (auto simp: last_index_of_def takeWhile_append)

lemma last_index_of_absent [simp]: "c \<notin> set xs \<Longrightarrow> last_index_of xs c = -1"
  by (simp add: last_index_of_def)

lemma last_index_of_bounds: "-1 \<le> last_index_of xs c" "last_index_of xs c < int (length xs)"
proof -
  have "takeWhile (\<lambda>x. x \<noteq> c) (rev xs) \<noteq> rev xs" if "c \<in> set xs"
    using that by (auto simp: takeWhile_eq_all_conv)
  then have "length (takeWhile (\<lambda>x. x \<noteq> c) (rev xs)) < length xs" if "c \<in> set xs"
    using that length_takeWhile_le [of "\<lambda>x. x \<noteq> c" "rev xs"]
    by (metis length_rev le_neq_implies_less takeWhile_eq_take take_all order_refl)
  then show "-1 \<le> last_index_of xs c" "last_index_of xs c < int (length xs)"
    by (auto simp: last_index_of_def)
qed

lemma last_index_of_Cons_fresh: "c \<notin> set xs \<Longrightarrow> last_index_of (c # xs) c = 0"
  by (simp add: last_index_of_def takeWhile_append takeWhile_eq_all_conv [THEN iffD2])

lemma last_index_of_split:
  assumes "c \<in> set xs"
  obtains a b where "xs = a @ c # b" "c \<notin> set b" "last_index_of xs c = int (length a)"
proof -
  obtain a b where "xs = a @ c # b" "c \<notin> set b" using split_list_last [OF assms] by blast
  moreover from this have "last_index_of xs c = int (length a)"
    by (simp add: last_index_of_append last_index_of_Cons_fresh)
  ultimately show ?thesis using that by blast
qed

text \<open>An extension starts at its only dot, holds no slash and stands behind a name.\<close>

lemma splitName_cases:
  obtains (no_ext) "splitName p = (p, [])" "last_index_of p dot \<le> last_index_of p slash + 1"
  | (ext) s e where "p = s @ dot # e" "splitName p = (s, dot # e)" "dot \<notin> set e" "slash \<notin> set e"
      "last_index_of s slash + 1 < int (length s)"
proof (cases "last_index_of p dot \<le> last_index_of p slash + 1")
  case True
  then have "splitName p = (p, [])" by (simp add: splitName_def)
  with True show ?thesis by (rule no_ext [rotated])
next
  case False
  then have "dot \<in> set p" using last_index_of_bounds(1) [of p slash] by (cases "dot \<in> set p") auto
  then obtain s e where p: "p = s @ dot # e" "dot \<notin> set e" "last_index_of p dot = int (length s)"
    by (rule last_index_of_split)
  have fresh: "slash \<notin> set e"
  proof
    assume "slash \<in> set e"
    then have "last_index_of p slash = int (length s) + 1 + last_index_of e slash"
      using p(1) last_index_of_append [of "s @ [dot]" e slash] by simp
    then show False using False p(3) last_index_of_bounds(1) [of e slash] by simp
  qed
  then have "last_index_of p slash = last_index_of s slash"
    using p(1) by (simp add: last_index_of_append)
  with False p fresh show ?thesis
    by (intro ext [of s e]) (auto simp: splitName_def)
qed

lemma splitName_intro:
  assumes "dot \<notin> set e" "slash \<notin> set e" "last_index_of s slash + 1 < int (length s)"
  shows "splitName (s @ dot # e) = (s, dot # e)"
proof -
  have "last_index_of (s @ dot # e) dot = int (length s)"
    using assms(1) by (simp add: last_index_of_append last_index_of_Cons_fresh)
  moreover have "last_index_of (s @ dot # e) slash = last_index_of s slash"
    using assms(2) by (simp add: last_index_of_append)
  ultimately show ?thesis using assms(3) by (simp add: splitName_def)
qed

text \<open>
  Text put between the stem and the extension belongs to the stem: a variant of a name keeps the
  extension.
\<close>

lemma splitName_insert:
  assumes "slash \<notin> set mid" and "snd (splitName p) \<noteq> [] \<or> dot \<notin> set mid"
  shows "splitName (fst (splitName p) @ mid @ snd (splitName p))
           = (fst (splitName p) @ mid, snd (splitName p))"
proof (cases rule: splitName_cases [of p])
  case no_ext
  then have "dot \<notin> set mid" using assms(2) by simp
  with no_ext assms(1) show ?thesis by (simp add: splitName_def last_index_of_append)
next
  case (ext s e)
  have "last_index_of (s @ mid) slash + 1 < int (length (s @ mid))"
    using ext(5) assms(1) by (simp add: last_index_of_append)
  with ext show ?thesis using splitName_intro [of e "s @ mid"] by simp
qed

section \<open>The first free name\<close>

definition numbered :: "jstring \<Rightarrow> nat \<Rightarrow> jstring" where
  "numbered base n = (let (stem, ext) = splitName base in stem @ 32 # decimal (n + 1) @ ext)"

text \<open>The loop over n, with the number of candidates still to try.\<close>

fun free_from :: "(jstring \<Rightarrow> bool) \<Rightarrow> (nat \<Rightarrow> jstring) \<Rightarrow> nat \<Rightarrow> nat \<Rightarrow> jstring option" where
  "free_from taken spell n 0 = None"
| "free_from taken spell n (Suc k) =
     (if \<not> taken (spell n) then Some (spell n) else free_from taken spell (n + 1) k)"

definition firstFreeName ::
  "jstring \<Rightarrow> (jstring \<Rightarrow> bool) \<Rightarrow> (nat \<Rightarrow> jstring) \<Rightarrow> jstring option" where
  "firstFreeName base taken spell = (if \<not> taken base then Some base else free_from taken spell 1 999)"

lemma free_from_Some:
  "free_from taken spell n k = Some p \<Longrightarrow>
     \<not> taken p \<and> (\<exists>i. n \<le> i \<and> i < n + k \<and> p = spell i \<and> (\<forall>j. n \<le> j \<and> j < i \<longrightarrow> taken (spell j)))"
proof (induction taken spell n k rule: free_from.induct)
  case (2 taken spell n k)
  show ?case
  proof (cases "taken (spell n)")
    case True
    with 2 obtain i where "\<not> taken p" "n + 1 \<le> i" "i < n + 1 + k" "p = spell i"
      and before: "\<forall>j. n + 1 \<le> j \<and> j < i \<longrightarrow> taken (spell j)" by auto
    moreover have "\<forall>j. n \<le> j \<and> j < i \<longrightarrow> taken (spell j)"
      using before True by (metis Suc_eq_plus1 Suc_leI le_eq_less_or_eq)
    ultimately show ?thesis by (intro conjI exI [of _ i]) auto
  next
    case False
    with 2 show ?thesis by (intro conjI exI [of _ n]) auto
  qed
qed simp

lemma free_from_None:
  "free_from taken spell n k = None \<Longrightarrow> n \<le> i \<Longrightarrow> i < n + k \<Longrightarrow> taken (spell i)"
proof (induction taken spell n k rule: free_from.induct)
  case (2 taken spell n k)
  then show ?case by (cases "i = n") (auto split: if_splits)
qed simp

lemma numbered_inj: "numbered base m = numbered base n \<Longrightarrow> m = n"
  by (auto simp: numbered_def split: prod.splits dest: decimal_inj)

lemma numbered_neq: "numbered base n \<noteq> base"
proof
  assume "numbered base n = base"
  then have "length (numbered base n) = length base" by simp
  moreover have "length base = length (fst (splitName base)) + length (snd (splitName base))"
    by (metis length_append splitName_append)
  ultimately show False by (simp add: numbered_def split: prod.splits)
qed

lemma numbered_split:
  "splitName (numbered base n) =
     (fst (splitName base) @ 32 # decimal (n + 1), snd (splitName base))"
proof -
  have "slash \<notin> set (32 # decimal (n + 1))" "dot \<notin> set (32 # decimal (n + 1))"
    using decimal_avoids [of slash "n + 1"] decimal_avoids [of dot "n + 1"]
    by (auto simp: is_digit_def)
  then show ?thesis
    using splitName_insert [of "32 # decimal (n + 1)" base]
    by (cases "splitName base") (simp add: numbered_def)
qed

section \<open>Folding, spelling and the config folder\<close>

text \<open>
  Unicode normalisation and case folding are tables of the platform: \<open>nfc\<close> and \<open>lower\<close> stand for
  \<open>normalize("NFC")\<close> and \<open>toLowerCase()\<close>.
\<close>

definition canonicalSpelling :: "(jstring \<Rightarrow> jstring) \<Rightarrow> jstring \<Rightarrow> jstring" where
  "canonicalSpelling nfc path = nfc path"

definition foldPath :: "(jstring \<Rightarrow> jstring) \<Rightarrow> (jstring \<Rightarrow> jstring) \<Rightarrow> jstring \<Rightarrow> jstring" where
  "foldPath nfc lower path = lower (canonicalSpelling nfc path)"

definition foldsTogether ::
  "(jstring \<Rightarrow> jstring) \<Rightarrow> (jstring \<Rightarrow> jstring) \<Rightarrow> jstring \<Rightarrow> jstring \<Rightarrow> bool" where
  "foldsTogether nfc lower a b = (foldPath nfc lower a = foldPath nfc lower b)"

datatype config_error = Not_a_plain_name jstring

definition strip_slashes :: "jstring \<Rightarrow> jstring" where
  "strip_slashes s =
     rev (dropWhile (\<lambda>c. c = slash) (rev (dropWhile (\<lambda>c. c = slash) s)))"

definition configFolderName :: "jstring \<Rightarrow> config_error + jstring" where
  "configFolderName configDir =
     (let name = strip_slashes configDir in
      if name = [] \<or> slash \<in> set name then Inl (Not_a_plain_name configDir) else Inr name)"

text \<open>Every folder above a path, outermost first.\<close>

fun parents_from :: "jstring \<Rightarrow> jstring list \<Rightarrow> jstring list" where
  "parents_from upto_here [] = []"
| "parents_from upto_here (part # parts) =
     (let here = (if upto_here \<noteq> [] then upto_here @ slash # part else part)
      in here # parents_from here parts)"

definition parents :: "jstring \<Rightarrow> jstring list" where
  "parents path = parents_from [] (butlast (split_on slash path))"

section \<open>Properties\<close>





end
