(* ===== verification/Chunker.thy ===== *)
theory Chunker
  imports Prelude
begin

text \<open>
  \<open>client/src/core/chunk.ts\<close>: where a file is cut into chunks. \<open>chunkBytes\<close> and
  \<open>chunkStream\<close> are the in-memory and the streaming splitter; both are shown equal to one
  specification, \<open>split_spec\<close>, that looks at nothing but the bytes since the last cut.

  The rolling hash is \<open>Math.imul\<close> and \<open>| 0\<close> arithmetic, so it is a 32-bit word; \<open>hash >>> 0\<close>
  is its unsigned value.
\<close>

section \<open>Sizes\<close>

definition SEAL_OVERHEAD :: nat where
  "SEAL_OVERHEAD = 12 + 128 div 8 + 1"

definition WINDOW :: nat where
  "WINDOW = 48"

record chunk_sizes =
  cs_min :: nat
  cs_avg :: nat
  cs_max :: nat

definition TEXT_SIZES :: chunk_sizes where
  "TEXT_SIZES = \<lparr>cs_min = 512, cs_avg = 1024, cs_max = 4096\<rparr>"

definition BINARY_SIZES :: chunk_sizes where
  "BINARY_SIZES = \<lparr>cs_min = 128 * 1024, cs_avg = 256 * 1024, cs_max = 1024 * 1024\<rparr>"

definition NAME_BYTES :: nat where
  "NAME_BYTES = 64"

definition TEXT_AS_BINARY_ABOVE :: nat where
  "TEXT_AS_BINARY_ABOVE = 4 * 1024 * 1024"

text \<open>The integer part of a square root, by bits.\<close>

fun isqrt :: "nat \<Rightarrow> nat" where
  "isqrt n = (if n = 0 then 0 else
     let r = 2 * isqrt (n div 4) in if (r + 1) * (r + 1) \<le> n then r + 1 else r)"

declare isqrt.simps [simp del]

text \<open>
  \<open>Math.round(ideal / 512) * 512\<close> with \<open>ideal = Math.sqrt(NAME_BYTES * max(size, 1))\<close>; rounding
  half up of a quotient needs only the integer part of the root (\<open>text_avg_real\<close> below).
\<close>

definition textSizesFor :: "nat \<Rightarrow> chunk_sizes" where
  "textSizesFor sz =
     (let ideal = isqrt (NAME_BYTES * max sz 1);
          avg = min (64 * 1024) (max (cs_avg TEXT_SIZES) ((ideal + 256) div 512 * 512))
      in \<lparr>cs_min = max (cs_min TEXT_SIZES) (avg div 2), cs_avg = avg, cs_max = avg * 4\<rparr>)"

text \<open>The server's ceiling is \<open>None\<close> where it is not a finite number.\<close>

definition sizesFor :: "nat \<Rightarrow> bool \<Rightarrow> int option \<Rightarrow> chunk_sizes" where
  "sizesFor sz isText serverChunkMax =
     (let ceiling = (case serverChunkMax of
            None \<Rightarrow> int (cs_max BINARY_SIZES)
          | Some m \<Rightarrow> if m \<le> 0 then int (cs_max BINARY_SIZES) else m);
          base = (if isText \<and> sz < TEXT_AS_BINARY_ABOVE then textSizesFor sz else BINARY_SIZES);
          mx = min (int (cs_max base)) (ceiling - int SEAL_OVERHEAD);
          clampedMax = nat (max mx (int WINDOW * 4))
      in \<lparr>cs_min = min (cs_min base) clampedMax, cs_avg = min (cs_avg base) clampedMax,
          cs_max = clampedMax\<rparr>)"

section \<open>The boundary test and the rolling hash\<close>

definition atBoundary :: "32 word \<Rightarrow> nat \<Rightarrow> bool" where
  "atBoundary hash avg = (uint hash div int avg * int avg = uint hash - 1)"

definition pPowW :: "32 word" where
  "pPowW = ((\<lambda>p. p * 31) ^^ (WINDOW - 1)) 1"

section \<open>Backing off an incomplete character\<close>

text \<open>The lead byte of the last sequence: back over continuation bytes, but not past \<open>start\<close>.\<close>

fun lead_of :: "bytes \<Rightarrow> nat \<Rightarrow> nat \<Rightarrow> nat" where
  "lead_of data start lead =
     (if lead > start \<and> data ! lead AND 0xc0 = 0x80 then lead_of data start (lead - 1) else lead)"

declare lead_of.simps [simp del]

definition expected_bytes :: "byte \<Rightarrow> nat" where
  "expected_bytes b =
     (if b < 0x80 then 1
      else if b AND 0xe0 = 0xc0 then 2
      else if b AND 0xf0 = 0xe0 then 3
      else if b AND 0xf8 = 0xf0 then 4
      else 1)"

definition trimIncompleteCharacter :: "bytes \<Rightarrow> nat \<Rightarrow> nat \<Rightarrow> nat" where
  "trimIncompleteCharacter data start end =
     (if end \<le> start then end
      else let lead = lead_of data start (end - 1); expected = expected_bytes (data ! lead)
           in if end - lead \<ge> expected then end
              else if lead > start then lead else end)"

lemma lead_of_bounds: "start \<le> lead \<Longrightarrow> start \<le> lead_of data start lead \<and> lead_of data start lead \<le> lead"
proof (induction data start lead rule: lead_of.induct)
  case (1 data start lead)
  show ?case
  proof (cases "lead > start \<and> data ! lead AND 0xc0 = 0x80")
    case True
    then have "start \<le> lead - 1" by linarith
    with "1.IH" [OF True] have "start \<le> lead_of data start (lead - 1) \<and>
        lead_of data start (lead - 1) \<le> lead - 1" by simp
    with True show ?thesis by (subst (1 2) lead_of.simps) auto
  next
    case False
    with "1.prems" show ?thesis by (subst (1 2) lead_of.simps) auto
  qed
qed

lemma trim_bounds:
  assumes "start < end"
  shows "start < trimIncompleteCharacter data start end"
    and "trimIncompleteCharacter data start end \<le> end"
proof -
  have "lead_of data start (end - 1) \<le> end - 1"
    using assms lead_of_bounds [of start "end - 1" data] by simp
  then show "start < trimIncompleteCharacter data start end"
    and "trimIncompleteCharacter data start end \<le> end"
    using assms by (auto simp: trimIncompleteCharacter_def Let_def)
qed

section \<open>Splitting bytes in memory\<close>

record chunk =
  ch_offset :: nat
  ch_bytes :: bytes

text \<open>
  The loop of \<open>chunkBytes\<close> at \<open>pos = start + k\<close>: \<open>k\<close> bytes of the current chunk are behind it.
  After a cut the position goes back to the end of the chunk, so \<open>k\<close> restarts at 0.
\<close>

function chunk_loop ::
  "bytes \<Rightarrow> chunk_sizes \<Rightarrow> bool \<Rightarrow> nat \<Rightarrow> nat \<Rightarrow> 32 word \<Rightarrow> chunk list" where
  "chunk_loop data sizes isUtf8 start k hash =
     (let pos = start + k in
      if pos < length data then
        (let byte = data ! pos;
             hash' = (if pos \<ge> start + WINDOW
                      then (hash - ucast (data ! (pos - WINDOW)) * pPowW) * 31 + ucast byte
                      else hash * 31 + ucast byte);
             size' = k + 1;
             boundary = (size' \<ge> cs_min sizes \<and> atBoundary hash' (cs_avg sizes));
             boundary' = (if size' \<ge> cs_max sizes then True else boundary)
         in if boundary' then
              (let end = (if isUtf8 then trimIncompleteCharacter data start (pos + 1) else pos + 1)
               in \<lparr>ch_offset = start, ch_bytes = slice data start end\<rparr>
                    # chunk_loop data sizes isUtf8 end 0 0)
            else chunk_loop data sizes isUtf8 start (k + 1) hash')
      else if start < length data then
        [\<lparr>ch_offset = start, ch_bytes = slice data start (length data)\<rparr>]
      else [])"
  by pat_completeness auto
termination
proof (relation "measures [\<lambda>(data, _, _, start, _, _). length data - start,
                           \<lambda>(data, _, _, start, k, _). length data - (start + k)]", goal_cases)
  case 1
  show ?case by simp
next
  case (2 data sizes u start k hash pos byte h sz b b' e)
  then have "start < e"
    using trim_bounds(1) [of start "start + k + 1" data] by (auto split: if_splits)
  moreover have "start < length data" using 2 by simp
  ultimately have "length data - e < length data - start" by simp
  then show ?case by simp
next
  case 3
  then show ?case by simp
qed

declare chunk_loop.simps [simp del]

definition chunkBytes :: "bytes \<Rightarrow> chunk_sizes \<Rightarrow> bool \<Rightarrow> chunk list" where
  "chunkBytes data sizes isUtf8 = chunk_loop data sizes isUtf8 0 0 0"

section \<open>Splitting a stream\<close>

text \<open>
  The buffer holds the chunk under construction; its first \<open>used\<close> bytes are the list here.
  \<open>scanTo\<close> gives back what is left of the block when a chunk is due, \<open>None\<close> when the block ran
  out first.
\<close>

fun scanTo ::
  "chunk_sizes \<Rightarrow> bytes \<Rightarrow> 32 word \<Rightarrow> bytes \<Rightarrow> bytes \<times> 32 word \<times> bytes option" where
  "scanTo sizes buf hash [] = (buf, hash, None)"
| "scanTo sizes buf hash (byte # block) =
     (let buf' = buf @ [byte]; used = length buf';
          hash' = (if used \<ge> WINDOW + 1
                   then (hash - ucast (buf' ! (used - 1 - WINDOW)) * pPowW) * 31 + ucast byte
                   else hash * 31 + ucast byte)
      in if used \<ge> cs_max sizes \<or> (used \<ge> cs_min sizes \<and> atBoundary hash' (cs_avg sizes))
         then (buf', hash', Some block)
         else scanTo sizes buf' hash' block)"

record stream_state =
  st_buf :: bytes
  st_hash :: "32 word"
  st_offset :: nat

definition rehash :: "bytes \<Rightarrow> 32 word" where
  "rehash carry = foldl (\<lambda>h b. h * 31 + ucast b) 0 carry"

definition cut :: "bool \<Rightarrow> stream_state \<Rightarrow> chunk \<times> stream_state" where
  "cut isUtf8 st =
     (let buf = st_buf st; used = length buf;
          end = (if isUtf8 then trimIncompleteCharacter buf 0 used else used);
          carry = drop end buf
      in (\<lparr>ch_offset = st_offset st, ch_bytes = take end buf\<rparr>,
          \<lparr>st_buf = carry, st_hash = rehash carry, st_offset = st_offset st + end\<rparr>))"

lemma scanTo_shorter: "scanTo sizes buf hash block = (b, h, Some rest) \<Longrightarrow> length rest < length block"
  by (induction sizes buf hash block rule: scanTo.induct)
    (fastforce simp: Let_def simp del: One_nat_def split: if_splits)+

function stream_block ::
  "chunk_sizes \<Rightarrow> bool \<Rightarrow> stream_state \<Rightarrow> bytes \<Rightarrow> chunk list \<times> stream_state" where
  "stream_block sizes isUtf8 st block =
     (case scanTo sizes (st_buf st) (st_hash st) block of
        (buf, hash, None) \<Rightarrow> ([], st\<lparr>st_buf := buf, st_hash := hash\<rparr>)
      | (buf, hash, Some rest) \<Rightarrow>
          (let (c, st') = cut isUtf8 (st\<lparr>st_buf := buf, st_hash := hash\<rparr>);
               (cs, st'') = stream_block sizes isUtf8 st' rest
           in (c # cs, st'')))"
  by pat_completeness auto
termination
  by (relation "measure (\<lambda>(_, _, _, block). length block)") (auto dest: scanTo_shorter [OF sym])

declare stream_block.simps [simp del]

fun stream_blocks ::
  "chunk_sizes \<Rightarrow> bool \<Rightarrow> stream_state \<Rightarrow> bytes list \<Rightarrow> chunk list \<times> stream_state" where
  "stream_blocks sizes isUtf8 st [] = ([], st)"
| "stream_blocks sizes isUtf8 st (block # blocks) =
     (let (cs, st') = stream_block sizes isUtf8 st block;
          (ds, st'') = stream_blocks sizes isUtf8 st' blocks
      in (cs @ ds, st''))"

definition chunkStream :: "bytes list \<Rightarrow> chunk_sizes \<Rightarrow> bool \<Rightarrow> chunk list" where
  "chunkStream blocks sizes isUtf8 =
     (let (cs, st) = stream_blocks sizes isUtf8 \<lparr>st_buf = [], st_hash = 0, st_offset = 0\<rparr> blocks
      in cs @ (if st_buf st \<noteq> [] then [\<lparr>ch_offset = st_offset st, ch_bytes = st_buf st\<rparr>] else []))"

section \<open>The specification\<close>

text \<open>
  The rolling hash of the bytes since the last cut: the byte that leaves the window is taken out
  once more than \<open>WINDOW\<close> bytes are behind.
\<close>

definition window_step :: "bytes \<Rightarrow> 32 word \<Rightarrow> byte \<Rightarrow> 32 word" where
  "window_step p h b =
     (if length p \<ge> WINDOW then (h - ucast (p ! (length p - WINDOW)) * pPowW) * 31 + ucast b
      else h * 31 + ucast b)"

fun window_from :: "bytes \<Rightarrow> 32 word \<Rightarrow> bytes \<Rightarrow> 32 word" where
  "window_from p h [] = h"
| "window_from p h (b # bs) = window_from (p @ [b]) (window_step p h b) bs"

definition window_hash :: "bytes \<Rightarrow> 32 word" where
  "window_hash p = window_from [] 0 p"

definition due :: "chunk_sizes \<Rightarrow> bytes \<Rightarrow> bool" where
  "due sizes p \<longleftrightarrow> length p \<ge> cs_max sizes
     \<or> length p \<ge> cs_min sizes \<and> atBoundary (window_hash p) (cs_avg sizes)"

definition cut_end :: "bool \<Rightarrow> bytes \<Rightarrow> nat" where
  "cut_end isUtf8 p = (if isUtf8 then trimIncompleteCharacter p 0 (length p) else length p)"

text \<open>
  \<open>split_spec\<close> reads the rest byte by byte after the prefix \<open>p\<close> of the current chunk; when the
  prefix is due it is cut, and what was backed over is read again.
\<close>

function split_spec :: "chunk_sizes \<Rightarrow> bool \<Rightarrow> bytes \<Rightarrow> bytes \<Rightarrow> bytes list" where
  "split_spec sizes u p [] = (if p = [] then [] else [p])"
| "split_spec sizes u p (b # rest) =
     (let q = p @ [b] in
      if due sizes q then
        (let e = cut_end u q in take e q # split_spec sizes u [] (drop e q @ rest))
      else split_spec sizes u q rest)"
  by pat_completeness auto
termination
proof (relation "measures [\<lambda>(_, _, p, rest). length p + length rest, \<lambda>(_, _, _, rest). length rest]",
    goal_cases)
  case (2 sizes u p b rest q e)
  then have "0 < e" "q \<noteq> []" using trim_bounds(1) [of 0 "length q" q] by (auto simp: cut_end_def)
  then have "length (drop e q @ rest) < length q + length rest" by simp
  with 2 show ?case by simp
qed auto

declare split_spec.simps(2) [simp del]

lemma cut_end_bounds: "p \<noteq> [] \<Longrightarrow> 0 < cut_end u p \<and> cut_end u p \<le> length p"
  using trim_bounds [of 0 "length p" p] by (simp add: cut_end_def)

lemma window_from_snoc:
  "window_from p h (bs @ [b]) = window_step (p @ bs) (window_from p h bs) b"
  by (induction p h bs rule: window_from.induct) auto

lemma window_hash_snoc: "window_hash (p @ [b]) = window_step p (window_hash p) b"
  by (simp add: window_hash_def window_from_snoc)

lemma window_hash_Nil [simp]: "window_hash [] = 0"
  by (simp add: window_hash_def)

lemma window_hash_short: "length p \<le> WINDOW \<Longrightarrow> window_hash p = rehash p"
  by (induction p rule: rev_induct) (auto simp: window_hash_snoc window_step_def rehash_def)

text \<open>Chunks with the offsets their lengths give them.\<close>

fun with_offsets :: "nat \<Rightarrow> bytes list \<Rightarrow> chunk list" where
  "with_offsets n [] = []"
| "with_offsets n (c # cs) =
     \<lparr>ch_offset = n, ch_bytes = c\<rparr> # with_offsets (n + length c) cs"

lemma with_offsets_bytes [simp]: "map ch_bytes (with_offsets n cs) = cs"
  by (induction cs arbitrary: n) auto

lemma with_offsets_append:
  "with_offsets n (cs @ ds) = with_offsets n cs @ with_offsets (n + length (concat cs)) ds"
  by (induction cs arbitrary: n) (auto simp: add.assoc)

lemma with_offsets_nth:
  "i < length cs \<Longrightarrow> ch_offset (with_offsets n cs ! i) = n + length (concat (take i cs))"
  by (induction cs arbitrary: n i) (auto simp: nth_Cons split: nat.splits)

section \<open>The in-memory splitter meets the specification\<close>

lemma lead_of_slice:
  assumes "start \<le> lead" and "lead < length data"
  shows "lead_of data start lead = start + lead_of (drop start data) 0 (lead - start)"
  using assms
proof (induction data start lead rule: lead_of.induct)
  case (1 data start lead)
  have same: "drop start data ! (lead - start) = data ! lead"
    using "1.prems" by simp
  show ?case
  proof (cases "lead > start \<and> data ! lead AND 0xc0 = 0x80")
    case True
    then have "start \<le> lead - 1" "lead - 1 < length data" using "1.prems" by linarith+
    with "1.IH" [OF True] have "lead_of data start (lead - 1) =
        start + lead_of (drop start data) 0 (lead - 1 - start)" by blast
    then show ?thesis
      using True "1.prems" same
      by (simp add: lead_of.simps [of data start lead] lead_of.simps [of "drop start data" 0 "lead - start"])
  next
    case False
    then show ?thesis
      using "1.prems" same
      by (auto simp: lead_of.simps [of data start lead] lead_of.simps [of "drop start data" 0 "lead - start"])
  qed
qed

lemma lead_of_take: "lead < n \<Longrightarrow> lead_of (take n data) start lead = lead_of data start lead"
proof (induction "take n data" start lead rule: lead_of.induct)
  case (1 start lead)
  then show ?case
    by (cases "lead > start \<and> data ! lead AND 0xc0 = 0x80")
      (auto simp: lead_of.simps [of _ start lead])
qed

lemma trim_slice:
  assumes "start < end" and "end \<le> length data"
  shows "trimIncompleteCharacter data start end
           = start + trimIncompleteCharacter (slice data start end) 0 (end - start)"
proof -
  let ?s = "slice data start end"
  let ?l = "lead_of ?s 0 (end - start - 1)"
  have "lead_of data start (end - 1) = start + lead_of (drop start data) 0 (end - 1 - start)"
    using assms by (intro lead_of_slice) auto
  also have "lead_of (drop start data) 0 (end - 1 - start) = ?l"
    using assms lead_of_take [of "end - start - 1" "end - start" "drop start data" 0]
    by (simp add: slice_def diff_diff_eq add.commute)
  finally have lead: "lead_of data start (end - 1) = start + ?l" .
  have "?l \<le> end - start - 1" using lead_of_bounds [of 0 "end - start - 1" ?s] by simp
  then have l: "?l < end - start" using assms by linarith
  then have "?s ! ?l = data ! (start + ?l)"
    using assms by (simp add: slice_def)
  then show ?thesis
    using assms l by (simp add: trimIncompleteCharacter_def lead [unfolded One_nat_def] Let_def)
qed

lemma slice_Suc: "start \<le> i \<Longrightarrow> i < length data \<Longrightarrow> slice data start (Suc i) = slice data start i @ [data ! i]"
  by (simp add: slice_def Suc_diff_le take_Suc_conv_app_nth)

lemma drop_slice:
  assumes "start \<le> m" and "m \<le> n"
  shows "drop m data = drop (m - start) (slice data start n) @ drop n data"
proof -
  have "drop (m - start) (slice data start n) = take (n - m) (drop m data)"
    using assms by (simp add: slice_def drop_take)
  moreover have "drop n data = drop (n - m) (drop m data)" using assms by simp
  ultimately show ?thesis by (metis append_take_drop_id)
qed

lemma length_slice_here: "start + k \<le> length data \<Longrightarrow> length (slice data start (start + k)) = k"
  by (simp add: slice_def)

lemma chunk_loop_step:
  assumes pos: "start + k < length data"
    and p: "p = slice data start (start + k)" and q: "q = p @ [data ! (start + k)]"
  shows "chunk_loop data sizes u start k (window_hash p) =
     (if due sizes q
      then \<lparr>ch_offset = start, ch_bytes = take (cut_end u q) q\<rparr>
             # chunk_loop data sizes u (start + cut_end u q) 0 0
      else chunk_loop data sizes u start (k + 1) (window_hash q))"
proof -
  let ?b = "data ! (start + k)"
  let ?e = "if u then trimIncompleteCharacter data start (start + k + 1) else start + k + 1"
  have len: "length p = k" using pos by (simp add: p slice_def)
  have sl: "slice data start (start + k + 1) = q" using pos by (simp add: slice_Suc p q)
  have "data ! (start + k - WINDOW) = p ! (k - WINDOW)" if "k \<ge> WINDOW"
    using that pos by (simp add: p slice_def WINDOW_def)
  then have hash': "(if start + k \<ge> start + WINDOW
        then (window_hash p - ucast (data ! (start + k - WINDOW)) * pPowW) * 31 + ucast ?b
        else window_hash p * 31 + ucast ?b) = window_hash q"
    unfolding q window_hash_snoc window_step_def len by (cases "k \<ge> WINDOW") simp_all
  have bd: "(if k + 1 \<ge> cs_max sizes then True
        else k + 1 \<ge> cs_min sizes \<and> atBoundary (window_hash q) (cs_avg sizes)) = due sizes q"
    using len by (simp add: due_def q)
  have e: "?e = start + cut_end u q"
    using trim_slice [of start "start + k + 1" data] pos len sl by (simp add: cut_end_def q)
  have "cut_end u q \<le> k + 1" using cut_end_bounds [of q u] len by (simp add: q)
  then have "slice data start (start + cut_end u q) = take (cut_end u q) q"
    unfolding sl [symmetric] by (simp add: slice_def min_def)
  then show ?thesis
    using pos by (subst chunk_loop.simps) (simp only: Let_def if_True hash' bd e)
qed

lemma chunk_loop_spec:
  assumes "slice data start (start + k) = p" and "drop (start + k) data = rest"
    and "start + k \<le> length data"
  shows "chunk_loop data sizes u start k (window_hash p)
           = with_offsets start (split_spec sizes u p rest)"
  using assms
proof (induction sizes u p rest arbitrary: start k rule: split_spec.induct)
  case (1 sizes u p)
  then show ?case by (subst chunk_loop.simps) (auto simp: slice_def)
next
  case (2 sizes u p b rest)
  let ?q = "p @ [b]"
  let ?e = "cut_end u ?q"
  have dr: "drop (start + k) data = b # rest" by (rule "2.prems"(2))
  then have pos: "start + k < length data" by (metis drop_all leI list.distinct(1))
  have b: "data ! (start + k) = b" using dr by (rule nth_via_drop)
  have rest: "drop (start + (k + 1)) data = rest"
    using dr Cons_nth_drop_Suc [OF pos] by simp
  have sl: "slice data start (start + (k + 1)) = ?q"
    using pos b "2.prems"(1) slice_Suc [of start "start + k" data] by simp
  have len: "length p = k" using "2.prems"(1,3) length_slice_here by blast
  note step = chunk_loop_step [OF pos "2.prems"(1) [symmetric], of ?q sizes u, unfolded b, OF refl]
  show ?case
  proof (cases "due sizes ?q")
    case True
    have e: "?e \<le> k + 1" using cut_end_bounds [of ?q u] len by simp
    have "drop (start + ?e) data = drop ?e ?q @ rest"
      using drop_slice [of start "start + ?e" "start + (k + 1)" data] e sl rest by simp
    then have "chunk_loop data sizes u (start + ?e) 0 (window_hash [])
        = with_offsets (start + ?e) (split_spec sizes u [] (drop ?e ?q @ rest))"
      using "2.IH"(1) [OF refl True refl, of "start + ?e" 0] pos e by (simp add: slice_def)
    moreover have "length (take ?e ?q) = ?e" using e len by simp
    moreover have "split_spec sizes u p (b # rest)
        = take ?e ?q # split_spec sizes u [] (drop ?e ?q @ rest)"
      using True by (subst split_spec.simps(2)) (simp only: Let_def if_True)
    ultimately show ?thesis
      unfolding step using True by (simp only: if_True with_offsets.simps window_hash_Nil)
  next
    case False
    then have "chunk_loop data sizes u start (k + 1) (window_hash ?q)
        = with_offsets start (split_spec sizes u ?q rest)"
      using "2.IH"(2) [OF refl False sl rest] pos by simp
    moreover have "split_spec sizes u p (b # rest) = split_spec sizes u ?q rest"
      using False by (subst split_spec.simps(2)) (simp only: Let_def if_False)
    ultimately show ?thesis unfolding step using False by (simp only: if_False)
  qed
qed

lemma chunkBytes_spec: "chunkBytes data sizes u = with_offsets 0 (split_spec sizes u [] data)"
  using chunk_loop_spec [of data 0 0 "[]" data sizes u] by (simp add: chunkBytes_def slice_def)

section \<open>The streaming splitter meets the specification\<close>

definition roomy :: "chunk_sizes \<Rightarrow> bool" where
  "roomy sizes \<longleftrightarrow> 4 \<le> cs_min sizes \<and> cs_min sizes \<le> cs_max sizes"

lemma cut_end_near: "p \<noteq> [] \<Longrightarrow> length p \<le> cut_end u p + 3"
proof -
  assume "p \<noteq> []"
  moreover have "expected_bytes b \<le> 4" for b by (simp add: expected_bytes_def)
  ultimately show ?thesis
    using order_trans [OF _ \<open>\<And>b. expected_bytes b \<le> 4\<close>]
    by (fastforce simp: cut_end_def trimIncompleteCharacter_def Let_def not_le dest: less_le_trans)
qed

lemma not_due_short: "roomy sizes \<Longrightarrow> length p \<le> 3 \<Longrightarrow> \<not> due sizes p"
  by (auto simp: roomy_def due_def)

lemma split_spec_cut:
  "due sizes (p @ [b]) \<Longrightarrow>
     split_spec sizes u p (b # rest) =
       take (cut_end u (p @ [b])) (p @ [b])
         # split_spec sizes u [] (drop (cut_end u (p @ [b])) (p @ [b]) @ rest)"
  by (subst split_spec.simps(2)) (simp only: Let_def if_True)

lemma split_spec_go:
  "\<not> due sizes (p @ [b]) \<Longrightarrow> split_spec sizes u p (b # rest) = split_spec sizes u (p @ [b]) rest"
  by (subst split_spec.simps(2)) (simp only: Let_def if_False)

lemma split_spec_skip:
  assumes "roomy sizes" and "length (p @ c) \<le> 3"
  shows "split_spec sizes u p (c @ rest) = split_spec sizes u (p @ c) rest"
  using assms(2)
proof (induction c arbitrary: p)
  case (Cons b c)
  then have "\<not> due sizes (p @ [b])" using assms(1) by (intro not_due_short) auto
  with Cons show ?case by (simp add: split_spec_go)
qed simp

lemma scan_step:
  "(if length (buf @ [b]) \<ge> WINDOW + 1
    then (window_hash buf - ucast ((buf @ [b]) ! (length (buf @ [b]) - 1 - WINDOW)) * pPowW) * 31 + ucast b
    else window_hash buf * 31 + ucast b) = window_hash (buf @ [b])"
  by (cases "WINDOW \<le> length buf")
    (auto simp: window_hash_snoc window_step_def nth_append WINDOW_def)

lemma scanTo_Cons:
  "scanTo sizes buf (window_hash buf) (b # block) =
     (if due sizes (buf @ [b]) then (buf @ [b], window_hash (buf @ [b]), Some block)
      else scanTo sizes (buf @ [b]) (window_hash (buf @ [b])) block)"
  by (subst scanTo.simps) (simp only: Let_def scan_step due_def)

declare scanTo.simps(2) [simp del]

lemma scanTo_None:
  "scanTo sizes buf (window_hash buf) block = (b, h, None) \<Longrightarrow>
     h = window_hash b \<and> split_spec sizes u buf (block @ rest) = split_spec sizes u b rest"
proof (induction block arbitrary: buf)
  case (Cons x block)
  then show ?case by (auto simp: scanTo_Cons split_spec_go split: if_splits)
qed simp

lemma scanTo_Some:
  "scanTo sizes buf (window_hash buf) block = (b, h, Some r) \<Longrightarrow>
     b \<noteq> [] \<and> h = window_hash b \<and> due sizes b \<and>
     split_spec sizes u buf (block @ rest) =
       take (cut_end u b) b # split_spec sizes u [] (drop (cut_end u b) b @ r @ rest)"
proof (induction block arbitrary: buf)
  case (Cons x block)
  show ?case
  proof (cases "due sizes (buf @ [x])")
    case True
    with Cons.prems show ?thesis by (auto simp: scanTo_Cons split_spec_cut)
  next
    case False
    with Cons show ?thesis by (auto simp: scanTo_Cons split_spec_go)
  qed
qed simp

text \<open>What is still to come out of a state when \<open>rest\<close> is all that follows.\<close>

definition pending :: "chunk_sizes \<Rightarrow> bool \<Rightarrow> stream_state \<Rightarrow> bytes \<Rightarrow> chunk list" where
  "pending sizes u st rest = with_offsets (st_offset st) (split_spec sizes u (st_buf st) rest)"

definition coherent :: "stream_state \<Rightarrow> bool" where
  "coherent st \<longleftrightarrow> st_hash st = window_hash (st_buf st)"

lemma cut_state:
  assumes "st_buf st \<noteq> []"
  shows "cut u st =
    (\<lparr>ch_offset = st_offset st, ch_bytes = take (cut_end u (st_buf st)) (st_buf st)\<rparr>,
     \<lparr>st_buf = drop (cut_end u (st_buf st)) (st_buf st),
      st_hash = window_hash (drop (cut_end u (st_buf st)) (st_buf st)),
      st_offset = st_offset st + cut_end u (st_buf st)\<rparr>)"
proof -
  have "length (drop (cut_end u (st_buf st)) (st_buf st)) \<le> WINDOW"
    using cut_end_near [OF assms, of u] by (simp add: WINDOW_def)
  from window_hash_short [OF this] show ?thesis
    by (simp add: cut_def Let_def cut_end_def)
qed

lemma stream_block_spec:
  assumes "roomy sizes"
  shows "coherent st \<Longrightarrow> stream_block sizes u st block = (cs, st') \<Longrightarrow>
    coherent st' \<and> pending sizes u st (block @ rest) = cs @ pending sizes u st' rest"
proof (induction "length block" arbitrary: st block cs st' rule: less_induct)
  case less
  obtain b h o' where scan: "scanTo sizes (st_buf st) (st_hash st) block = (b, h, o')"
    by (metis prod_cases3)
  note scan' = scan [unfolded less.prems(1) [unfolded coherent_def]]
  show ?case
  proof (cases o')
    case None
    then have "cs = []" "st' = st\<lparr>st_buf := b, st_hash := h\<rparr>"
      using less.prems(2) scan by (simp_all add: stream_block.simps [of sizes u st])
    moreover note scanTo_None [OF scan' [unfolded None], of u rest]
    ultimately show ?thesis by (simp add: coherent_def pending_def)
  next
    case (Some r)
    let ?st = "st\<lparr>st_buf := b, st_hash := h\<rparr>"
    note spec = scanTo_Some [OF scan' [unfolded Some], of u rest]
    then have e: "length (take (cut_end u b) b) = cut_end u b"
      using cut_end_bounds [of b u] by simp
    obtain c s1 where cut: "cut u ?st = (c, s1)" by fastforce
    obtain ds s2 where rec: "stream_block sizes u s1 r = (ds, s2)" by fastforce
    have out: "cs = c # ds" "st' = s2"
      using less.prems(2) scan Some cut rec by (simp_all add: stream_block.simps [of sizes u st])
    have c: "c = \<lparr>ch_offset = st_offset st, ch_bytes = take (cut_end u b) b\<rparr>"
      and s1: "st_buf s1 = drop (cut_end u b) b" "st_offset s1 = st_offset st + cut_end u b"
      and coh: "coherent s1"
      using cut cut_state [of ?st u] spec by (auto simp: coherent_def)
    have "length r < length block" using scanTo_shorter scan Some by blast
    from less.hyps [OF this coh rec] have
      IH: "coherent s2" "pending sizes u s1 (r @ rest) = ds @ pending sizes u s2 rest" by blast+
    have "length (drop (cut_end u b) b) \<le> 3" using cut_end_near [of b u] spec by simp
    then have "split_spec sizes u [] (drop (cut_end u b) b @ r @ rest)
        = split_spec sizes u (st_buf s1) (r @ rest)"
      using split_spec_skip [OF assms, of "[]"] s1 by simp
    with spec e have "pending sizes u st (block @ rest) = c # pending sizes u s1 (r @ rest)"
      by (simp only: pending_def with_offsets.simps c s1)
    with IH out show ?thesis by simp
  qed
qed

lemma stream_blocks_spec:
  assumes "roomy sizes"
  shows "coherent st \<Longrightarrow> stream_blocks sizes u st blocks = (cs, st') \<Longrightarrow>
    coherent st' \<and> pending sizes u st (concat blocks @ rest) = cs @ pending sizes u st' rest"
proof (induction blocks arbitrary: st cs)
  case (Cons block blocks)
  obtain c1 s1 where 1: "stream_block sizes u st block = (c1, s1)" by fastforce
  obtain c2 s2 where 2: "stream_blocks sizes u s1 blocks = (c2, s2)" by fastforce
  note stream_block_spec [OF assms Cons.prems(1) 1, of "concat blocks @ rest"]
  with Cons.IH [of s1 c2] Cons.prems(2) 1 2 show ?case by auto
qed simp

lemma chunkStream_spec:
  assumes "roomy sizes"
  shows "chunkStream blocks sizes u = with_offsets 0 (split_spec sizes u [] (concat blocks))"
proof -
  let ?st = "\<lparr>st_buf = [], st_hash = 0, st_offset = 0\<rparr>"
  obtain cs st where run: "stream_blocks sizes u ?st blocks = (cs, st)" by fastforce
  have "coherent ?st" by (simp add: coherent_def)
  from stream_blocks_spec [OF assms this run, of "[]"] show ?thesis
    by (auto simp: chunkStream_def run pending_def)
qed

section \<open>What every split keeps\<close>

lemma split_spec_concat: "concat (split_spec sizes u p rest) = p @ rest"
proof (induction sizes u p rest rule: split_spec.induct)
  case (2 sizes u p b rest)
  then show ?case
    by (cases "due sizes (p @ [b])") (simp_all add: split_spec_cut split_spec_go del: take_append drop_append)
qed simp

lemma due_length: "due sizes p \<Longrightarrow> cs_min sizes \<le> cs_max sizes \<Longrightarrow> cs_min sizes \<le> length p"
  by (auto simp: due_def)

lemma split_spec_lengths:
  assumes "roomy sizes" and "length p < cs_max sizes"
  shows "(\<forall>c \<in> set (split_spec sizes u p rest). 0 < length c \<and> length c \<le> cs_max sizes) \<and>
    (\<forall>c \<in> set (butlast (split_spec sizes u p rest)).
        cs_min sizes \<le> length c + (if u then 3 else 0))"
  using assms
proof (induction sizes u p rest rule: split_spec.induct)
  case (2 sizes u p b rest)
  let ?q = "p @ [b]" let ?e = "cut_end u ?q"
  show ?case
  proof (cases "due sizes ?q")
    case True
    have e: "0 < ?e" "?e \<le> length ?q" "length ?q \<le> ?e + 3"
      using cut_end_bounds [of ?q u] cut_end_near [of ?q u] by auto
    have "length ?q \<le> ?e + (if u then 3 else 0)" using e by (auto simp: cut_end_def)
    moreover have "cs_min sizes \<le> length ?q"
      using True "2.prems" by (intro due_length) (auto simp: roomy_def)
    moreover have "0 < cs_max sizes" using "2.prems" by simp
    ultimately show ?thesis
      using "2.IH"(1) [OF refl True refl] "2.prems" e True
      by (simp add: split_spec_cut min_def del: take_append drop_append)
  next
    case False
    then have "length ?q < cs_max sizes" by (auto simp: due_def)
    with "2.IH"(2) [OF refl False] "2.prems" False show ?thesis by (simp add: split_spec_go)
  qed
qed auto


text \<open>A split reads on from a cut as if the file began there.\<close>

lemma split_spec_resume:
  assumes "split_spec sizes u p rest = cs @ ds" and "cs \<noteq> [] \<or> p = []"
  shows "ds = split_spec sizes u [] (concat ds)"
  using assms
proof (induction sizes u p rest arbitrary: cs rule: split_spec.induct)
  case (1 sizes u p)
  then show ?case by (cases cs) (auto simp: append_eq_Cons_conv split: if_splits)
next
  case (2 sizes u p b rest)
  show ?case
  proof (cases cs)
    case Nil
    with "2.prems" show ?thesis using split_spec_concat [of sizes u p "b # rest"] by simp
  next
    case (Cons c cs')
    show ?thesis
    proof (cases "due sizes (p @ [b])")
      case True
      with Cons "2.prems" "2.IH"(1) [OF refl True refl, of cs'] show ?thesis
        by (simp add: split_spec_cut del: take_append drop_append)
    next
      case False
      with Cons "2.prems" "2.IH"(2) [OF refl False, of cs] show ?thesis
        by (simp add: split_spec_go)
    qed
  qed
qed

text \<open>What a prefix \<open>a\<close> of a file decides: some chunks, and a chunk begun.\<close>

lemma split_spec_prefix:
  assumes "roomy sizes"
  obtains cs q where "p @ a = concat cs @ q"
    "\<And>x. split_spec sizes u p (a @ x) = cs @ split_spec sizes u q x"
proof -
  let ?st = "\<lparr>st_buf = p, st_hash = window_hash p, st_offset = 0\<rparr>"
  obtain cs st' where run: "stream_block sizes u ?st a = (cs, st')" by fastforce
  have "coherent ?st" by (simp add: coherent_def)
  from stream_block_spec [OF assms this run]
  have all: "pending sizes u ?st (a @ x) = cs @ pending sizes u st' x" for x by blast
  have split: "split_spec sizes u p (a @ x) = map ch_bytes cs @ split_spec sizes u (st_buf st') x" for x
    using arg_cong [OF all [of x], of "map ch_bytes"] by (simp add: pending_def)
  moreover have "p @ a = concat (map ch_bytes cs) @ st_buf st'"
    using arg_cong [OF split [of "[]"], of concat] split_spec_concat [of sizes u p a]
      split_spec_concat [of sizes u "st_buf st'" "[]"] by simp
  ultimately show ?thesis using that by blast
qed

lemma first_end_after:
  assumes "split_spec sizes u q x = c # cs"
  shows "length q \<le> length c + 3"
  using assms
proof (induction sizes u q x arbitrary: c cs rule: split_spec.induct)
  case (2 sizes u p b rest)
  show ?case
  proof (cases "due sizes (p @ [b])")
    case True
    then have "c = take (cut_end u (p @ [b])) (p @ [b])"
      using "2.prems" by (simp add: split_spec_cut del: take_append drop_append)
    then show ?thesis
      using cut_end_near [of "p @ [b]" u] cut_end_bounds [of "p @ [b]" u] by simp
  next
    case False
    with "2.IH"(2) [OF refl False] "2.prems" show ?thesis by (fastforce simp: split_spec_go)
  qed
qed (auto split: if_splits)

section \<open>Characters stay whole\<close>

definition is_cont :: "byte \<Rightarrow> bool" where
  "is_cont b \<longleftrightarrow> b AND 0xc0 = 0x80"

definition is_char :: "bytes \<Rightarrow> bool" where
  "is_char c \<longleftrightarrow> c \<noteq> [] \<and> \<not> is_cont (hd c) \<and> list_all is_cont (tl c) \<and>
     length c = expected_bytes (hd c)"

text \<open>A text in UTF-8: whole characters, one after the other.\<close>

fun utf8 :: "bytes \<Rightarrow> bool" where
  "utf8 [] = True"
| "utf8 (b # bs) =
     (is_char (take (expected_bytes b) (b # bs)) \<and> utf8 (drop (expected_bytes b - 1) bs))"

lemma expected_bytes_range: "1 \<le> expected_bytes b \<and> expected_bytes b \<le> 4"
  by (simp add: expected_bytes_def)

lemma utf8_char: "is_char c \<Longrightarrow> utf8 (c @ bs) \<longleftrightarrow> utf8 bs"
proof -
  assume c: "is_char c"
  then obtain b t where bt: "c = b # t" "length c = expected_bytes b"
    by (cases c) (auto simp: is_char_def)
  then have "take (expected_bytes b) (b # t @ bs) = c" "drop (expected_bytes b - 1) (t @ bs) = bs"
    by (metis append_Cons append_eq_conv_conj) (metis append_eq_conv_conj bt diff_Suc_1 length_Cons One_nat_def)
  with c bt show ?thesis by simp
qed

lemma utf8_iff: "utf8 bs \<longleftrightarrow> (\<exists>cs. bs = concat cs \<and> list_all is_char cs)"
proof
  show "utf8 bs \<Longrightarrow> \<exists>cs. bs = concat cs \<and> list_all is_char cs"
  proof (induction bs rule: utf8.induct)
    case (2 b bs)
    then obtain cs where cs: "drop (expected_bytes b - 1) bs = concat cs" "list_all is_char cs"
      by auto
    have "b # bs = take (expected_bytes b) (b # bs) @ drop (expected_bytes b - 1) bs"
      using expected_bytes_range [of b] by (cases "expected_bytes b") auto
    with cs 2(2) show ?case
      by (intro exI [of _ "take (expected_bytes b) (b # bs) # cs"]) simp
  qed (intro exI [of _ "[]"], simp)
next
  assume "\<exists>cs. bs = concat cs \<and> list_all is_char cs"
  then obtain cs where "bs = concat cs" "list_all is_char cs" by blast
  then show "utf8 bs" by (induction cs arbitrary: bs) (auto simp: utf8_char)
qed

lemma lead_of_char:
  assumes "list_all is_cont t" and "\<not> is_cont h" and "k \<le> length t"
  shows "lead_of (a @ h # t) 0 (length a + k) = length a"
  using assms(3)
proof (induction k)
  case 0
  then show ?case using assms(2) by (subst lead_of.simps) (simp add: is_cont_def)
next
  case (Suc k)
  then have "(a @ h # t) ! (length a + Suc k) = t ! k" by (simp add: nth_append)
  moreover have "is_cont (t ! k)" using Suc.prems assms(1) by (simp add: list_all_length)
  ultimately show ?case
    using Suc by (subst lead_of.simps) (simp add: is_cont_def)
qed

lemma chars_cut:
  assumes "concat cs = q @ rest" and "list_all is_char cs" and "q \<noteq> []"
  obtains A c1 c2 B where "cs = A @ (c1 @ c2) # B" "q = concat A @ c1" "c1 \<noteq> []"
    "rest = c2 @ concat B"
proof -
  have "\<exists>A c1 c2 B. cs = A @ (c1 @ c2) # B \<and> q = concat A @ c1 \<and> c1 \<noteq> [] \<and> rest = c2 @ concat B"
    using assms
  proof (induction cs arbitrary: q)
    case (Cons c cs)
    show ?case
    proof (cases "length q \<le> length c")
      case True
      then obtain c2 where "c = q @ c2" "rest = c2 @ concat cs"
        using Cons.prems(1) by (auto simp: append_eq_append_conv2)
      then show ?thesis using Cons.prems(3)
        by (intro exI [of _ "[]"] exI [of _ q] exI [of _ c2] exI [of _ cs]) simp
    next
      case False
      then obtain q' where q': "q = c @ q'" "concat cs = q' @ rest" "q' \<noteq> []"
        using Cons.prems(1) by (auto simp: append_eq_append_conv2)
      with Cons.IH [of q'] Cons.prems(2) obtain A c1 c2 B where
        "cs = A @ (c1 @ c2) # B \<and> q' = concat A @ c1 \<and> c1 \<noteq> [] \<and> rest = c2 @ concat B" by auto
      with q' show ?thesis
        by (intro exI [of _ "c # A"] exI [of _ c1] exI [of _ c2] exI [of _ B]) simp
    qed
  qed simp
  then show ?thesis using that by blast
qed

lemma cut_end_utf8:
  assumes "utf8 (q @ rest)" and "4 \<le> length q"
  shows "utf8 (take (cut_end True q) q) \<and> utf8 (drop (cut_end True q) q @ rest)"
proof -
  obtain cs where cs: "concat cs = q @ rest" "list_all is_char cs"
    using assms(1) by (auto simp: utf8_iff)
  have "q \<noteq> []" using assms(2) by auto
  with cs obtain A c1 c2 B where d: "cs = A @ (c1 @ c2) # B" "q = concat A @ c1" "c1 \<noteq> []"
    "rest = c2 @ concat B" by (metis chars_cut)
  then obtain h t where c1: "c1 = h # t" by (cases c1) auto
  have ch: "\<not> is_cont h" "list_all is_cont t" "length (c1 @ c2) = expected_bytes h"
    using cs(2) d c1 by (auto simp: is_char_def)
  have good: "utf8 (concat A)" "utf8 (concat (A @ [c1 @ c2]))" "utf8 (concat B)" "utf8 (concat ((c1 @ c2) # B))"
    using cs(2) d(1) unfolding utf8_iff by (metis list_all_append list.pred_inject)+
  have len: "length q - 1 = length (concat A) + length t" using d c1 by simp
  have lead: "lead_of q 0 (length q - 1) = length (concat A)"
    unfolding len using lead_of_char [OF ch(2,1), of "length t" "concat A"] d c1 by simp
  have at: "q ! length (concat A) = h" using d c1 by simp
  have "cut_end True q = (if c2 = [] then length q else length (concat A))"
  proof (cases "c2 = []")
    case True
    then show ?thesis using ch(3) lead at d c1 \<open>q \<noteq> []\<close>
      by (simp add: cut_end_def trimIncompleteCharacter_def Let_def)
  next
    case False
    then have "length c1 < expected_bytes h" using ch(3) by (cases c2) auto
    then have "length c1 < 4" using expected_bytes_range [of h] by simp
    moreover have "length q = length (concat A) + length c1" using d(2) by simp
    ultimately have "0 < length (concat A)" using assms(2) by linarith
    then show ?thesis using \<open>length c1 < expected_bytes h\<close> lead at d c1 False
      by (simp add: cut_end_def trimIncompleteCharacter_def Let_def)
  qed
  then show ?thesis using good d by (auto split: if_splits)
qed

lemma split_spec_utf8:
  assumes "roomy sizes" and "utf8 (p @ rest)" and "c \<in> set (split_spec sizes u p rest)" and "u"
  shows "utf8 c"
  using assms
proof (induction sizes u p rest rule: split_spec.induct)
  case (1 sizes u p)
  then show ?case by (auto split: if_splits)
next
  case (2 sizes u p b rest)
  then have u: "u = True" by simp
  show ?case
  proof (cases "due sizes (p @ [b])")
    case True
    then have "4 \<le> length (p @ [b])"
      using due_length [OF True] "2.prems"(1) by (simp add: roomy_def)
    then have "utf8 (take (cut_end True (p @ [b])) (p @ [b]))"
      "utf8 (drop (cut_end True (p @ [b])) (p @ [b]) @ rest)"
      using cut_end_utf8 [of "p @ [b]" rest] "2.prems"(2) by simp_all
    then show ?thesis using "2.IH"(1) [OF refl True refl] "2.prems" True u
      by (auto simp: split_spec_cut simp del: take_append drop_append)
  next
    case False
    then show ?thesis using "2.IH"(2) [OF refl False] "2.prems" by (simp add: split_spec_go)
  qed
qed


section \<open>Edits are local\<close>

lemma with_offsets_split:
  assumes "ch \<in> set (with_offsets n cs)"
  obtains as bs where "cs = as @ ch_bytes ch # bs" "ch_offset ch = n + length (concat as)"
proof -
  have "\<exists>as bs. cs = as @ ch_bytes ch # bs \<and> ch_offset ch = n + length (concat as)"
    using assms
  proof (induction cs arbitrary: n)
    case (Cons c cs)
    show ?case
    proof (cases "ch = \<lparr>ch_offset = n, ch_bytes = c\<rparr>")
      case True
      then show ?thesis by (intro exI [of _ "[]"] exI [of _ cs]) simp
    next
      case False
      then have "ch \<in> set (with_offsets (n + length c) cs)" using Cons.prems by simp
      from Cons.IH [OF this] obtain as bs where "cs = as @ ch_bytes ch # bs"
        "ch_offset ch = n + length c + length (concat as)" by blast
      then show ?thesis by (intro exI [of _ "c # as"] exI [of _ bs]) simp
    qed
  qed simp
  then show ?thesis using that by blast
qed

lemma with_offsets_mem:
  "\<lparr>ch_offset = n + length (concat as), ch_bytes = c\<rparr> \<in> set (with_offsets n (as @ c # bs))"
  by (simp add: with_offsets_append)

text \<open>A chunk that ends more than three bytes before a change is a chunk of the changed file.\<close>

lemma chunks_before_edit:
  assumes "roomy sizes" and "ch \<in> set (chunkBytes (a @ x) sizes u)"
    and "ch_offset ch + length (ch_bytes ch) + 3 < length a"
  shows "ch \<in> set (chunkBytes (a @ y) sizes u)"
proof -
  obtain cs q where q: "a = concat cs @ q"
    and split: "\<And>x. split_spec sizes u [] (a @ x) = cs @ split_spec sizes u q x"
    using split_spec_prefix [OF assms(1), of "[]" a u] by auto
  have "ch \<in> set (with_offsets 0 cs @ with_offsets (length (concat cs)) (split_spec sizes u q x))"
    using assms(2) by (simp add: chunkBytes_spec split with_offsets_append)
  moreover have "ch \<notin> set (with_offsets (length (concat cs)) (split_spec sizes u q x))"
  proof
    assume "ch \<in> set (with_offsets (length (concat cs)) (split_spec sizes u q x))"
    then obtain as bs where d: "split_spec sizes u q x = as @ ch_bytes ch # bs"
      "ch_offset ch = length (concat cs) + length (concat as)" by (rule with_offsets_split)
    have "length q \<le> length (concat as) + length (ch_bytes ch) + 3"
    proof (cases as)
      case Nil
      with d first_end_after [of sizes u q x] show ?thesis by simp
    next
      case (Cons c cs')
      with d first_end_after [of sizes u q x c] show ?thesis by simp
    qed
    with d q assms(3) show False by simp
  qed
  ultimately have "ch \<in> set (with_offsets 0 cs)" by simp
  then show ?thesis by (simp add: chunkBytes_spec split with_offsets_append)
qed

text \<open>From a shared cut on, two files that end alike are split alike.\<close>

definition chunks_from :: "nat \<Rightarrow> chunk list \<Rightarrow> bytes list" where
  "chunks_from n chunks = map ch_bytes (dropWhile (\<lambda>c. ch_offset c < n) chunks)"

lemma with_offsets_dropWhile:
  assumes "list_all (\<lambda>c. c \<noteq> []) as"
  shows "dropWhile (\<lambda>c. ch_offset c < n + length (concat as)) (with_offsets n (as @ bs))
           = with_offsets (n + length (concat as)) bs"
  using assms
proof (induction as arbitrary: n)
  case Nil
  show ?case by (cases bs) simp_all
next
  case (Cons c as)
  from Cons.IH [of "n + length c"] Cons.prems show ?case by (simp add: add.assoc)
qed

lemma chunks_resume:
  assumes "roomy sizes" and "ch \<in> set (chunkBytes data sizes u)"
  shows "chunks_from (ch_offset ch) (chunkBytes data sizes u)
           = split_spec sizes u [] (drop (ch_offset ch) data)"
proof -
  obtain as bs where d: "split_spec sizes u [] data = as @ ch_bytes ch # bs"
      "ch_offset ch = length (concat as)"
    using assms(2) unfolding chunkBytes_spec by (metis with_offsets_split add_0)
  let ?bs = "ch_bytes ch # bs"
  have "0 < cs_max sizes" using assms(1) by (simp add: roomy_def)
  then have "list_all (\<lambda>c. c \<noteq> []) as"
    using split_spec_lengths [OF assms(1), of "[]" u data] d(1) by (auto simp: list_all_iff)
  then have "chunks_from (ch_offset ch) (chunkBytes data sizes u) = ?bs"
    using with_offsets_dropWhile [of as 0 ?bs] d by (simp add: chunks_from_def chunkBytes_spec)
  moreover have "?bs = split_spec sizes u [] (concat ?bs)"
    by (rule split_spec_resume [of sizes u "[]" data as]) (rule d(1), simp)
  moreover have "data = concat as @ concat ?bs"
    using split_spec_concat [of sizes u "[]" data] d(1) by simp
  ultimately show ?thesis using d(2) by (metis append_eq_conv_conj)
qed

section \<open>Sizes a server accepts\<close>

lemma textSizesFor_band:
  "let s = textSizesFor n in 512 \<le> cs_min s \<and> 1024 \<le> cs_avg s \<and> cs_avg s \<le> 65536 \<and>
     cs_min s \<le> cs_avg s \<and> cs_max s = 4 * cs_avg s"
  by (auto simp: textSizesFor_def TEXT_SIZES_def Let_def)

lemma sizesFor_roomy: "roomy (sizesFor n text m)"
proof -
  have "4 \<le> cs_min (textSizesFor n)" using textSizesFor_band [of n] by (simp add: Let_def)
  then show ?thesis
    by (auto simp: roomy_def sizesFor_def Let_def BINARY_SIZES_def WINDOW_def nat_le_iff le_nat_iff)
qed

lemma sizesFor_ceiling:
  assumes "221 \<le> m"
  shows "int (cs_max (sizesFor n text (Some m)) + SEAL_OVERHEAD) \<le> m"
  using assms by (auto simp: sizesFor_def Let_def SEAL_OVERHEAD_def WINDOW_def BINARY_SIZES_def)

lemma sizesFor_avg: "2 \<le> cs_avg (sizesFor n text m)"
proof -
  have "1024 \<le> cs_avg (textSizesFor n)" using textSizesFor_band [of n] by (simp add: Let_def)
  then show ?thesis
    by (auto simp: sizesFor_def Let_def BINARY_SIZES_def WINDOW_def nat_le_iff le_nat_iff)
qed

lemma atBoundary_mod:
  assumes "2 \<le> avg"
  shows "atBoundary hash avg \<longleftrightarrow> unat hash mod avg = 1"
proof -
  have eq: "int (unat hash) = uint hash" by simp
  have "uint hash div int avg * int avg = uint hash - uint hash mod int avg"
    by (simp add: minus_mod_eq_div_mult)
  then have "atBoundary hash avg \<longleftrightarrow> uint hash mod int avg = 1"
    by (auto simp: atBoundary_def)
  also have "uint hash mod int avg = int (unat hash mod avg)" by (simp add: zmod_int)
  finally show ?thesis by simp
qed

text \<open>The integer root is the floor of the real one, and rounding its quotient loses nothing.\<close>

lemma isqrt_bounds: "isqrt n * isqrt n \<le> n \<and> n < (isqrt n + 1) * (isqrt n + 1)"
proof (induction n rule: isqrt.induct)
  case (1 n)
  show ?case
  proof (cases "n = 0")
    case False
    let ?q = "isqrt (n div 4)"
    have "?q * ?q \<le> n div 4" "n div 4 < (?q + 1) * (?q + 1)" using 1 False by auto
    then have "4 * (?q * ?q) \<le> n" "n < 4 * ((?q + 1) * (?q + 1))" by linarith+
    then show ?thesis using False
      by (subst (1 2 3 4) isqrt.simps) (auto simp: Let_def algebra_simps)
  qed (simp add: isqrt.simps)
qed

lemma isqrt_floor: "int (isqrt n) = \<lfloor>sqrt (real n)\<rfloor>"
proof -
  have "real (isqrt n) \<le> sqrt (real n)"
    using isqrt_bounds [of n] by (intro real_le_rsqrt) (simp add: power2_eq_square flip: of_nat_mult)
  moreover have "sqrt (real n) < real (isqrt n + 1)"
    using isqrt_bounds [of n] by (intro real_less_lsqrt) (simp_all add: power2_eq_square flip: of_nat_mult del: of_nat_add of_nat_Suc)
  ultimately show ?thesis by (intro floor_unique [symmetric]) auto
qed

lemma text_avg_real:
  "int ((isqrt n + 256) div 512 * 512) = \<lfloor>sqrt (real n) / 512 + 1 / 2\<rfloor> * 512"
proof -
  have "\<lfloor>sqrt (real n) / 512 + 1 / 2\<rfloor> = \<lfloor>(sqrt (real n) + of_int 256) / of_int 512\<rfloor>"
    by (simp add: add_divide_distrib)
  also have "\<dots> = (\<lfloor>sqrt (real n) + of_int 256\<rfloor>) div 512"
    by (simp only: floor_divide_real_eq_div)
  also have "\<lfloor>sqrt (real n) + of_int 256\<rfloor> = int (isqrt n) + 256"
    by (simp add: isqrt_floor)
  finally show ?thesis by (simp add: zdiv_int)
qed


lemma chunkBytes_lengths:
  assumes "roomy sizes"
  shows "c \<in> set (chunkBytes data sizes u) \<Longrightarrow> 0 < length (ch_bytes c) \<and> length (ch_bytes c) \<le> cs_max sizes"
proof -
  assume "c \<in> set (chunkBytes data sizes u)"
  then have "ch_bytes c \<in> set (split_spec sizes u [] data)"
    unfolding chunkBytes_spec by (metis image_eqI list.set_map with_offsets_bytes)
  then show ?thesis using split_spec_lengths [OF assms, of "[]" u data] assms by (auto simp: roomy_def)
qed

section \<open>What the extension says\<close>

text \<open>
  \<open>path.slice(dot + 1).toLowerCase()\<close> looked up in a fixed set of ASCII names: no code point outside
  ASCII lowers to a letter of one of these names, so lowering the ASCII letters decides it.
\<close>

definition TEXT_EXTENSIONS :: "string list" where
  "TEXT_EXTENSIONS = [''md'', ''txt'', ''canvas'', ''json'', ''csv'', ''yml'', ''yaml'', ''base'',
     ''xml'', ''html'', ''css'', ''js'', ''ts'', ''svg'', ''bib'', ''tex'']"

definition JSON_EXTENSIONS :: "string list" where
  "JSON_EXTENSIONS = [''canvas'', ''json'']"

definition YAML_EXTENSIONS :: "string list" where
  "YAML_EXTENSIONS = [''base'', ''yml'', ''yaml'']"

definition has_extension :: "string list \<Rightarrow> jstring \<Rightarrow> bool" where
  "has_extension exts path =
     (let dt = last_index_of path dot in
      if dt < 0 then False
      else map ascii_lower (drop (nat dt + 1) path) \<in> set (map lit exts))"

definition looksLikeText :: "jstring \<Rightarrow> bool" where
  "looksLikeText path = has_extension TEXT_EXTENSIONS path"

definition looksLikeYaml :: "jstring \<Rightarrow> bool" where
  "looksLikeYaml path = has_extension YAML_EXTENSIONS path"

definition looksLikeJson :: "jstring \<Rightarrow> bool" where
  "looksLikeJson path = has_extension JSON_EXTENSIONS path"

section \<open>Properties\<close>

text \<open>C11. The streaming splitter and the in-memory one cut a file at the same places, however the
  stream is cut into blocks, for every size table \<open>sizesFor\<close> can produce.\<close>

theorem chunkStream_is_chunkBytes:
  "chunkStream blocks (sizesFor sz isText limit) isUtf8
     = chunkBytes (concat blocks) (sizesFor sz isText limit) isUtf8"
  by (simp add: chunkStream_spec [OF sizesFor_roomy] chunkBytes_spec)

text \<open>C12. The chunks of a file are the file: end to end they are its bytes, each one's offset is
  where it starts, none is empty or above the maximum, and only the last may be below the minimum (by
  more than the three bytes a whole character may cost).\<close>

theorem chunkBytes_partition:
  fixes data sz isText limit isUtf8
  defines "sizes \<equiv> sizesFor sz isText limit"
  defines "chunks \<equiv> chunkBytes data sizes isUtf8"
  shows "concat (map ch_bytes chunks) = data
    \<and> (\<forall>i < length chunks. ch_offset (chunks ! i) = length (concat (map ch_bytes (take i chunks))))
    \<and> (\<forall>c \<in> set chunks. 0 < length (ch_bytes c) \<and> length (ch_bytes c) \<le> cs_max sizes)
    \<and> (\<forall>c \<in> set (butlast chunks). cs_min sizes \<le> length (ch_bytes c) + (if isUtf8 then 3 else 0))"
proof (intro conjI)
  let ?cs = "split_spec sizes isUtf8 [] data"
  have chunks: "chunks = with_offsets 0 ?cs" by (simp add: chunks_def chunkBytes_spec)
  have roomy: "roomy sizes" by (simp add: sizes_def sizesFor_roomy)
  then have "0 < cs_max sizes" by (simp add: roomy_def)
  with split_spec_lengths [OF roomy, of "[]" isUtf8 data] have
    len: "\<forall>c \<in> set (map ch_bytes chunks). 0 < length c \<and> length c \<le> cs_max sizes"
    and but: "\<forall>c \<in> set (map ch_bytes (butlast chunks)).
      cs_min sizes \<le> length c + (if isUtf8 then 3 else 0)"
    unfolding map_butlast chunks with_offsets_bytes by simp_all
  show "concat (map ch_bytes chunks) = data" by (simp add: chunks split_spec_concat)
  show "\<forall>i < length chunks. ch_offset (chunks ! i) = length (concat (map ch_bytes (take i chunks)))"
    unfolding take_map [symmetric] unfolding chunks with_offsets_bytes
    using with_offsets_nth [of _ ?cs 0] by (metis add_0 length_map with_offsets_bytes)
  show "\<forall>c \<in> set chunks. 0 < length (ch_bytes c) \<and> length (ch_bytes c) \<le> cs_max sizes"
    using len by simp
  show "\<forall>c \<in> set (butlast chunks). cs_min sizes \<le> length (ch_bytes c) + (if isUtf8 then 3 else 0)"
    using but by simp
qed

lemma chunkBytes_partition_witness:
  "concat (map ch_bytes (chunkBytes [1, 2, 3] (sizesFor 3 True None) True)) = [1, 2, 3]
   \<and> list_all (\<lambda>c. 0 < length (ch_bytes c)) (chunkBytes [1, 2, 3] (sizesFor 3 True None) True)"
  using chunkBytes_partition [of "[1, 2, 3]" 3 True None True] by (simp add: list_all_iff)

text \<open>C20. Every chunk of a UTF-8 text is UTF-8 on its own: no cut, not even one forced at the maximum,
  falls inside a character.\<close>

theorem chunkBytes_whole_characters:
  assumes "utf8 data" and "c \<in> set (chunkBytes data (sizesFor sz isText limit) True)"
  shows "utf8 (ch_bytes c)"
proof -
  have "ch_bytes c \<in> set (split_spec (sizesFor sz isText limit) True [] data)"
    using assms(2) with_offsets_bytes unfolding chunkBytes_spec by (metis image_eqI list.set_map)
  then show ?thesis
    using split_spec_utf8 [OF sizesFor_roomy, of "[]" data] assms(1) by simp
qed

lemma chunkBytes_whole_characters_witness:
  "list_all (\<lambda>c. utf8 (ch_bytes c)) (chunkBytes [0x61, 0xc3, 0xa9] (sizesFor 3 True None) True)"
proof -
  have "utf8 [0x61, 0xc3, 0xa9]"
    by (simp add: is_char_def is_cont_def expected_bytes_def)
  from chunkBytes_whole_characters [OF this] show ?thesis by (simp add: list_all_iff)
qed



text \<open>Whatever ceiling the server announces from 221 bytes up, every chunk fits it once sealed; and
  the boundary test, written without a remainder for the sake of one JavaScript engine, is the
  remainder test it replaces for every average \<open>sizesFor\<close> produces.\<close>

theorem sizesFor_fits_server:
  "(221 \<le> m \<and> c \<in> set (chunkBytes data (sizesFor sz isText (Some m)) u) \<longrightarrow>
      int (length (ch_bytes c) + SEAL_OVERHEAD) \<le> m)
   \<and> (atBoundary hash (cs_avg (sizesFor sz isText (limit :: int option))) \<longleftrightarrow>
      unat hash mod cs_avg (sizesFor sz isText limit) = 1)"
proof (intro conjI impI)
  assume a: "221 \<le> m \<and> c \<in> set (chunkBytes data (sizesFor sz isText (Some m)) u)"
  then have "length (ch_bytes c) \<le> cs_max (sizesFor sz isText (Some m))"
    using chunkBytes_lengths [OF sizesFor_roomy] by blast
  with a sizesFor_ceiling [of m sz isText] show "int (length (ch_bytes c) + SEAL_OVERHEAD) \<le> m"
    by simp
qed (rule atBoundary_mod [OF sizesFor_avg])

lemma sizesFor_fits_server_witness:
  "cs_avg (sizesFor 3 True (Some 1000)) = 971 \<and> (atBoundary 972 971 \<longleftrightarrow> unat (972 :: 32 word) mod 971 = 1)"
proof -
  have "cs_avg (sizesFor 3 True (Some 1000)) = 971"
    by (simp add: sizesFor_def textSizesFor_def TEXT_SIZES_def Let_def SEAL_OVERHEAD_def WINDOW_def
        TEXT_AS_BINARY_ABOVE_def NAME_BYTES_def isqrt.simps)
  with sizesFor_fits_server [of 1000 _ _ 3 True _ 972 "Some 1000"] show ?thesis by simp
qed

end
