(* ===== verification/Json.thy ===== *)
theory Json
  imports Prelude "HOL-Library.AList"
begin

text \<open>
  JSON values, \<open>JSON.stringify\<close> and \<open>JSON.parse\<close>, for the components that keep their state as JSON
  text (the index snapshot and journal, pairing strings, tokens).

  An object is the list of its own properties in insertion order, with distinct keys;
  \<open>AList.update\<close> is assignment and \<open>AList.delete\<close> is \<open>delete\<close>. The numbers these files hold are
  integers (cursors, uids, sizes, rounded times); a numeral with a fraction or an exponent is kept as
  it is spelled.
\<close>

datatype json =
    JNull
  | JBool bool
  | JNum int
  | JReal jstring
  | JStr jstring
  | JArr "json list"
  | JObj "(jstring \<times> json) list"

type_synonym obj = "(jstring \<times> json) list"

section \<open>Printing\<close>

definition integer_text :: "int \<Rightarrow> jstring" where
  "integer_text n = (if n < 0 then 45 # decimal (nat (- n)) else decimal (nat n))"

definition hex_digit :: "nat \<Rightarrow> jchar" where
  "hex_digit d = (if d < 10 then of_nat (48 + d) else of_nat (87 + d))"

definition hex4 :: "jchar \<Rightarrow> jstring" where
  "hex4 c = (let n = unat c in
     [hex_digit (n div 4096 mod 16), hex_digit (n div 256 mod 16), hex_digit (n div 16 mod 16),
      hex_digit (n mod 16)])"

definition is_high :: "jchar \<Rightarrow> bool" where
  "is_high c \<longleftrightarrow> 0xd800 \<le> c \<and> c \<le> 0xdbff"

definition is_low :: "jchar \<Rightarrow> bool" where
  "is_low c \<longleftrightarrow> 0xdc00 \<le> c \<and> c \<le> 0xdfff"

text \<open>One code unit that is not part of a surrogate pair.\<close>

definition escape :: "jchar \<Rightarrow> jstring" where
  "escape c =
     (if c = 34 then [92, 34]
      else if c = 92 then [92, 92]
      else if c = 8 then [92, 98]
      else if c = 9 then [92, 116]
      else if c = 10 then [92, 110]
      else if c = 12 then [92, 102]
      else if c = 13 then [92, 114]
      else if c < 32 \<or> is_high c \<or> is_low c then [92, 117] @ hex4 c
      else [c])"

fun escaped :: "jstring \<Rightarrow> jstring" where
  "escaped [] = []"
| "escaped [c] = escape c"
| "escaped (c # d # s) =
     (if is_high c \<and> is_low d then c # d # escaped s else escape c @ escaped (d # s))"

definition quoted :: "jstring \<Rightarrow> jstring" where
  "quoted s = 34 # escaped s @ [34]"

fun stringify :: "json \<Rightarrow> jstring" where
  "stringify JNull = lit ''null''"
| "stringify (JBool b) = (if b then lit ''true'' else lit ''false'')"
| "stringify (JNum n) = integer_text n"
| "stringify (JReal t) = t"
| "stringify (JStr s) = quoted s"
| "stringify (JArr vs) = 91 # join_with [44] (map stringify vs) @ [93]"
| "stringify (JObj kvs) =
     123 # join_with [44] (map (\<lambda>(k, v). quoted k @ 58 # stringify v) kvs) @ [125]"

section \<open>Parsing\<close>

definition is_ws :: "jchar \<Rightarrow> bool" where
  "is_ws c \<longleftrightarrow> c = 32 \<or> c = 9 \<or> c = 10 \<or> c = 13"

definition skip_ws :: "jstring \<Rightarrow> jstring" where
  "skip_ws s = dropWhile is_ws s"

definition hex_value :: "jchar \<Rightarrow> nat option" where
  "hex_value c =
     (if 48 \<le> c \<and> c \<le> 57 then Some (unat c - 48)
      else if 97 \<le> c \<and> c \<le> 102 then Some (unat c - 87)
      else if 65 \<le> c \<and> c \<le> 70 then Some (unat c - 55)
      else None)"

fun hex4_value :: "jstring \<Rightarrow> jchar option" where
  "hex4_value [a, b, c, d] =
     (case (hex_value a, hex_value b, hex_value c, hex_value d) of
        (Some a, Some b, Some c, Some d) \<Rightarrow> Some (of_nat (4096 * a + 256 * b + 16 * c + d))
      | _ \<Rightarrow> None)"
| "hex4_value _ = None"

definition simple_escape :: "jchar \<Rightarrow> jchar option" where
  "simple_escape c =
     (if c = 34 then Some 34 else if c = 92 then Some 92 else if c = 47 then Some 47
      else if c = 98 then Some 8 else if c = 102 then Some 12 else if c = 110 then Some 10
      else if c = 114 then Some 13 else if c = 116 then Some 9 else None)"

text \<open>The rest of a string behind its opening quote, with what follows the closing one.\<close>

function parse_string :: "jstring \<Rightarrow> (jstring \<times> jstring) option" where
  "parse_string [] = None"
| "parse_string (c # s) =
     (if c = 34 then Some ([], s)
      else if c < 32 then None
      else if c = 92 then
        (case s of
           [] \<Rightarrow> None
         | e # s' \<Rightarrow>
             if e = 117 then
               (case hex4_value (take 4 s') of
                  None \<Rightarrow> None
                | Some u \<Rightarrow> map_option (\<lambda>(t, r). (u # t, r)) (parse_string (drop 4 s')))
             else
               (case simple_escape e of
                  None \<Rightarrow> None
                | Some u \<Rightarrow> map_option (\<lambda>(t, r). (u # t, r)) (parse_string s')))
      else map_option (\<lambda>(t, r). (c # t, r)) (parse_string s))"
  by pat_completeness auto
termination by (relation "measure length") auto

declare parse_string.simps(2) [simp del]

text \<open>A numeral is the longest run of its characters, then judged by the grammar.\<close>

definition numeral_char :: "jchar \<Rightarrow> bool" where
  "numeral_char c \<longleftrightarrow> is_digit c \<or> c = 45 \<or> c = 43 \<or> c = 46 \<or> c = 101 \<or> c = 69"

definition digits_value :: "jstring \<Rightarrow> nat" where
  "digits_value ds = foldl (\<lambda>n d. 10 * n + (unat d - 48)) 0 ds"

definition natural_numeral :: "jstring \<Rightarrow> bool" where
  "natural_numeral t \<longleftrightarrow> t \<noteq> [] \<and> list_all is_digit t \<and> (hd t = 48 \<longrightarrow> length t = 1)"

definition unsigned :: "jstring \<Rightarrow> jstring" where
  "unsigned t = (if starts_with t [45] then tl t else t)"

definition real_numeral :: "jstring \<Rightarrow> bool" where
  "real_numeral t \<longleftrightarrow>
     (let u = unsigned t; whole = takeWhile is_digit u; r = dropWhile is_digit u;
          frac = (if starts_with r [46] then takeWhile is_digit (tl r) else []);
          r' = (if starts_with r [46] then dropWhile is_digit (tl r) else r);
          ex = (if starts_with (tl r') [43] \<or> starts_with (tl r') [45] then tl (tl r') else tl r')
      in natural_numeral whole \<and> r \<noteq> [] \<and> (starts_with r [46] \<longrightarrow> frac \<noteq> []) \<and>
         (r' = [] \<or> (hd r' = 101 \<or> hd r' = 69) \<and> ex \<noteq> [] \<and> list_all is_digit ex))"

definition parse_numeral :: "jstring \<Rightarrow> json option" where
  "parse_numeral t =
     (if natural_numeral t then Some (JNum (int (digits_value t)))
      else if starts_with t [45] \<and> natural_numeral (tl t) then Some (JNum (- int (digits_value (tl t))))
      else if real_numeral t then Some (JReal t)
      else None)"

text \<open>
  \<open>n\<close> bounds the nesting; the length of the text is always enough. \<open>parse_items\<close> and
  \<open>parse_members\<close> read from behind an opening bracket or a comma.
\<close>

fun parse_value :: "nat \<Rightarrow> jstring \<Rightarrow> (json \<times> jstring) option"
  and parse_items :: "nat \<Rightarrow> jstring \<Rightarrow> (json list \<times> jstring) option"
  and parse_members :: "nat \<Rightarrow> jstring \<Rightarrow> ((jstring \<times> json) list \<times> jstring) option" where
  "parse_value 0 s = None"
| "parse_value (Suc n) s =
     (case skip_ws s of
        [] \<Rightarrow> None
      | c # r \<Rightarrow>
          if c = 34 then map_option (\<lambda>(t, r'). (JStr t, r')) (parse_string r)
          else if c = 91 then
            (if starts_with (skip_ws r) [93] then Some (JArr [], tl (skip_ws r))
             else map_option (\<lambda>(vs, r'). (JArr vs, r')) (parse_items n r))
          else if c = 123 then
            (if starts_with (skip_ws r) [125] then Some (JObj [], tl (skip_ws r))
             else map_option (\<lambda>(kvs, r'). (JObj (foldl (\<lambda>o' (k, v). AList.update k v o') [] kvs), r'))
                    (parse_members n r))
          else if starts_with (c # r) (lit ''null'') then Some (JNull, drop 4 (c # r))
          else if starts_with (c # r) (lit ''true'') then Some (JBool True, drop 4 (c # r))
          else if starts_with (c # r) (lit ''false'') then Some (JBool False, drop 5 (c # r))
          else map_option (\<lambda>v. (v, dropWhile numeral_char (c # r)))
                 (parse_numeral (takeWhile numeral_char (c # r))))"
| "parse_items 0 s = None"
| "parse_items (Suc n) s =
     (case parse_value n s of
        None \<Rightarrow> None
      | Some (v, r) \<Rightarrow>
          (case skip_ws r of
             [] \<Rightarrow> None
           | c # r' \<Rightarrow>
               if c = 44 then map_option (\<lambda>(vs, q). (v # vs, q)) (parse_items n r')
               else if c = 93 then Some ([v], r') else None))"
| "parse_members 0 s = None"
| "parse_members (Suc n) s =
     (case skip_ws s of
        [] \<Rightarrow> None
      | q # r0 \<Rightarrow> if q \<noteq> 34 then None else
          (case parse_string r0 of
             None \<Rightarrow> None
           | Some (k, r1) \<Rightarrow>
               (case skip_ws r1 of
                  [] \<Rightarrow> None
                | colon # r2 \<Rightarrow> if colon \<noteq> 58 then None else
                    (case parse_value n r2 of
                       None \<Rightarrow> None
                     | Some (v, r) \<Rightarrow>
                         (case skip_ws r of
                            [] \<Rightarrow> None
                          | c # r' \<Rightarrow>
                              if c = 44 then map_option (\<lambda>(kvs, q). ((k, v) # kvs, q)) (parse_members n r')
                              else if c = 125 then Some ([(k, v)], r') else None)))))"

definition parse_json :: "jstring \<Rightarrow> json option" where
  "parse_json s =
     (case parse_value (2 * length s + 2) s of
        Some (v, r) \<Rightarrow> if skip_ws r = [] then Some v else None
      | None \<Rightarrow> None)"

section \<open>A printed value parses back\<close>

lemma hex_value_digit: "d < 16 \<Longrightarrow> hex_value (hex_digit d) = Some d"
proof -
  have "list_all (\<lambda>d. hex_value (hex_digit d) = Some d) [0..<16]"
    by code_simp
  then show "d < 16 \<Longrightarrow> ?thesis" by (simp add: list_all_iff)
qed

lemma hex4_value_hex4: "hex4_value (hex4 c) = Some c"
proof -
  let ?n = "unat c"
  have "?n < 2 ^ LENGTH(16)" by (rule unsigned_less)
  then have "?n < 65536" by simp
  then have "4096 * (?n div 4096 mod 16) + 256 * (?n div 256 mod 16) + 16 * (?n div 16 mod 16) + ?n mod 16 = ?n"
  proof -
    have "?n = 16 * (?n div 16) + ?n mod 16" by simp
    moreover have "?n div 16 = 16 * (?n div 256) + ?n div 16 mod 16"
      using div_mult_mod_eq [of "?n div 16" 16] by (simp add: div_mult2_eq [symmetric] mult.commute)
    moreover have "?n div 256 = 16 * (?n div 4096) + ?n div 256 mod 16"
      using div_mult_mod_eq [of "?n div 256" 16] by (simp add: div_mult2_eq [symmetric] mult.commute)
    moreover have "?n div 4096 mod 16 = ?n div 4096" using \<open>?n < 65536\<close> by (simp add: less_mult_imp_div_less)
    ultimately show ?thesis by linarith
  qed
  then have "of_nat (4096 * (?n div 4096 mod 16) + 256 * (?n div 256 mod 16) + 16 * (?n div 16 mod 16) + ?n mod 16) = c"
    by (simp only:) simp
  then show ?thesis by (simp add: hex4_def Let_def hex_value_digit del: of_nat_add of_nat_mult)
qed

lemma length_hex4: "length (hex4 c) = 4"
  by (simp add: hex4_def Let_def)

lemma parse_string_u:
  "length h = 4 \<Longrightarrow> hex4_value h = Some u \<Longrightarrow>
     parse_string (92 # 117 # h @ s) = map_option (\<lambda>(t, r). (u # t, r)) (parse_string s)"
  by (subst parse_string.simps) simp

lemma parse_string_plain:
  "c \<noteq> 34 \<Longrightarrow> c \<noteq> 92 \<Longrightarrow> \<not> c < 32 \<Longrightarrow>
     parse_string (c # s) = map_option (\<lambda>(t, r). (c # t, r)) (parse_string s)"
  by (subst parse_string.simps) simp

lemma parse_string_simple:
  "simple_escape e = Some u \<Longrightarrow> e \<noteq> 117 \<Longrightarrow>
     parse_string (92 # e # s) = map_option (\<lambda>(t, r). (u # t, r)) (parse_string s)"
  by (subst parse_string.simps) simp

lemma surrogate_plain: "is_high c \<or> is_low c \<Longrightarrow> c \<noteq> 34 \<and> c \<noteq> 92 \<and> \<not> c < 32"
  by (auto simp: is_high_def is_low_def dest: order_le_less_trans)

lemma parse_string_close: "parse_string (34 # r) = Some ([], r)"
  by (subst parse_string.simps) simp

lemma parse_string_escape:
  "parse_string (escape c @ s) = map_option (\<lambda>(t, r). (c # t, r)) (parse_string s)"
proof (cases "c \<in> {34, 92, 8, 9, 10, 12, 13}")
  case True
  then show ?thesis
    by (auto simp: escape_def parse_string_simple simple_escape_def)
next
  case False
  show ?thesis
  proof (cases "c < 32 \<or> is_high c \<or> is_low c")
    case True
    with False have "escape c = 92 # 117 # hex4 c" by (auto simp: escape_def)
    then show ?thesis by (simp add: parse_string_u length_hex4 hex4_value_hex4)
  next
    case plain: False
    with False have "escape c = [c]" by (auto simp: escape_def)
    with False plain show ?thesis by (simp add: parse_string_plain)
  qed
qed

lemma parse_string_escaped: "parse_string (escaped s @ 34 # r) = Some (s, r)"
proof (induction s rule: escaped.induct)
  case 1
  show ?case by (simp add: parse_string_close)
next
  case (2 c)
  show ?case by (simp add: parse_string_escape parse_string_close)
next
  case (3 c d s)
  show ?case
  proof (cases "is_high c \<and> is_low d")
    case True
    then show ?thesis
      using 3 surrogate_plain [of c] surrogate_plain [of d] by (simp add: parse_string_plain)
  next
    case False
    then have "escaped (c # d # s) = escape c @ escaped (d # s)" by auto
    then show ?thesis using 3(2) [OF False] by (simp only: append_assoc parse_string_escape) simp
  qed
qed

lemma foldl_digits:
  "foldl (\<lambda>n d. 10 * n + (unat d - 48)) 0 (xs @ [d]) = 10 * digits_value xs + (unat (d :: jchar) - 48)"
  by (simp add: digits_value_def)

lemma digits_value_decimal: "digits_value (decimal n) = n"
proof (induction n rule: decimal.induct)
  case (1 n)
  show ?case
  proof (cases "n < 10")
    case True
    then show ?thesis
      by (subst decimal.simps) (simp add: digits_value_def unat_digit del: of_nat_numeral)
  next
    case False
    then have "digits_value (decimal n) = 10 * digits_value (decimal (n div 10)) + n mod 10"
      using foldl_digits [of "decimal (n div 10)"] unat_digit [of "n mod 10"]
      by (subst decimal.simps) (simp add: digits_value_def)
    with 1 False show ?thesis by simp
  qed
qed

lemma decimal_lead: "0 < n \<Longrightarrow> hd (decimal n) \<noteq> 48"
proof (induction n rule: decimal.induct)
  case (1 n)
  show ?case
  proof (cases "n < 10")
    case True
    have "hd (decimal n) = 48 + of_nat n" using True by (subst decimal.simps) simp
    moreover have "unat (48 + of_nat n :: jchar) \<noteq> unat (48 :: jchar)"
      using unat_digit [OF True] 1 by simp
    ultimately show ?thesis by metis
  next
    case False
    then have "decimal n = decimal (n div 10) @ [48 + of_nat (n mod 10)]"
      by (subst decimal.simps) simp
    with 1 False show ?thesis by simp
  qed
qed

lemma natural_numeral_decimal: "natural_numeral (decimal n)"
proof -
  have "hd (decimal n) = 48 \<longrightarrow> length (decimal n) = 1"
  proof (cases "n = 0")
    case True
    then show ?thesis by (simp add: decimal.simps [of 0])
  next
    case False
    then show ?thesis using decimal_lead [of n] by simp
  qed
  then show ?thesis by (simp add: natural_numeral_def list_all_iff decimal_digits)
qed

lemma not_digit [simp]: "\<not> is_digit 45" "\<not> is_digit 34" "\<not> is_digit 91" "\<not> is_digit 123"
  "\<not> is_digit 110" "\<not> is_digit 116" "\<not> is_digit 102" "\<not> is_digit 93" "\<not> is_digit 125"
  "\<not> is_digit 32" "\<not> is_digit 9" "\<not> is_digit 10" "\<not> is_digit 13" "\<not> is_digit 44" "\<not> is_digit 58"
  by (simp_all add: is_digit_def)

lemma decimal_minus: "\<not> starts_with (decimal n) [45]"
  using decimal_digits [of 45 n] by (cases "decimal n") (auto simp: starts_with_def)

lemma parse_numeral_integer: "parse_numeral (integer_text n) = Some (JNum n)"
proof (cases "n < 0")
  case True
  have "\<not> natural_numeral (45 # decimal (nat (- n)))" by (simp add: natural_numeral_def)
  with True show ?thesis
    by (simp add: parse_numeral_def integer_text_def starts_with_def natural_numeral_decimal
        digits_value_decimal)
next
  case False
  then show ?thesis
    by (simp add: parse_numeral_def integer_text_def natural_numeral_decimal digits_value_decimal)
qed

lemma integer_text_chars: "c \<in> set (integer_text n) \<Longrightarrow> numeral_char c"
  using decimal_digits [of c] by (auto simp: integer_text_def numeral_char_def split: if_splits)

lemma real_not_integer:
  assumes "real_numeral t"
  shows "\<not> natural_numeral t" and "\<not> (starts_with t [45] \<and> natural_numeral (tl t))"
proof -
  have rest: "dropWhile is_digit (unsigned t) \<noteq> []" using assms by (simp add: real_numeral_def Let_def)
  show "\<not> natural_numeral t"
  proof
    assume n: "natural_numeral t"
    then have "unsigned t = t"
      by (cases t) (auto simp: natural_numeral_def unsigned_def starts_with_def)
    with n rest show False by (auto simp: natural_numeral_def list_all_iff)
  qed
  show "\<not> (starts_with t [45] \<and> natural_numeral (tl t))"
    using rest by (auto simp: natural_numeral_def list_all_iff unsigned_def)
qed

text \<open>The values a JavaScript program can hold: distinct keys, and numerals that are numerals.\<close>

fun json_ok :: "json \<Rightarrow> bool" where
  "json_ok (JReal t) = (real_numeral t \<and> list_all numeral_char t)"
| "json_ok (JArr vs) = list_all json_ok vs"
| "json_ok (JObj kvs) = (distinct (map fst kvs) \<and> list_all (\<lambda>(k, v). json_ok v) kvs)"
| "json_ok _ = True"

fun json_cost :: "json \<Rightarrow> nat" where
  "json_cost (JArr vs) = 1 + sum_list (map (\<lambda>v. 1 + json_cost v) vs)"
| "json_cost (JObj kvs) = 1 + sum_list (map (\<lambda>(k, v). 1 + json_cost v) kvs)"
| "json_cost _ = 1"

definition ends_numeral :: "jstring \<Rightarrow> bool" where
  "ends_numeral rest \<longleftrightarrow> rest = [] \<or> \<not> numeral_char (hd rest)"

lemma skip_ws_id: "\<not> is_ws c \<Longrightarrow> skip_ws (c # s) = c # s"
  by (simp add: skip_ws_def)

lemma not_ws [simp]: "\<not> is_ws 34" "\<not> is_ws 91" "\<not> is_ws 123" "\<not> is_ws 44" "\<not> is_ws 93" "\<not> is_ws 125"
  "\<not> is_ws 58" "\<not> is_ws 45" "\<not> is_ws 110" "\<not> is_ws 116" "\<not> is_ws 102"
  by (simp_all add: is_ws_def)

lemma digit_not: "is_digit c \<Longrightarrow> \<not> is_ws c \<and> c \<noteq> 34 \<and> c \<noteq> 91 \<and> c \<noteq> 123 \<and> c \<noteq> 110 \<and> c \<noteq> 116 \<and>
    c \<noteq> 102 \<and> c \<noteq> 93 \<and> c \<noteq> 125"
  by (auto simp: is_ws_def)

lemma numeral_run:
  assumes "list_all numeral_char t" and "ends_numeral rest"
  shows "takeWhile numeral_char (t @ rest) = t" and "dropWhile numeral_char (t @ rest) = rest"
  using assms by (auto simp: ends_numeral_def list_all_iff takeWhile_append dropWhile_append
      takeWhile_eq_Nil_iff dropWhile_eq_self_iff)

lemma parse_value_numeral:
  assumes "parse_numeral t = Some v" and "list_all numeral_char t" and "ends_numeral rest"
    and "t = c # t'" and "is_digit c \<or> c = 45"
  shows "parse_value (Suc n) (t @ rest) = Some (v, rest)"
proof -
  have c: "\<not> is_ws c" "c \<noteq> 34" "c \<noteq> 91" "c \<noteq> 123" "c \<noteq> 110" "c \<noteq> 116" "c \<noteq> 102"
    using assms(5) digit_not [of c] by auto
  then have "skip_ws (t @ rest) = c # t' @ rest" using assms(4) by (simp add: skip_ws_id)
  then show ?thesis
    using c assms(1) numeral_run [OF assms(2,3)] unfolding assms(4)
    by (simp add: starts_with_def)
qed


lemma stringify_lead:
  assumes "json_ok v"
  obtains c s where "stringify v = c # s" "\<not> is_ws c" "c \<noteq> 93" "c \<noteq> 125"
proof -
  have "\<exists>c s. stringify v = c # s \<and> \<not> is_ws c \<and> c \<noteq> 93 \<and> c \<noteq> 125"
  proof (cases v)
    case (JNum n)
    obtain d ds where d: "decimal (nat n) = d # ds" by (cases "decimal (nat n)") auto
    then have "is_digit d" using decimal_digits [of d "nat n"] by simp
    with d JNum show ?thesis using digit_not [of d] by (simp add: integer_text_def)
  next
    case (JReal t)
    with assms have "natural_numeral (takeWhile is_digit (unsigned t))"
      by (simp add: real_numeral_def Let_def)
    then obtain d ds where d: "unsigned t = d # ds" "is_digit d"
      by (cases "unsigned t") (auto simp: natural_numeral_def split: if_splits)
    then show ?thesis using JReal digit_not [of d]
      by (cases t) (auto simp: unsigned_def starts_with_def split: if_splits)
  qed (simp_all add: quoted_def)
  then show ?thesis using that by blast
qed

lemma ends_numeral_simps [simp]:
  "ends_numeral []" "ends_numeral (44 # s)" "ends_numeral (93 # s)" "ends_numeral (125 # s)"
  by (simp_all add: ends_numeral_def numeral_char_def)

lemma real_numeral_lead:
  assumes "real_numeral t"
  obtains c t' where "t = c # t'" "is_digit c \<or> c = 45"
proof -
  from assms have "natural_numeral (takeWhile is_digit (unsigned t))"
    by (simp add: real_numeral_def Let_def)
  then obtain d ds where "unsigned t = d # ds" "is_digit d"
    by (cases "unsigned t") (auto simp: natural_numeral_def split: if_splits)
  then show ?thesis using that by (cases t) (auto simp: unsigned_def starts_with_def split: if_splits)
qed

lemma integer_text_lead:
  obtains c t' where "integer_text n = c # t'" "is_digit c \<or> c = 45"
proof -
  obtain d ds where d: "decimal (nat n) = d # ds" by (cases "decimal (nat n)") auto
  then have "is_digit d" using decimal_digits [of d "nat n"] by simp
  with d that show ?thesis by (cases "n < 0") (auto simp: integer_text_def)
qed

text \<open>What \<open>parse_items\<close> and \<open>parse_members\<close> read of printed lists, given the values do.\<close>

definition reads_back :: "json \<Rightarrow> bool" where
  "reads_back v \<longleftrightarrow> (\<forall>n rest. json_cost v \<le> n \<longrightarrow> ends_numeral rest \<longrightarrow>
     parse_value n (stringify v @ rest) = Some (v, rest))"

lemma parse_items_printed:
  assumes "vs \<noteq> []" and "\<And>v. v \<in> set vs \<Longrightarrow> reads_back v"
    and "sum_list (map (\<lambda>v. 1 + json_cost v) vs) \<le> n"
  shows "parse_items n (join_with [44] (map stringify vs) @ 93 # rest) = Some (vs, rest)"
  using assms
proof (induction vs arbitrary: n)
  case (Cons v vs)
  then obtain m where n: "n = Suc m" by (cases n) auto
  have v: "parse_value m (stringify v @ r) = Some (v, r)" if "ends_numeral r" for r
    using Cons.prems(2) [of v] Cons.prems(3) that by (simp add: n reads_back_def)
  show ?case
  proof (cases "vs = []")
    case True
    then show ?thesis using v [of "93 # rest"] by (simp add: n skip_ws_id)
  next
    case False
    have "parse_items m (join_with [44] (map stringify vs) @ 93 # rest) = Some (vs, rest)"
      using Cons False by (simp add: n)
    then show ?thesis
      using False v [of "44 # join_with [44] (map stringify vs) @ 93 # rest"]
      by (simp add: n join_with_Cons skip_ws_id)
  qed
qed simp

definition print_member :: "jstring \<times> json \<Rightarrow> jstring" where
  "print_member kv = quoted (fst kv) @ 58 # stringify (snd kv)"

lemma parse_members_printed:
  assumes "kvs \<noteq> []" and "\<And>k v. (k, v) \<in> set kvs \<Longrightarrow> reads_back v"
    and "sum_list (map (\<lambda>(k, v). 1 + json_cost v) kvs) \<le> n"
  shows "parse_members n (join_with [44] (map print_member kvs) @ 125 # rest) = Some (kvs, rest)"
  using assms
proof (induction kvs arbitrary: n)
  case (Cons kv kvs)
  obtain k v where kv: "kv = (k, v)" by fastforce
  with Cons obtain m where n: "n = Suc m" by (cases n) auto
  have v: "parse_value m (stringify v @ r) = Some (v, r)" if "ends_numeral r" for r
    using Cons.prems(2) [of k v] Cons.prems(3) that by (simp add: n kv reads_back_def)
  have key: "print_member kv @ r = 34 # escaped k @ 34 # 58 # stringify v @ r" for r
    by (simp add: print_member_def kv quoted_def)
  show ?case
  proof (cases "kvs = []")
    case True
    then show ?thesis using v [of "125 # rest"] key [of "125 # rest"]
      by (simp add: n kv skip_ws_id parse_string_escaped)
  next
    case False
    let ?r = "44 # join_with [44] (map print_member kvs) @ 125 # rest"
    have "parse_members m (join_with [44] (map print_member kvs) @ 125 # rest) = Some (kvs, rest)"
      using Cons.prems(2,3) False by (intro Cons.IH) (auto simp: n kv)
    then show ?thesis
      using False v [of ?r] key [of ?r]
      by (simp add: n kv join_with_Cons skip_ws_id parse_string_escaped)
  qed
qed simp

lemma foldl_update_distinct:
  assumes "distinct (map fst (acc @ kvs))"
  shows "foldl (\<lambda>o' (k, v). AList.update k v o') acc kvs = acc @ kvs"
  using assms
proof (induction kvs arbitrary: acc)
  case (Cons kv kvs)
  obtain k v where kv: "kv = (k, v)" by fastforce
  then have "k \<notin> fst ` set acc" using Cons.prems by auto
  then have "AList.update k v acc = acc @ [(k, v)]"
    by (induction acc) auto
  with Cons kv show ?case by simp
qed simp

lemma reads_back_leaf:
  assumes "\<And>n rest. ends_numeral rest \<Longrightarrow> parse_value (Suc n) (stringify v @ rest) = Some (v, rest)"
    and "json_cost v = 1"
  shows "reads_back v"
  unfolding reads_back_def
proof (intro allI impI)
  fix n rest assume "json_cost v \<le> n" "ends_numeral rest"
  then show "parse_value n (stringify v @ rest) = Some (v, rest)"
    using assms by (cases n) auto
qed

lemma stringify_obj: "stringify (JObj kvs) = 123 # join_with [44] (map print_member kvs) @ [125]"
  by (simp add: print_member_def [abs_def] case_prod_beta')

lemma reads_back_arr:
  assumes "vs \<noteq> []" and "\<And>v. v \<in> set vs \<Longrightarrow> reads_back v \<and> json_ok v"
  shows "reads_back (JArr vs)"
  unfolding reads_back_def
proof (intro allI impI)
  fix n rest assume n: "json_cost (JArr vs) \<le> n"
  then obtain m where m: "n = Suc m" by (cases n) auto
  let ?t = "join_with [44] (map stringify vs) @ 93 # rest"
  obtain v vs' where vs: "vs = v # vs'" using assms(1) by (cases vs) auto
  obtain c s where lead: "stringify v = c # s" "\<not> is_ws c" "c \<noteq> 93"
    using assms(2) [of v] vs by (auto elim: stringify_lead)
  then obtain s' where "?t = c # s'" by (cases vs') (auto simp: vs)
  then have "\<not> starts_with (skip_ws ?t) [93]" using lead by (simp add: skip_ws_id starts_with_def)
  moreover have "parse_items m ?t = Some (vs, rest)"
    using assms n by (intro parse_items_printed) (auto simp: m)
  ultimately show "parse_value n (stringify (JArr vs) @ rest) = Some (JArr vs, rest)"
    by (simp add: m skip_ws_id)
qed

lemma reads_back_obj:
  assumes "kvs \<noteq> []" and "\<And>k v. (k, v) \<in> set kvs \<Longrightarrow> reads_back v" and "distinct (map fst kvs)"
  shows "reads_back (JObj kvs)"
  unfolding reads_back_def
proof (intro allI impI)
  fix n rest assume n: "json_cost (JObj kvs) \<le> n"
  then obtain m where m: "n = Suc m" by (cases n) auto
  let ?t = "join_with [44] (map print_member kvs) @ 125 # rest"
  obtain s' where "?t = 34 # s'"
    using assms(1) by (cases kvs; cases "tl kvs") (auto simp: print_member_def quoted_def)
  then have "\<not> starts_with (skip_ws ?t) [125]" by (simp add: skip_ws_id starts_with_def)
  moreover have "parse_members m ?t = Some (kvs, rest)"
    using assms n by (intro parse_members_printed) (auto simp: m)
  ultimately show "parse_value n (stringify (JObj kvs) @ rest) = Some (JObj kvs, rest)"
    using foldl_update_distinct [of "[]" kvs] assms(3)
    unfolding stringify_obj by (simp add: m skip_ws_id)
qed

lemma reads_back_all: "json_ok v \<Longrightarrow> reads_back v"
proof (induction v)
  case (JNum n)
  obtain c t' where "integer_text n = c # t'" "is_digit c \<or> c = 45" by (rule integer_text_lead)
  moreover have "list_all numeral_char (integer_text n)"
    by (simp add: list_all_iff integer_text_chars)
  ultimately show ?case
    using parse_value_numeral [OF parse_numeral_integer]
    by (intro reads_back_leaf) (simp_all del: parse_value.simps)
next
  case (JReal t)
  then have t: "real_numeral t" "list_all numeral_char t" by simp_all
  obtain c t' where "t = c # t'" "is_digit c \<or> c = 45" using real_numeral_lead [OF t(1)] by blast
  moreover have "parse_numeral t = Some (JReal t)"
    using real_not_integer [OF t(1)] t(1) unfolding parse_numeral_def by (simp only: if_False if_True)
  ultimately show ?case
    using parse_value_numeral [of t "JReal t"] t(2)
    by (intro reads_back_leaf) (simp_all del: parse_value.simps)
next
  case (JStr s)
  show ?case
    by (intro reads_back_leaf) (simp_all add: quoted_def skip_ws_id parse_string_escaped)
next
  case (JArr vs)
  show ?case
  proof (cases "vs = []")
    case True
    then show ?thesis by (intro reads_back_leaf) (simp_all add: skip_ws_id starts_with_def)
  next
    case False
    then show ?thesis using JArr by (intro reads_back_arr) (auto simp: list_all_iff)
  qed
next
  case (JObj kvs)
  have "reads_back v" if "(k, v) \<in> set kvs" for k v
    using JObj.IH [OF that] JObj.prems that by (auto simp: list_all_iff)
  note members = this
  show ?case
  proof (cases "kvs = []")
    case True
    then show ?thesis by (intro reads_back_leaf) (simp_all add: skip_ws_id starts_with_def)
  next
    case False
    then show ?thesis using JObj.prems members by (intro reads_back_obj) (auto simp: list_all_iff)
  qed
qed (auto intro!: reads_back_leaf simp: skip_ws_id starts_with_def)

lemma join_length:
  assumes "ps \<noteq> []"
  shows "length (join_with [c] ps) + 1 = sum_list (map (\<lambda>p. length p + 1) ps)"
  using assms by (induction "[c]" ps rule: join_with.induct) auto

lemma sum_le: "(\<And>x. x \<in> set xs \<Longrightarrow> f x \<le> g x) \<Longrightarrow> sum_list (map f xs) \<le> (sum_list (map g xs) :: nat)"
  by (induction xs) (auto intro: add_mono)

lemma json_cost_bound: "json_ok v \<Longrightarrow> json_cost v \<le> 2 * length (stringify v)"
proof (induction v)
  case (JReal t)
  then show ?case using real_numeral_lead [of t] by (cases t) auto
next
  case (JNum n)
  show ?case by (rule integer_text_lead [of n]) simp
next
  case (JArr vs)
  show ?case
  proof (cases "vs = []")
    case False
    have "sum_list (map (\<lambda>v. 1 + json_cost v) vs) \<le> sum_list (map (\<lambda>v. 2 * (length (stringify v) + 1)) vs)"
      using JArr by (intro sum_le) (fastforce simp: list_all_iff)
    also have "\<dots> = 2 * sum_list (map (\<lambda>p. length p + 1) (map stringify vs))"
      by (induction vs) simp_all
    also have "\<dots> = 2 * (length (join_with [44] (map stringify vs)) + 1)"
      using join_length [of "map stringify vs" 44] False by simp
    finally show ?thesis by simp
  qed simp
next
  case (JObj kvs)
  show ?case
  proof (cases "kvs = []")
    case False
    have "sum_list (map (\<lambda>(k, v). 1 + json_cost v) kvs) \<le> sum_list (map (\<lambda>kv. 2 * (length (print_member kv) + 1)) kvs)"
      using JObj by (intro sum_le) (fastforce simp: list_all_iff print_member_def)
    also have "\<dots> = 2 * sum_list (map (\<lambda>p. length p + 1) (map print_member kvs))"
      by (induction kvs) simp_all
    also have "\<dots> = 2 * (length (join_with [44] (map print_member kvs)) + 1)"
      using join_length [of "map print_member kvs" 44] False by simp
    finally show ?thesis unfolding stringify_obj by simp
  qed simp
qed (auto simp: quoted_def)

lemma parse_stringify: "json_ok v \<Longrightarrow> parse_json (stringify v) = Some v"
  using reads_back_all [of v] json_cost_bound [of v]
  by (auto simp: parse_json_def reads_back_def skip_ws_def dest!: spec [of _ "2 * length (stringify v) + 2"] spec [of _ "[]"])


text \<open>Printed text holds no control character, so it is one line and holds no NUL.\<close>

definition printable :: "jstring \<Rightarrow> bool" where
  "printable s \<longleftrightarrow> list_all (\<lambda>c. 32 \<le> c) s"

lemma printable_simps [simp]:
  "printable []" "printable (c # s) \<longleftrightarrow> 32 \<le> c \<and> printable s"
  "printable (s @ t) \<longleftrightarrow> printable s \<and> printable t"
  by (simp_all add: printable_def)

lemma printable_join: "printable sep \<Longrightarrow> list_all printable ps \<Longrightarrow> printable (join_with sep ps)"
  by (induction sep ps rule: join_with.induct) auto

lemma hex_digit_printable: "d < 16 \<Longrightarrow> 32 \<le> hex_digit d"
proof -
  have "list_all (\<lambda>d. 32 \<le> hex_digit d) [0..<16]" by code_simp
  then show "d < 16 \<Longrightarrow> ?thesis" by (simp add: list_all_iff)
qed

lemma printable_escape: "printable (escape c)"
  by (auto simp: escape_def hex4_def Let_def hex_digit_printable not_less)

lemma printable_escaped: "printable (escaped s)"
proof (induction s rule: escaped.induct)
  case (3 c d s)
  then show ?case
    using surrogate_plain [of c] surrogate_plain [of d] printable_escape [of c]
    by (cases "is_high c \<and> is_low d") (auto simp: not_less)
qed (simp_all add: printable_escape)

lemma digit_printable: "is_digit c \<Longrightarrow> 32 \<le> c"
  unfolding is_digit_def by (rule order_trans [of _ 48]) simp_all

lemma printable_integer: "printable (integer_text n)"
  using decimal_digits digit_printable
  by (auto simp: integer_text_def printable_def list_all_iff)

lemma printable_stringify: "json_ok v \<Longrightarrow> printable (stringify v)"
proof (induction v)
  case (JReal t)
  have "numeral_char c \<Longrightarrow> 32 \<le> c" for c
    using digit_printable [of c] by (auto simp: numeral_char_def)
  with JReal show ?case by (auto simp: printable_def list_all_iff)
next
  case (JArr vs)
  then have "list_all printable (map stringify vs)" by (auto simp: list_all_iff)
  then show ?case by (simp add: printable_join)
next
  case (JObj kvs)
  then have "list_all printable (map print_member kvs)"
    by (fastforce simp: list_all_iff print_member_def quoted_def printable_escaped)
  then show ?case unfolding stringify_obj by (simp add: printable_join)
qed (auto simp: quoted_def printable_escaped printable_integer)

lemma printable_no: "printable s \<Longrightarrow> c < 32 \<Longrightarrow> c \<notin> set s"
  by (auto simp: printable_def list_all_iff dest: leD)

section \<open>What parsing gives\<close>

lemma map_option_pair_Some:
  "map_option (\<lambda>(a, b). (f a, b)) x = Some (v, r) \<longleftrightarrow> (\<exists>a. x = Some (a, r) \<and> v = f a)"
  by (cases x) auto

lemma foldl_update_ok:
  "distinct (map fst acc) \<Longrightarrow> list_all (\<lambda>(k, v). json_ok v) acc \<Longrightarrow> list_all (\<lambda>(k, v). json_ok v) kvs \<Longrightarrow>
     distinct (map fst (foldl (\<lambda>o' (k, v). AList.update k v o') acc kvs)) \<and>
     list_all (\<lambda>(k, v). json_ok v) (foldl (\<lambda>o' (k, v). AList.update k v o') acc kvs)"
proof (induction kvs arbitrary: acc)
  case (Cons kv kvs)
  obtain k v where kv: "kv = (k, v)" by fastforce
  have "set (AList.update k v acc) \<subseteq> insert (k, v) (set acc)"
    by (induction acc) auto
  then have "list_all (\<lambda>(k, v). json_ok v) (AList.update k v acc)"
    using Cons.prems kv by (auto simp: list_all_iff)
  with Cons kv show ?case by (simp add: AList.distinct_update)
qed simp

lemma json_ok_members:
  "list_all (\<lambda>(k, v). json_ok v) kvs \<Longrightarrow> json_ok (JObj (foldl (\<lambda>o' (k, v). AList.update k v o') [] kvs))"
  using foldl_update_ok [of "[]" kvs] by simp

lemma parse_numeral_ok: "parse_numeral t = Some v \<Longrightarrow> list_all numeral_char t \<Longrightarrow> json_ok v"
  by (auto simp: parse_numeral_def split: if_splits)

lemma list_all_takeWhile [simp]: "list_all P (takeWhile P xs)"
  by (auto simp: list_all_iff dest: set_takeWhileD)

lemma parse_ok:
  "parse_value n s = Some (v, r) \<Longrightarrow> json_ok v"
  "parse_items n s = Some (vs, r) \<Longrightarrow> list_all json_ok vs"
  "parse_members n s = Some (kvs, r) \<Longrightarrow> list_all (\<lambda>(k, v). json_ok v) kvs"
proof (induction n s and n s and n s arbitrary: v r and vs r and kvs r rule: parse_value_parse_items_parse_members.induct)
  case (2 n s)
  show ?case
  proof (cases "skip_ws s")
    case Nil
    then show ?thesis using "2.prems" by simp
  next
    case (Cons c s')
    note IH = "2.IH" [OF Cons]
    consider "c = 34" | "c = 91" | "c = 123" | "c \<notin> {34, 91, 123}" by blast
    then show ?thesis
    proof cases
      case 3
      then show ?thesis
        using "2.prems" Cons IH(2) json_ok_members
        by (auto simp: map_option_pair_Some simp del: json_ok.simps(3) split: if_splits)
          (simp del: foldl_Cons)
    qed (use "2.prems" Cons IH(1) in \<open>auto simp: map_option_pair_Some split: if_splits dest!: parse_numeral_ok\<close>)
  qed
next
  case (4 n s)
  show ?case using "4.prems" "4.IH"
    by (auto simp: map_option_pair_Some split: option.splits list.splits if_splits)
next
  case (6 n s)
  show ?case using "6.prems" "6.IH"
    by (auto simp: map_option_pair_Some split: option.splits list.splits if_splits)
qed simp_all

lemma parse_json_ok: "parse_json s = Some v \<Longrightarrow> json_ok v"
  by (auto simp: parse_json_def simp del: parse_value.simps split: option.splits prod.splits if_splits dest: parse_ok)

end
