(* ===== verification/Encoding.thy ===== *)
theory Encoding
  imports Json
begin

text \<open>
  Text as bytes and numbers as text: \<open>TextEncoder\<close>, \<open>Number(text)\<close>, \<open>trim\<close>, and the CRC-32 of
  \<open>client/src/core/crc32.ts\<close> that journal records and pairing strings carry.
\<close>

section \<open>UTF-8\<close>

definition encode_unit :: "jchar \<Rightarrow> bytes" where
  "encode_unit c =
     (if c < 0x80 then [ucast c]
      else if c < 0x800 then [0xc0 OR ucast (drop_bit 6 c), 0x80 OR ucast (c AND 0x3f)]
      else if is_high c \<or> is_low c then [0xef, 0xbf, 0xbd]
      else [0xe0 OR ucast (drop_bit 12 c), 0x80 OR ucast (drop_bit 6 c AND 0x3f), 0x80 OR ucast (c AND 0x3f)])"

definition encode_pair :: "jchar \<Rightarrow> jchar \<Rightarrow> bytes" where
  "encode_pair c d =
     (let p = 0x10000 + push_bit 10 (ucast (c AND 0x3ff)) + ucast (d AND 0x3ff) :: 32 word
      in [0xf0 OR ucast (drop_bit 18 p), 0x80 OR ucast (drop_bit 12 p AND 0x3f),
          0x80 OR ucast (drop_bit 6 p AND 0x3f), 0x80 OR ucast (p AND 0x3f)])"

text \<open>\<open>new TextEncoder().encode(s)\<close>; a surrogate alone becomes U+FFFD.\<close>

fun utf8_encode :: "jstring \<Rightarrow> bytes" where
  "utf8_encode [] = []"
| "utf8_encode [c] = encode_unit c"
| "utf8_encode (c # d # s) =
     (if is_high c \<and> is_low d then encode_pair c d @ utf8_encode s
      else encode_unit c @ utf8_encode (d # s))"

definition byteLength :: "jstring \<Rightarrow> nat" where
  "byteLength s = length (utf8_encode s)"

lemma encode_unit_ascii: "c < 0x80 \<Longrightarrow> encode_unit c = [ucast c]"
  by (simp add: encode_unit_def)

lemma ascii_no_pair: "c < 0x80 \<Longrightarrow> \<not> is_high c"
  by (auto simp: is_high_def dest: order_le_less_trans)

lemma utf8_encode_ascii: "c < 0x80 \<Longrightarrow> utf8_encode (c # s) = ucast c # utf8_encode s"
  by (cases s) (simp_all add: encode_unit_ascii ascii_no_pair)

lemma utf8_encode_append_ascii:
  "c < 0x80 \<Longrightarrow> utf8_encode (s @ c # t) = utf8_encode s @ utf8_encode (c # t)"
proof (induction s rule: utf8_encode.induct)
  case (2 d)
  then have "\<not> is_low c" by (auto simp: is_low_def dest: order_le_less_trans)
  then show ?case by simp
qed auto

section \<open>Numbers out of text\<close>

definition js_space :: "jchar \<Rightarrow> bool" where
  "js_space c \<longleftrightarrow> c \<in> {9, 10, 11, 12, 13, 32, 0xa0, 0x1680, 0x2028, 0x2029, 0x202f, 0x205f, 0x3000, 0xfeff}
     \<or> 0x2000 \<le> c \<and> c \<le> 0x200a"

definition js_trim :: "jstring \<Rightarrow> jstring" where
  "js_trim s = rev (dropWhile js_space (rev (dropWhile js_space s)))"

text \<open>The value of digits in a base, when all are digits of it and there is one.\<close>

definition digits_in :: "nat \<Rightarrow> jstring \<Rightarrow> nat option" where
  "digits_in base ds =
     (if ds \<noteq> [] \<and> list_all (\<lambda>c. case hex_value c of Some d \<Rightarrow> d < base | None \<Rightarrow> False) ds
      then Some (foldl (\<lambda>n c. base * n + the (hex_value c)) 0 ds) else None)"

text \<open>
  \<open>Number(s)\<close> where it is a number, before rounding to a double: an optional sign, digits with an
  optional fraction and exponent, or a prefixed integer. The empty text is 0.
\<close>

definition unsigned_decimal :: "jstring \<Rightarrow> rat option" where
  "unsigned_decimal t =
     (let whole = takeWhile is_digit t; r = dropWhile is_digit t;
          dotted = starts_with r [dot];
          frac = (if dotted then takeWhile is_digit (tl r) else []);
          r' = (if dotted then dropWhile is_digit (tl r) else r);
          mantissa = of_nat (digits_value (whole @ frac)) / 10 ^ length frac
      in if whole @ frac = [] then None
         else if r' = [] then Some mantissa
         else if hd r' = 101 \<or> hd r' = 69 then
           (let e = tl r'; ds = (if starts_with e [43] \<or> starts_with e [45] then tl e else e)
            in if ds = [] \<or> \<not> list_all is_digit ds then None
               else if starts_with e [45] then Some (mantissa / 10 ^ digits_value ds)
               else Some (mantissa * 10 ^ digits_value ds))
         else None)"

definition js_number :: "jstring \<Rightarrow> rat option" where
  "js_number s =
     (let t = js_trim s; pre = map ascii_lower (take 2 t) in
      if t = [] then Some 0
      else if pre = [48, 120] then map_option of_nat (digits_in 16 (drop 2 t))
      else if pre = [48, 111] then map_option of_nat (digits_in 8 (drop 2 t))
      else if pre = [48, 98] then map_option of_nat (digits_in 2 (drop 2 t))
      else if starts_with t [45] then map_option uminus (unsigned_decimal (tl t))
      else if starts_with t [43] then unsigned_decimal (tl t)
      else unsigned_decimal t)"

definition MAX_SAFE :: int where
  "MAX_SAFE = 9007199254740991"

text \<open>\<open>Number.isSafeInteger\<close>, with the integer when it is one.\<close>

definition safe_integer :: "rat option \<Rightarrow> int option" where
  "safe_integer r =
     (case r of None \<Rightarrow> None
      | Some q \<Rightarrow> if of_int \<lfloor>q\<rfloor> = q \<and> \<bar>\<lfloor>q\<rfloor>\<bar> \<le> MAX_SAFE then Some \<lfloor>q\<rfloor> else None)"

lemma digit_not_space: "is_digit c \<Longrightarrow> \<not> js_space c"
proof
  assume d: "is_digit c" and s: "js_space c"
  from d have "c \<le> 57" "48 \<le> c" by (auto simp: is_digit_def)
  then show False
    using s by (auto simp: js_space_def dest: order_trans [of _ c])
qed

lemma js_trim_digits: "list_all is_digit ds \<Longrightarrow> js_trim ds = ds"
proof -
  have id: "list_all is_digit xs \<Longrightarrow> dropWhile js_space xs = xs" for xs
    by (cases xs) (auto simp: digit_not_space)
  assume "list_all is_digit ds"
  then show ?thesis by (simp add: js_trim_def id)
qed

lemma ascii_lower_digit: "is_digit c \<Longrightarrow> ascii_lower c = c"
proof -
  assume "is_digit c"
  then have "c \<le> 57" by (simp add: is_digit_def)
  then have "\<not> 65 \<le> c" using order_trans [of 65 c 57] by auto
  then show ?thesis by (simp add: ascii_lower_def)
qed

lemma unsigned_decimal_digits:
  assumes "list_all is_digit ds" and "ds \<noteq> []"
  shows "unsigned_decimal ds = Some (of_nat (digits_value ds))"
proof -
  have run: "takeWhile is_digit ds = ds" "dropWhile is_digit ds = []"
    using assms(1) by (simp_all add: list_all_iff takeWhile_eq_all_conv)
  show ?thesis
    unfolding unsigned_decimal_def Let_def run using assms(2) by (simp add: starts_with_def)
qed

lemma js_number_digits:
  assumes ds: "list_all is_digit ds" and ne: "ds \<noteq> []"
  shows "js_number ds = Some (of_nat (digits_value ds))"
proof -
  have mem: "c \<notin> set ds" if "\<not> is_digit c" for c using ds that by (auto simp: list_all_iff)
  have low: "map ascii_lower (take 2 ds) = take 2 ds"
    using ds by (intro map_idI) (auto simp: list_all_iff ascii_lower_digit dest: in_set_takeD)
  have pre: "map ascii_lower (take 2 ds) \<noteq> [48, c]" if "\<not> is_digit c" for c
  proof
    assume "map ascii_lower (take 2 ds) = [48, c]"
    then have "c \<in> set (take 2 ds)" unfolding low by simp
    then show False using mem [OF that] by (blast dest: in_set_takeD)
  qed
  have sign: "\<not> starts_with ds [c]" if "\<not> is_digit c" for c
    using mem [OF that] ne by (cases ds) (auto simp: starts_with_def)
  have not: "\<not> is_digit 120" "\<not> is_digit 111" "\<not> is_digit 98" "\<not> is_digit 45" "\<not> is_digit 43"
    by (simp_all add: is_digit_def)
  show ?thesis
    unfolding js_number_def Let_def js_trim_digits [OF ds]
    by (simp only: ne pre [OF not(1)] pre [OF not(2)] pre [OF not(3)] sign [OF not(4)]
        sign [OF not(5)] if_False unsigned_decimal_digits [OF ds ne])
qed

lemma js_number_decimal: "js_number (decimal n) = Some (of_nat n)"
  by (subst js_number_digits) (simp_all add: list_all_iff decimal_digits digits_value_decimal)

section \<open>CRC-32\<close>

definition crc_bit :: "32 word \<Rightarrow> 32 word" where
  "crc_bit crc = (if crc AND 1 = 1 then drop_bit 1 crc XOR 0xedb88320 else drop_bit 1 crc)"

definition crc_byte :: "32 word \<Rightarrow> byte \<Rightarrow> 32 word" where
  "crc_byte crc b = (crc_bit ^^ 8) (crc XOR ucast b)"

definition crc32 :: "bytes \<Rightarrow> 32 word" where
  "crc32 bs = foldl crc_byte 0xffffffff bs XOR 0xffffffff"

definition crc32Bytes :: "bytes \<Rightarrow> bytes" where
  "crc32Bytes bs =
     (let crc = crc32 bs in
      [ucast (drop_bit 24 crc AND 0xff), ucast (drop_bit 16 crc AND 0xff),
       ucast (drop_bit 8 crc AND 0xff), ucast (crc AND 0xff)])"

text \<open>\<open>n.toString(16).padStart(8, "0")\<close>.\<close>

definition hex8 :: "32 word \<Rightarrow> jstring" where
  "hex8 w = map (\<lambda>i. hex_digit (unat w div 16 ^ i mod 16)) [7, 6, 5, 4, 3, 2, 1, 0]"

text \<open>The register is never squeezed: a step can be undone, since the polynomial's top bit tells which
  branch it took.\<close>

lemma xor_cancel: "a XOR k = b XOR k \<longleftrightarrow> a = b" for a b k :: "'a :: len word"
  by (metis xor.assoc xor.right_neutral xor_self_eq)

lemma crc_bit_inj: "inj crc_bit"
proof (rule injI)
  fix a b assume eq: "crc_bit a = crc_bit b"
  have top: "bit (crc_bit w) 31 \<longleftrightarrow> w AND 1 = 1" for w
  proof -
    have "\<not> bit w 32" using bit_imp_le_length [of w 32] by auto
    then show ?thesis by (simp add: crc_bit_def bit_simps)
  qed
  have par: "a AND 1 = 1 \<longleftrightarrow> b AND 1 = 1" using top [of a] top [of b] eq by simp
  have "drop_bit 1 a = drop_bit 1 b"
  proof (cases "a AND 1 = 1")
    case True
    then have "b AND 1 = 1" using par by blast
    with True show ?thesis using eq unfolding crc_bit_def by (simp only: if_True xor_cancel simp_thms)
  next
    case False
    then have "b AND 1 \<noteq> 1" using par by blast
    with False show ?thesis using eq unfolding crc_bit_def by (simp only: if_False simp_thms)
  qed
  then have "a div 2 = b div 2" by (simp add: drop_bit_eq_div)
  moreover have "a mod 2 = b mod 2"
    using par by (simp add: and_one_eq) (metis mod_2_eq_odd of_bool_eq_iff parity_cases)
  ultimately show "a = b" by (metis div_mult_mod_eq)
qed

lemma ucast_byte: "(ucast (ucast b :: 32 word) :: byte) = b"
  by (rule bit_word_eqI) (simp add: bit_simps)

lemma crc_byte_inj: "crc_byte a x = crc_byte b x \<Longrightarrow> a = b"
  and crc_byte_inj2: "crc_byte a x = crc_byte a y \<Longrightarrow> x = y"
proof -
  have inj: "inj (crc_bit ^^ 8)" by (rule inj_fn [OF crc_bit_inj])
  {
    assume "crc_byte a x = crc_byte b x"
    then have "a XOR ucast x = b XOR ucast x" using inj by (simp only: crc_byte_def inj_eq)
    then show "a = b" by (simp only: xor_cancel)
  }
  assume "crc_byte a x = crc_byte a y"
  then have "a XOR ucast x = a XOR ucast y" using inj by (simp only: crc_byte_def inj_eq)
  then have "a XOR (a XOR ucast x) = a XOR (a XOR ucast y)" by simp
  then have "(ucast x :: 32 word) = ucast y"
    by (simp only: xor.assoc [symmetric] xor_self_eq xor.left_neutral)
  then show "x = y" by (metis ucast_byte)
qed

lemma crc_foldl_inj: "foldl crc_byte a bs = foldl crc_byte b bs \<Longrightarrow> a = b"
  by (induction bs arbitrary: a b) (auto dest: crc_byte_inj)

lemma crc32_one_byte:
  assumes "crc32 (p @ x # s) = crc32 (p @ y # s)"
  shows "x = y"
proof -
  let ?a = "foldl crc_byte 0xffffffff p"
  have "foldl crc_byte (crc_byte ?a x) s XOR 0xffffffff = foldl crc_byte (crc_byte ?a y) s XOR 0xffffffff"
    using assms by (simp only: crc32_def foldl_append foldl_Cons)
  then have "foldl crc_byte (crc_byte ?a x) s = foldl crc_byte (crc_byte ?a y) s"
    by (simp only: xor_cancel)
  then show "x = y" by (metis crc_foldl_inj crc_byte_inj2)
qed

lemma length_hex8 [simp]: "length (hex8 w) = 8"
  by (simp add: hex8_def)

lemma hex_digit_inj: "d < 16 \<Longrightarrow> e < 16 \<Longrightarrow> hex_digit d = hex_digit e \<Longrightarrow> d = e"
  using hex_value_digit by (metis option.inject)

lemma base16_inj:
  assumes "(a :: nat) < 16 ^ n" and "b < 16 ^ n"
    and "\<And>i. i < n \<Longrightarrow> a div 16 ^ i mod 16 = b div 16 ^ i mod 16"
  shows "a = b"
  using assms
proof (induction n arbitrary: a b)
  case (Suc n)
  have "a div 16 = b div 16"
  proof (rule Suc.IH)
    show "a div 16 < 16 ^ n" "b div 16 < 16 ^ n" using Suc.prems(1,2) by (simp_all add: less_mult_imp_div_less mult.commute)
    fix i assume "i < n"
    then show "a div 16 div 16 ^ i mod 16 = b div 16 div 16 ^ i mod 16"
      using Suc.prems(3) [of "Suc i"] by (simp add: div_mult2_eq)
  qed
  moreover have "a mod 16 = b mod 16" using Suc.prems(3) [of 0] by simp
  ultimately show ?case by (metis div_mult_mod_eq)
qed simp

lemma hex8_inj: "hex8 v = hex8 w \<Longrightarrow> v = w"
proof -
  assume eq: "hex8 v = hex8 w"
  have digit: "unat v div 16 ^ i mod 16 = unat w div 16 ^ i mod 16" if "i \<in> set [7, 6, 5, 4, 3, 2, 1, 0 :: nat]" for i
  proof (rule hex_digit_inj)
    show "hex_digit (unat v div 16 ^ i mod 16) = hex_digit (unat w div 16 ^ i mod 16)"
      using eq that unfolding hex8_def map_eq_conv by blast
  qed simp_all
  have small: "unat x < 16 ^ 8" for x :: "32 word"
    using unsigned_less [of x, where 'a = nat] by simp
  have "unat v = unat w"
  proof (rule base16_inj [OF small small])
    fix i :: nat assume "i < 8"
    then have "i = 7 \<or> i = 6 \<or> i = 5 \<or> i = 4 \<or> i = 3 \<or> i = 2 \<or> i = 1 \<or> i = 0" by linarith
    then have "i \<in> set [7, 6, 5, 4, 3, 2, 1, 0 :: nat]" by auto
    then show "unat v div 16 ^ i mod 16 = unat w div 16 ^ i mod 16" by (rule digit)
  qed
  then show "v = w" by (rule unsigned_word_eqI)
qed

end
