(* ===== verification/Index_Journal.thy ===== *)
theory Index_Journal
  imports Encoding
begin

text \<open>
  \<open>client/src/core/index-journal.ts\<close>: the index as a snapshot and a journal of what changed since.
  The line codec, the replay of a log over a snapshot, and the comparison that finds what a pass
  changed.

  A state is JSON; a path map is an object, whose order of keys means nothing here (\<open>same_map\<close>).
\<close>

section \<open>JavaScript's view of a JSON value\<close>

text \<open>\<open>v.key\<close>: \<open>None\<close> for undefined. Only objects have the properties read here.\<close>

definition field :: "json \<Rightarrow> jstring \<Rightarrow> json option" where
  "field v key = (case v of JObj kvs \<Rightarrow> map_of kvs key | _ \<Rightarrow> None)"

fun indexed :: "nat \<Rightarrow> json list \<Rightarrow> obj" where
  "indexed i [] = []"
| "indexed i (v # vs) = (decimal i, v) # indexed (i + 1) vs"

text \<open>Own enumerable properties of a value, as \<open>Object.entries(x ?? {})\<close> and \<open>Object.assign\<close> read them.\<close>

definition entries_of :: "json option \<Rightarrow> obj" where
  "entries_of v =
     (case v of
        Some (JObj kvs) \<Rightarrow> kvs
      | Some (JArr vs) \<Rightarrow> indexed 0 vs
      | Some (JStr s) \<Rightarrow> indexed 0 (map (\<lambda>c. JStr [c]) s)
      | _ \<Rightarrow> [])"

text \<open>A string iterates by code points.\<close>

fun code_points :: "jstring \<Rightarrow> json list" where
  "code_points [] = []"
| "code_points [c] = [JStr [c]]"
| "code_points (c # d # s) =
     (if is_high c \<and> is_low d then JStr [c, d] # code_points s else JStr [c] # code_points (d # s))"

text \<open>What \<open>for (const x of v)\<close> and \<open>[...v]\<close> go through; \<open>None\<close> is the TypeError.\<close>

definition iterate :: "json \<Rightarrow> json list option" where
  "iterate v =
     (case v of JArr vs \<Rightarrow> Some vs | JStr s \<Rightarrow> Some (code_points s) | _ \<Rightarrow> None)"

definition iterate_or_empty :: "json option \<Rightarrow> json list option" where
  "iterate_or_empty v = (case v of None \<Rightarrow> Some [] | Some JNull \<Rightarrow> Some [] | Some w \<Rightarrow> iterate w)"

text \<open>A value used as a property key is made a string.\<close>

fun property_key :: "json \<Rightarrow> jstring" where
  "property_key JNull = lit ''null''"
| "property_key (JBool b) = (if b then lit ''true'' else lit ''false'')"
| "property_key (JNum n) = integer_text n"
| "property_key (JReal t) = t"
| "property_key (JStr s) = s"
| "property_key (JArr vs) = join_with [44] (map (\<lambda>v. if v = JNull then [] else property_key v) vs)"
| "property_key (JObj kvs) = lit ''[object Object]''"

section \<open>Records as lines\<close>

datatype why = End_of_log | Torn | Checksum | Unparsable | Out_of_order int | Gap int int

text \<open>\<open>encodeRecord\<close> throws on a sequence that is not a positive safe integer.\<close>

definition encodeRecord :: "int \<Rightarrow> json \<Rightarrow> jstring option" where
  "encodeRecord seq delta =
     (if \<bar>seq\<bar> > MAX_SAFE \<or> seq < 1 then None
      else let text = stringify delta; sum = hex8 (crc32 (utf8_encode text))
           in Some (integer_text seq @ [32] @ sum @ [32] @ text @ [newline]))"

definition is_lower_hex :: "jchar \<Rightarrow> bool" where
  "is_lower_hex c \<longleftrightarrow> is_digit c \<or> 97 \<le> c \<and> c \<le> 102"

definition decodeRecord :: "jstring \<Rightarrow> why + int \<times> json" where
  "decodeRecord line =
     (if 0 \<in> set line then Inl Torn
      else
        let firstGap = index_of line 32;
            after = drop (nat (firstGap + 1)) line;
            secondGap = index_of after 32
        in if firstGap < 1 \<or> secondGap < 0 then Inl Unparsable
           else case safe_integer (js_number (take (nat firstGap) line)) of
             None \<Rightarrow> Inl Unparsable
           | Some seq \<Rightarrow>
               if seq < 1 then Inl Unparsable
               else
                 let sum = take (nat secondGap) after; text = drop (nat secondGap + 1) after
                 in if \<not> (length sum = 8 \<and> list_all is_lower_hex sum) then Inl Unparsable
                    else if hex8 (crc32 (utf8_encode text)) \<noteq> sum then Inl Checksum
                    else case parse_json text of
                      Some (JObj kvs) \<Rightarrow> Inr (seq, JObj kvs)
                    | _ \<Rightarrow> Inl Unparsable)"

section \<open>Folding deltas into a state\<close>

record fold_state =
  fo_cursor :: "json option"
  fo_entries :: obj
  fo_remote :: obj
  fo_pending :: "json option"

definition copyOf :: "json \<Rightarrow> fold_state" where
  "copyOf state = \<lparr>fo_cursor = field state (lit ''cursor''),
     fo_entries = entries_of (field state (lit ''entries'')),
     fo_remote = entries_of (field state (lit ''remote'')),
     fo_pending = field state (lit ''pending'')\<rparr>"

text \<open>The working copy handed back as a state: an undefined property is one that is not there.\<close>

definition state_of :: "fold_state \<Rightarrow> json" where
  "state_of w = JObj
     ((case fo_cursor w of Some v \<Rightarrow> [(lit ''cursor'', v)] | None \<Rightarrow> []) @
      [(lit ''entries'', JObj (fo_entries w)), (lit ''remote'', JObj (fo_remote w))] @
      (case fo_pending w of Some v \<Rightarrow> [(lit ''pending'', v)] | None \<Rightarrow> []))"

definition assign_all :: "obj \<Rightarrow> obj \<Rightarrow> obj" where
  "assign_all kvs o' = foldl (\<lambda>o'' (k, v). AList.update k v o'') o' kvs"

definition delete_all :: "json list \<Rightarrow> obj \<Rightarrow> obj" where
  "delete_all ks o' = foldl (\<lambda>o'' k. AList.delete (property_key k) o'') o' ks"

definition foldInto :: "fold_state \<Rightarrow> json \<Rightarrow> fold_state option" where
  "foldInto work delta =
     (case (iterate_or_empty (field delta (lit ''del'')), iterate_or_empty (field delta (lit ''unremote'')),
            (case field delta (lit ''pending'') of
               None \<Rightarrow> Some (fo_pending work)
             | Some v \<Rightarrow> map_option (\<lambda>vs. Some (JArr vs)) (iterate v))) of
        (Some del, Some unremote, Some pending) \<Rightarrow>
          Some \<lparr>fo_cursor = (case field delta (lit ''cursor'') of None \<Rightarrow> fo_cursor work | Some c \<Rightarrow> Some c),
            fo_entries = delete_all del (assign_all (entries_of (field delta (lit ''set''))) (fo_entries work)),
            fo_remote = delete_all unremote (assign_all (entries_of (field delta (lit ''remote''))) (fo_remote work)),
            fo_pending = pending\<rparr>
      | _ \<Rightarrow> None)"

definition applyDelta :: "json \<Rightarrow> json \<Rightarrow> json option" where
  "applyDelta state delta = map_option state_of (foldInto (copyOf state) delta)"

section \<open>Replay\<close>

record replay_run =
  rr_seq :: int
  rr_applied :: nat
  rr_work :: "fold_state option"
  rr_firstKept :: bool
  rr_stopped :: "(why \<times> nat) option"

text \<open>The loop over the complete lines; \<open>None\<close> is a record whose body made \<open>foldInto\<close> throw.\<close>

fun replay_lines ::
  "json \<Rightarrow> int \<Rightarrow> replay_run \<Rightarrow> nat \<Rightarrow> jstring list \<Rightarrow> replay_run option" where
  "replay_lines base from r i [] = Some r"
| "replay_lines base from r i (line # lines) =
     (if line = [] then Some (r\<lparr>rr_stopped := Some (Torn, i)\<rparr>)
      else case decodeRecord line of
        Inl w \<Rightarrow> Some (r\<lparr>rr_stopped := Some (w, i)\<rparr>)
      | Inr (seq, delta) \<Rightarrow>
          if seq \<le> from then replay_lines base from r (i + 1) lines
          else if seq \<le> rr_seq r then Some (r\<lparr>rr_stopped := Some (Out_of_order seq, i)\<rparr>)
          else if rr_firstKept r \<and> seq \<noteq> from + 1 then Some (r\<lparr>rr_stopped := Some (Gap seq from, i)\<rparr>)
          else case foldInto (case rr_work r of None \<Rightarrow> copyOf base | Some w \<Rightarrow> w) delta of
            None \<Rightarrow> None
          | Some w \<Rightarrow> replay_lines base from
              \<lparr>rr_seq = seq, rr_applied = rr_applied r + 1, rr_work = Some w,
               rr_firstKept = False, rr_stopped = None\<rparr> (i + 1) lines)"

record replayed =
  rp_state :: json
  rp_seq :: int
  rp_applied :: nat
  rp_stopped :: "(why \<times> nat) option"

definition replay :: "json \<Rightarrow> int \<Rightarrow> jstring \<Rightarrow> replayed option" where
  "replay base from logText =
     (let lines = split_on newline logText; complete = butlast lines; trailing = last lines in
      case replay_lines base from
             \<lparr>rr_seq = from, rr_applied = 0, rr_work = None, rr_firstKept = True, rr_stopped = None\<rparr>
             0 complete of
        None \<Rightarrow> None
      | Some r \<Rightarrow> Some
          \<lparr>rp_state = (case rr_work r of None \<Rightarrow> base | Some w \<Rightarrow> state_of w),
           rp_seq = rr_seq r, rp_applied = rr_applied r,
           rp_stopped = (if rr_stopped r = None \<and> trailing \<noteq> [] then Some (Torn, length complete)
                         else rr_stopped r)\<rparr>)"


section \<open>What a pass changed\<close>

text \<open>A state the engine hands over to be saved.\<close>

record stored_state =
  ss_cursor :: int
  ss_entries :: obj
  ss_remote :: obj
  ss_pending :: "jstring list"

definition state_json :: "stored_state \<Rightarrow> json" where
  "state_json s = JObj [(lit ''cursor'', JNum (ss_cursor s)), (lit ''entries'', JObj (ss_entries s)),
     (lit ''remote'', JObj (ss_remote s)), (lit ''pending'', JArr (map JStr (ss_pending s)))]"

text \<open>
  A saved value has an identity: \<open>changed\<close> compares the objects, not what they hold. \<open>sv_id\<close> is that
  identity; a fresh object takes the next number of the heap.
\<close>

record saved_value =
  sv_id :: nat
  sv_value :: json

type_synonym saved_map = "(jstring \<times> saved_value) list"

record saved_shape =
  sh_cursor :: "json option"
  sh_entries :: saved_map
  sh_remote :: saved_map
  sh_pending :: "json list"

text \<open>\<open>===\<close> between a saved value and one of the engine's: no container is the same object.\<close>

fun identical :: "json \<Rightarrow> json \<Rightarrow> bool" where
  "identical (JArr _) _ = False"
| "identical (JObj _) _ = False"
| "identical v w = (v = w)"

lemma size_arr_elem: "v \<in> set vs \<Longrightarrow> size v < size (JArr vs)"
  by (induction vs) auto

lemma size_obj_elem: "(k, v) \<in> set kvs \<Longrightarrow> size v < size (JObj kvs)"
  by (induction kvs) auto

function (sequential) sameJSONValue :: "json \<Rightarrow> json \<Rightarrow> bool" where
  "sameJSONValue (JArr vs) (JArr ws) =
     (length vs = length ws \<and> list_all (\<lambda>(v, w). sameJSONValue v w) (zip vs ws))"
| "sameJSONValue (JObj vs) (JObj ws) =
     (length vs = length ws \<and>
      list_all (\<lambda>((k, v), (l, w)). k = l \<and> sameJSONValue v w) (zip vs ws))"
| "sameJSONValue v w = identical v w"
  by pat_completeness auto
termination
  by (relation "measure (size \<circ> fst)")
    (auto dest!: set_zip_leftD size_arr_elem size_obj_elem)

text \<open>\<open>JSON.parse(JSON.stringify(v))\<close>.\<close>

definition detached :: "json \<Rightarrow> json" where
  "detached v = (case parse_json (stringify v) of Some w \<Rightarrow> w | None \<Rightarrow> v)"

fun serialise_keys :: "nat \<Rightarrow> saved_map \<Rightarrow> obj \<Rightarrow> nat \<times> saved_map" where
  "serialise_keys heap previous [] = (heap, [])"
| "serialise_keys heap previous ((key, v) # kvs) =
     (let fresh = (heap + 1, \<lparr>sv_id = heap, sv_value = detached v\<rparr>);
          (heap', sv) =
            (case map_of previous key of
               None \<Rightarrow> fresh
             | Some saved \<Rightarrow>
                 if sameJSONValue (sv_value saved) v then (heap, saved)
                 else if sameJSONValue (sv_value saved) (detached v) then (heap, saved)
                 else fresh);
          (heap'', out) = serialise_keys heap' previous kvs
      in (heap'', (key, sv) # out))"

definition serialised :: "nat \<Rightarrow> json option \<Rightarrow> saved_map \<Rightarrow> nat \<times> saved_map" where
  "serialised heap from previous =
     (case from of Some (JObj kvs) \<Rightarrow> serialise_keys heap previous kvs | _ \<Rightarrow> (heap, []))"

definition listOf :: "json option \<Rightarrow> json list" where
  "listOf from = (case from of Some (JArr vs) \<Rightarrow> vs | _ \<Rightarrow> [])"

text \<open>\<open>shapeOf\<close> reads properties of its argument, so it throws on null: \<open>None\<close>.\<close>

definition shapeOf :: "nat \<Rightarrow> json \<Rightarrow> (nat \<times> saved_shape) option" where
  "shapeOf heap state =
     (if state = JNull then None
      else let (heap1, es) = serialised heap (field state (lit ''entries'')) [];
               (heap2, rs) = serialised heap1 (field state (lit ''remote'')) []
           in Some (heap2, \<lparr>sh_cursor = field state (lit ''cursor''), sh_entries = es, sh_remote = rs,
                            sh_pending = listOf (field state (lit ''pending''))\<rparr>))"

definition changed :: "saved_map \<Rightarrow> saved_map \<Rightarrow> obj \<Rightarrow> obj \<times> jstring list" where
  "changed before after values =
     (map (\<lambda>(path, saved). (path, case map_of values path of Some v \<Rightarrow> v | None \<Rightarrow> JNull))
        (filter (\<lambda>(path, saved). map_option sv_id (map_of before path) \<noteq> Some (sv_id saved)) after),
      filter (\<lambda>path. map_of after path = None) (map fst before))"

definition samePending :: "json list \<Rightarrow> json list \<Rightarrow> bool" where
  "samePending before after \<longleftrightarrow>
     length before = length after \<and> list_all (\<lambda>(p, q). identical p q) (zip before after)"

definition deltaFrom ::
  "nat \<Rightarrow> saved_shape \<Rightarrow> stored_state \<Rightarrow> json option \<times> nat \<times> saved_shape" where
  "deltaFrom heap saved next =
     (let (heap1, es) = serialised heap (Some (JObj (ss_entries next))) (sh_entries saved);
          (heap2, rs) = serialised heap1 (Some (JObj (ss_remote next))) (sh_remote saved);
          pending = map JStr (ss_pending next);
          shape = \<lparr>sh_cursor = Some (JNum (ss_cursor next)), sh_entries = es, sh_remote = rs,
                   sh_pending = pending\<rparr>;
          (eset, edel) = changed (sh_entries saved) es (ss_entries next);
          (rset, rdel) = changed (sh_remote saved) rs (ss_remote next);
          delta =
            (if sh_cursor saved \<noteq> Some (JNum (ss_cursor next))
             then [(lit ''cursor'', JNum (ss_cursor next))] else []) @
            (if eset \<noteq> [] then [(lit ''set'', JObj eset)] else []) @
            (if edel \<noteq> [] then [(lit ''del'', JArr (map JStr edel))] else []) @
            (if rset \<noteq> [] then [(lit ''remote'', JObj rset)] else []) @
            (if rdel \<noteq> [] then [(lit ''unremote'', JArr (map JStr rdel))] else []) @
            (if \<not> samePending (sh_pending saved) pending
             then [(lit ''pending'', JArr pending)] else [])
      in (if delta = [] then None else Some (JObj delta), heap2, shape))"

text \<open>\<open>None\<close> outside is the TypeError of \<open>shapeOf\<close> on null.\<close>

definition deltaBetween :: "json \<Rightarrow> stored_state \<Rightarrow> json option option" where
  "deltaBetween prev next =
     (case shapeOf 0 prev of None \<Rightarrow> None | Some (heap, shape) \<Rightarrow> Some (fst (deltaFrom heap shape next)))"

section \<open>Records round trip\<close>

lemma index_of_first:
  assumes "c \<notin> set xs"
  shows "index_of (xs @ c # ys) c = int (length xs)"
proof -
  have "takeWhile (\<lambda>x. x \<noteq> c) (xs @ c # ys) = xs"
    using assms by (simp add: takeWhile_append)
  then show ?thesis by (simp add: index_of_def)
qed

lemma is_lower_hex_digit: "d < 16 \<Longrightarrow> is_lower_hex (hex_digit d)"
proof -
  have "list_all (\<lambda>d. is_lower_hex (hex_digit d)) [0..<16]" by code_simp
  then show "d < 16 \<Longrightarrow> ?thesis" by (simp add: list_all_iff)
qed

lemma hex8_lower: "list_all is_lower_hex (hex8 w)"
  by (simp add: hex8_def is_lower_hex_digit)

lemma lower_hex_not: "is_lower_hex c \<Longrightarrow> c \<noteq> 0 \<and> c \<noteq> 32 \<and> c \<noteq> newline"
  by (auto simp: is_lower_hex_def is_digit_def)

definition record_line :: "int \<Rightarrow> json \<Rightarrow> jstring" where
  "record_line seq delta =
     integer_text seq @ [32] @ hex8 (crc32 (utf8_encode (stringify delta))) @ [32] @ stringify delta"

lemma encodeRecord_line:
  "1 \<le> seq \<Longrightarrow> seq \<le> MAX_SAFE \<Longrightarrow> encodeRecord seq delta = Some (record_line seq delta @ [newline])"
  by (simp add: encodeRecord_def record_line_def Let_def)

lemma seq_text:
  assumes "1 \<le> seq"
  shows "integer_text seq = decimal (nat seq)" and "c \<in> set (integer_text seq) \<Longrightarrow> is_digit c"
  using assms decimal_digits by (auto simp: integer_text_def)

lemma record_line_clean:
  assumes "1 \<le> seq" and "json_ok delta" and "c \<in> {0, newline}"
  shows "c \<notin> set (record_line seq delta)"
proof -
  have "c \<notin> set (integer_text seq)" using seq_text(2) [OF assms(1), of c] assms(3) by (auto simp: is_digit_def)
  moreover have "c \<notin> set (hex8 w)" for w
    using hex8_lower [of w] lower_hex_not [of c] assms(3) by (auto simp: list_all_iff)
  moreover have "c \<notin> set (stringify delta)"
    using printable_no [OF printable_stringify [OF assms(2)]] assms(3) by auto
  ultimately show ?thesis using assms(3) by (auto simp: record_line_def)
qed

lemma decode_record_line:
  assumes "1 \<le> seq" and "seq \<le> MAX_SAFE" and "json_ok (JObj kvs)"
  shows "decodeRecord (record_line seq (JObj kvs)) = Inr (seq, JObj kvs)"
proof -
  let ?n = "integer_text seq" let ?t = "stringify (JObj kvs)"
  let ?h = "hex8 (crc32 (utf8_encode ?t))"
  let ?after = "?h @ 32 # ?t"
  have line: "record_line seq (JObj kvs) = ?n @ 32 # ?after" by (simp add: record_line_def)
  have "32 \<notin> set ?n" using seq_text(2) [OF assms(1), of 32] by auto
  then have gap1: "index_of (?n @ 32 # ?after) 32 = int (length ?n)" by (rule index_of_first)
  have "32 \<notin> set ?h" using hex8_lower lower_hex_not by (auto simp: list_all_iff)
  then have gap2: "index_of ?after 32 = int (length ?h)" by (rule index_of_first)
  have n: "?n \<noteq> []" using seq_text(1) [OF assms(1)] by simp
  have after: "drop (nat (int (length ?n) + 1)) (?n @ 32 # ?after) = ?after"
    by (simp add: nat_add_distrib)
  have "js_number ?n = Some (of_nat (nat seq))"
    using seq_text(1) [OF assms(1)] js_number_decimal by simp
  then have num: "safe_integer (js_number ?n) = Some seq"
    using assms(1,2) by (simp add: safe_integer_def)
  have nul: "0 \<notin> set (?n @ 32 # ?after)"
    using record_line_clean [OF assms(1,3), of 0] unfolding line by blast
  have rest: "drop (nat (int (length ?h)) + 1) ?after = ?t" "take (nat (int (length ?h))) ?after = ?h"
    by simp_all
  show ?thesis
    unfolding line decodeRecord_def gap1 after gap2 Let_def rest
    using nul n num assms(1) hex8_lower parse_stringify [OF assms(3)]
    by (simp del: stringify.simps set_append)
qed

section \<open>The comparison misses nothing\<close>

lemma list_all_zip:
  "length vs = length ws \<Longrightarrow> (\<And>v w. (v, w) \<in> set (zip vs ws) \<Longrightarrow> P v w \<longleftrightarrow> v = w) \<Longrightarrow>
     list_all (\<lambda>(v, w). P v w) (zip vs ws) \<longleftrightarrow> vs = ws"
proof (induction vs ws rule: list_induct2)
  case (Cons v vs w ws)
  from Cons.prems [of v w] have "P v w \<longleftrightarrow> v = w" by simp
  moreover have "list_all (\<lambda>(v, w). P v w) (zip vs ws) \<longleftrightarrow> vs = ws" using Cons by auto
  ultimately show ?case by simp
qed simp

lemma identical_eq: "identical v w \<Longrightarrow> v = w"
  by (cases v) auto

lemma sameJSONValue_iff: "sameJSONValue v w \<longleftrightarrow> v = w"
proof (induction v w rule: sameJSONValue.induct)
  case (1 vs ws)
  then show ?case using list_all_zip [of vs ws sameJSONValue] by auto
next
  case (2 vs ws)
  show ?case
  proof (cases "length vs = length ws")
    case True
    have "list_all (\<lambda>(x, y). fst x = fst y \<and> sameJSONValue (snd x) (snd y)) (zip vs ws) \<longleftrightarrow> vs = ws"
    proof (rule list_all_zip [OF True])
      fix x y assume xy: "(x, y) \<in> set (zip vs ws)"
      obtain k v l w where "x = (k, v)" "y = (l, w)" by fastforce
      with xy 2 True show "fst x = fst y \<and> sameJSONValue (snd x) (snd y) \<longleftrightarrow> x = y" by auto
    qed
    with True show ?thesis by (simp add: case_prod_beta')
  next
    case False
    then show ?thesis by auto
  qed
qed (auto dest: identical_eq)

lemma identical_iff: "identical (JStr s) w \<longleftrightarrow> JStr s = w"
  by simp

lemma detached_ok: "json_ok v \<Longrightarrow> detached v = v"
  by (simp add: detached_def parse_stringify)

text \<open>A saved map holds an object's values, under identities the heap has handed out.\<close>

definition holds :: "nat \<Rightarrow> saved_map \<Rightarrow> obj \<Rightarrow> bool" where
  "holds heap saved kvs \<longleftrightarrow>
     (\<forall>p. map_option sv_value (map_of saved p) = map_of kvs p) \<and>
     (\<forall>p sv. map_of saved p = Some sv \<longrightarrow> sv_id sv < heap)"

definition obj_ok :: "obj \<Rightarrow> bool" where
  "obj_ok kvs \<longleftrightarrow> distinct (map fst kvs) \<and> list_all (\<lambda>(k, v). json_ok v) kvs"

lemma obj_ok_Cons: "obj_ok ((k, v) # kvs) \<longleftrightarrow> k \<notin> fst ` set kvs \<and> json_ok v \<and> obj_ok kvs"
  by (auto simp: obj_ok_def)

lemma serialise_keys_spec:
  assumes "obj_ok kvs" and "serialise_keys heap prev kvs = (heap', out)"
    and "\<forall>p sv. map_of prev p = Some sv \<longrightarrow> sv_id sv < base" and "base \<le> heap"
  shows "heap \<le> heap' \<and> holds heap' out kvs \<and> map fst out = map fst kvs \<and>
    (\<forall>p sv. map_of out p = Some sv \<longrightarrow>
       (sv_id sv < base \<longrightarrow> map_of prev p = Some sv) \<and>
       (map_option sv_value (map_of prev p) = Some (sv_value sv) \<longrightarrow> map_of prev p = Some sv))"
  using assms
proof (induction kvs arbitrary: heap heap' out)
  case Nil
  then show ?case by (simp add: holds_def)
next
  case (Cons kv kvs)
  obtain key v where kv: "kv = (key, v)" by fastforce
  let ?reuse = "map_option sv_value (map_of prev key) = Some v"
  define sv heap1 where "sv = (if ?reuse then the (map_of prev key) else \<lparr>sv_id = heap, sv_value = v\<rparr>)"
    and "heap1 = (if ?reuse then heap else heap + 1)"
  have v: "json_ok v" "obj_ok kvs" "key \<notin> fst ` set kvs" using Cons.prems(1) by (auto simp: kv obj_ok_Cons)
  obtain heap2 out2 where rec: "serialise_keys heap1 prev kvs = (heap2, out2)" by fastforce
  have out: "heap' = heap2" "out = (key, sv) # out2"
    using Cons.prems(2) rec v(1)
    by (auto simp: kv sv_def heap1_def sameJSONValue_iff detached_ok Let_def split: option.splits if_splits)
  have base: "base \<le> heap1" "heap \<le> heap1" using Cons.prems(4) by (simp_all add: heap1_def)
  have IH: "heap1 \<le> heap2" "holds heap2 out2 kvs" "map fst out2 = map fst kvs"
    "\<And>p sv. map_of out2 p = Some sv \<Longrightarrow>
       (sv_id sv < base \<longrightarrow> map_of prev p = Some sv) \<and>
       (map_option sv_value (map_of prev p) = Some (sv_value sv) \<longrightarrow> map_of prev p = Some sv)"
    using Cons.IH [OF v(2) rec Cons.prems(3) base(1)] by blast+
  have sv: "sv_value sv = v" "sv_id sv < heap1"
    using Cons.prems(3,4) by (auto simp: sv_def heap1_def) (meson order_less_le_trans)
  then have "holds heap2 ((key, sv) # out2) ((key, v) # kvs)"
    using IH(1,2) by (auto simp: holds_def)
  moreover have "(sv_id sv < base \<longrightarrow> map_of prev key = Some sv) \<and>
       (map_option sv_value (map_of prev key) = Some (sv_value sv) \<longrightarrow> map_of prev key = Some sv)"
    using Cons.prems(4) sv(1) by (auto simp: sv_def)
  ultimately show ?case
    unfolding out kv using IH base by auto
qed

lemma map_of_filter_val:
  assumes "distinct (map fst kvs)"
  shows "map_of (map (\<lambda>(p, s). (p, f p s)) (filter (\<lambda>(p, s). P p s) kvs)) p =
    (case map_of kvs p of Some s \<Rightarrow> if P p s then Some (f p s) else None | None \<Rightarrow> None)"
  using assms
proof (induction kvs)
  case (Cons kv kvs)
  obtain q s where kv: "kv = (q, s)" by fastforce
  then have "map_of kvs q = None" using Cons.prems by (simp add: map_of_eq_None_iff)
  with Cons kv show ?case by (auto split: option.splits)
qed simp

text \<open>What \<open>changed\<close> finds: exactly the keys whose value is new or different, and the keys gone.\<close>

lemma changed_spec:
  assumes "holds heap before old" and "obj_ok new"
    and "serialise_keys heap before new = (heap', after)" and "changed before after new = (st, del)"
  shows "map_of st p = (if map_of new p = map_of old p then None else map_of new p)"
    and "p \<in> set del \<longleftrightarrow> map_of old p \<noteq> None \<and> map_of new p = None"
    and "holds heap' after new" and "obj_ok st" and "heap \<le> heap'"
proof -
  have ids: "\<forall>p sv. map_of before p = Some sv \<longrightarrow> sv_id sv < heap"
    and vals: "map_option sv_value (map_of before p) = map_of old p" for p
    using assms(1) by (auto simp: holds_def)
  note spec = serialise_keys_spec [OF assms(2,3) ids order_refl]
  then show after: "holds heap' after new" and "heap \<le> heap'" by blast+
  have keys: "map fst after = map fst new" using spec by blast
  have dist: "distinct (map fst after)" using assms(2) keys by (simp add: obj_ok_def)
  have keep: "map_option sv_id (map_of before p) = Some (sv_id sv) \<longleftrightarrow> map_of old p = Some (sv_value sv)"
    if "map_of after p = Some sv" for p sv
  proof
    assume "map_option sv_id (map_of before p) = Some (sv_id sv)"
    then obtain b where b: "map_of before p = Some b" "sv_id b = sv_id sv" by auto
    then have "sv_id sv < heap" using ids by metis
    then have "map_of before p = Some sv" using spec that by blast
    then show "map_of old p = Some (sv_value sv)" using vals [of p] by simp
  next
    assume "map_of old p = Some (sv_value sv)"
    then have "map_option sv_value (map_of before p) = Some (sv_value sv)" using vals [of p] by simp
    then have "map_of before p = Some sv" using spec that by blast
    then show "map_option sv_id (map_of before p) = Some (sv_id sv)" by simp
  qed
  have new: "map_option sv_value (map_of after p) = map_of new p" for p
    using after by (simp add: holds_def)
  have st: "st = map (\<lambda>(path, saved). (path, case map_of new path of Some v \<Rightarrow> v | None \<Rightarrow> JNull))
        (filter (\<lambda>(path, saved). map_option sv_id (map_of before path) \<noteq> Some (sv_id saved)) after)"
    and del: "del = filter (\<lambda>path. map_of after path = None) (map fst before)"
    using assms(4) by (simp_all add: changed_def)
  have lookup: "map_of st p = (if map_of new p = map_of old p then None else map_of new p)" for p
  proof (cases "map_of after p")
    case None
    then have "map_of new p = None" using new [of p] by simp
    with None show ?thesis unfolding st by (subst map_of_filter_val [OF dist]) simp
  next
    case (Some sv)
    then have "map_of new p = Some (sv_value sv)" using new [of p] by simp
    with Some keep [OF Some] show ?thesis
      unfolding st by (subst map_of_filter_val [OF dist]) auto
  qed
  then show "map_of st p = (if map_of new p = map_of old p then None else map_of new p)" .
  have "p \<in> fst ` set before \<longleftrightarrow> map_of old p \<noteq> None"
    using vals [of p] by (metis map_of_eq_None_iff option.map_disc_iff)
  moreover have "map_of after p = None \<longleftrightarrow> map_of new p = None"
    using new [of p] by (metis option.map_disc_iff)
  ultimately show "p \<in> set del \<longleftrightarrow> map_of old p \<noteq> None \<and> map_of new p = None"
    unfolding del by auto
  have "map fst st = map fst (filter (\<lambda>(path, saved). map_option sv_id (map_of before path) \<noteq> Some (sv_id saved)) after)"
    unfolding st by (simp add: case_prod_beta')
  then have d: "distinct (map fst st)" using dist by (simp add: distinct_map_filter)
  have "json_ok v" if "(k, v) \<in> set st" for k v
  proof -
    have "map_of st k = Some v" using d that by simp
    then have "map_of new k = Some v" using lookup [of k] by (auto split: if_splits)
    then show ?thesis using assms(2) by (auto simp: obj_ok_def list_all_iff dest: map_of_SomeD)
  qed
  with d show "obj_ok st" by (auto simp: obj_ok_def list_all_iff)
qed

section \<open>A delta takes one state to the other\<close>

lemma map_of_assign_all:
  "distinct (map fst kvs) \<Longrightarrow>
     map_of (assign_all kvs o') p = (case map_of kvs p of Some v \<Rightarrow> Some v | None \<Rightarrow> map_of o' p)"
proof (induction kvs arbitrary: o')
  case (Cons kv kvs)
  obtain k v where kv: "kv = (k, v)" by fastforce
  have "map_of (assign_all kvs (AList.update k v o')) p =
      (case map_of kvs p of Some v \<Rightarrow> Some v | None \<Rightarrow> map_of (AList.update k v o') p)"
    using Cons by simp
  moreover have "map_of kvs k = None" using Cons.prems kv by (simp add: map_of_eq_None_iff)
  ultimately show ?case
    by (auto simp: assign_all_def kv AList.update_conv' split: option.splits)
qed (simp add: assign_all_def)

lemma map_of_delete_all:
  "map_of (delete_all (map JStr ks) o') p = (if p \<in> set ks then None else map_of o' p)"
proof (induction ks arbitrary: o')
  case (Cons k ks)
  then show ?case by (simp add: delete_all_def AList.delete_conv')
qed (simp add: delete_all_def)

definition same_map :: "obj \<Rightarrow> obj \<Rightarrow> bool" where
  "same_map a b \<longleftrightarrow> (\<forall>p. map_of a p = map_of b p)"

definition same_fold :: "fold_state \<Rightarrow> fold_state \<Rightarrow> bool" where
  "same_fold v w \<longleftrightarrow> fo_cursor v = fo_cursor w \<and> fo_pending v = fo_pending w \<and>
     same_map (fo_entries v) (fo_entries w) \<and> same_map (fo_remote v) (fo_remote w)"

definition fold_of :: "stored_state \<Rightarrow> fold_state" where
  "fold_of s = \<lparr>fo_cursor = Some (JNum (ss_cursor s)), fo_entries = ss_entries s,
     fo_remote = ss_remote s, fo_pending = Some (JArr (map JStr (ss_pending s)))\<rparr>"

lemma field_Cons: "field (JObj ((k, v) # kvs)) q = (if q = k then Some v else field (JObj kvs) q)"
  by (simp add: field_def)

lemma field_Nil: "field (JObj []) q = None"
  by (simp add: field_def)

lemma field_append: "field (JObj (xs @ ys)) q =
    (case field (JObj xs) q of Some v \<Rightarrow> Some v | None \<Rightarrow> field (JObj ys) q)"
  by (simp add: field_def map_add_def split: option.splits)

lemma copyOf_state_json: "copyOf (state_json s) = fold_of s"
  by (simp add: copyOf_def state_json_def field_Cons field_Nil fold_of_def entries_of_def)

lemma samePending_iff: "samePending (map JStr ps) (map JStr qs) \<longleftrightarrow> ps = qs"
proof (cases "length ps = length qs")
  case True
  then show ?thesis by (induction ps qs rule: list_induct2) (auto simp: samePending_def)
qed (auto simp: samePending_def)

text \<open>A shape describes the state last written.\<close>

definition shape_for :: "nat \<Rightarrow> saved_shape \<Rightarrow> stored_state \<Rightarrow> bool" where
  "shape_for heap sh s \<longleftrightarrow>
     sh_cursor sh = Some (JNum (ss_cursor s)) \<and> sh_pending sh = map JStr (ss_pending s) \<and>
     holds heap (sh_entries sh) (ss_entries s) \<and> holds heap (sh_remote sh) (ss_remote s)"

definition state_ok :: "stored_state \<Rightarrow> bool" where
  "state_ok s \<longleftrightarrow> obj_ok (ss_entries s) \<and> obj_ok (ss_remote s)"

lemma holds_mono: "holds heap sv kvs \<Longrightarrow> heap \<le> heap' \<Longrightarrow> holds heap' sv kvs"
  by (fastforce simp: holds_def)


lemma holds_map: "holds heap sv a \<Longrightarrow> same_map a b \<Longrightarrow> holds heap sv b"
  by (simp add: holds_def same_map_def)

text \<open>The fields of the delta \<open>deltaFrom\<close> builds.\<close>

lemma delta_fields:
  fixes C E D R U P
  defines "d \<equiv> JObj ((case C of Some c \<Rightarrow> [(lit ''cursor'', c)] | None \<Rightarrow> []) @
      (if E \<noteq> [] then [(lit ''set'', JObj E)] else []) @
      (if D \<noteq> [] then [(lit ''del'', JArr (map JStr D))] else []) @
      (if R \<noteq> [] then [(lit ''remote'', JObj R)] else []) @
      (if U \<noteq> [] then [(lit ''unremote'', JArr (map JStr U))] else []) @
      (case P of Some p \<Rightarrow> [(lit ''pending'', JArr p)] | None \<Rightarrow> []))"
  shows "foldInto w d = Some \<lparr>fo_cursor = (case C of Some c \<Rightarrow> Some c | None \<Rightarrow> fo_cursor w),
      fo_entries = delete_all (map JStr D) (assign_all E (fo_entries w)),
      fo_remote = delete_all (map JStr U) (assign_all R (fo_remote w)),
      fo_pending = (case P of Some p \<Rightarrow> Some (JArr p) | None \<Rightarrow> fo_pending w)\<rparr>"
proof -
  have "field d (lit ''cursor'') = C" "field d (lit ''pending'') = map_option JArr P"
    "entries_of (field d (lit ''set'')) = E" "entries_of (field d (lit ''remote'')) = R"
    "iterate_or_empty (field d (lit ''del'')) = Some (map JStr D)"
    "iterate_or_empty (field d (lit ''unremote'')) = Some (map JStr U)"
    unfolding d_def
    by (simp_all add: field_append field_Cons field_Nil entries_of_def iterate_or_empty_def
        iterate_def split: option.splits)
  then show ?thesis
    by (cases P) (simp_all add: foldInto_def iterate_def split: option.splits)
qed


lemma deltaFrom_spec:
  assumes "shape_for heap sh s" and "state_ok next" and "deltaFrom heap sh next = (delta, heap', sh')"
  shows "shape_for heap' sh' next" and "heap \<le> heap'"
    and "delta = None \<Longrightarrow> same_fold (fold_of s) (fold_of next)"
    and "delta = Some d \<Longrightarrow> same_fold w (fold_of s) \<Longrightarrow>
      \<exists>w'. foldInto w d = Some w' \<and> same_fold w' (fold_of next)"
    and "delta = Some d \<Longrightarrow> \<exists>kvs. d = JObj kvs \<and> json_ok d"
proof -
  obtain heap1 es heap2 rs where
    es: "serialise_keys heap (sh_entries sh) (ss_entries next) = (heap1, es)" and
    rs: "serialise_keys heap1 (sh_remote sh) (ss_remote next) = (heap2, rs)" by fastforce
  obtain E D R U where
    ch1: "changed (sh_entries sh) es (ss_entries next) = (E, D)" and
    ch2: "changed (sh_remote sh) rs (ss_remote next) = (R, U)" by fastforce
  define C where "C = (if sh_cursor sh \<noteq> Some (JNum (ss_cursor next)) then Some (JNum (ss_cursor next)) else None)"
  define P where "P = (if samePending (sh_pending sh) (map JStr (ss_pending next)) then None else Some (map JStr (ss_pending next)))"
  define fields where "fields = (case C of Some c \<Rightarrow> [(lit ''cursor'', c)] | None \<Rightarrow> []) @
      (if E \<noteq> [] then [(lit ''set'', JObj E)] else []) @
      (if D \<noteq> [] then [(lit ''del'', JArr (map JStr D))] else []) @
      (if R \<noteq> [] then [(lit ''remote'', JObj R)] else []) @
      (if U \<noteq> [] then [(lit ''unremote'', JArr (map JStr U))] else []) @
      (case P of Some p \<Rightarrow> [(lit ''pending'', JArr p)] | None \<Rightarrow> [])"
  have hold: "holds heap (sh_entries sh) (ss_entries s)" "holds heap (sh_remote sh) (ss_remote s)"
    and cur: "sh_cursor sh = Some (JNum (ss_cursor s))" and pend: "sh_pending sh = map JStr (ss_pending s)"
    using assms(1) by (simp_all add: shape_for_def)
  have ok: "obj_ok (ss_entries next)" "obj_ok (ss_remote next)" using assms(2) by (simp_all add: state_ok_def)
  note e = changed_spec [OF hold(1) ok(1) es ch1]
  have "holds heap1 (sh_remote sh) (ss_remote s)" using holds_mono [OF hold(2)] e(5) by simp
  note r = changed_spec [OF this ok(2) rs ch2]
  have out: "delta = (if fields = [] then None else Some (JObj fields))"
    "heap' = heap2" "sh' = \<lparr>sh_cursor = Some (JNum (ss_cursor next)), sh_entries = es, sh_remote = rs,
       sh_pending = map JStr (ss_pending next)\<rparr>"
    using assms(3) es rs ch1 ch2
    by (auto simp: deltaFrom_def serialised_def Let_def fields_def C_def P_def)
  show "shape_for heap' sh' next"
    using e(3) r(3) r(5) out by (simp add: shape_for_def holds_mono)
  show "heap \<le> heap'" using e(5) r(5) out by simp
  have fold: "\<exists>w'. foldInto w (JObj fields) = Some w' \<and> same_fold w' (fold_of next)"
    if w: "same_fold w (fold_of s)" for w
  proof -
    let ?w = "\<lparr>fo_cursor = (case C of Some c \<Rightarrow> Some c | None \<Rightarrow> fo_cursor w),
      fo_entries = delete_all (map JStr D) (assign_all E (fo_entries w)),
      fo_remote = delete_all (map JStr U) (assign_all R (fo_remote w)),
      fo_pending = (case P of Some p \<Rightarrow> Some (JArr p) | None \<Rightarrow> fo_pending w)\<rparr>"
    have run: "foldInto w (JObj fields) = Some ?w" unfolding fields_def by (rule delta_fields)
    have dist: "distinct (map fst E)" "distinct (map fst R)" using e(4) r(4) by (simp_all add: obj_ok_def)
    have maps: "map_of (fo_entries w) p = map_of (ss_entries s) p" "map_of (fo_remote w) p = map_of (ss_remote s) p" for p
      using w by (simp_all add: same_fold_def fold_of_def same_map_def)
    have "same_map (fo_entries ?w) (ss_entries next)"
      using e(1,2) maps(1) dist(1)
      by (auto simp: same_map_def map_of_delete_all map_of_assign_all split: option.splits)
    moreover have "same_map (fo_remote ?w) (ss_remote next)"
      using r(1,2) maps(2) dist(2)
      by (auto simp: same_map_def map_of_delete_all map_of_assign_all split: option.splits)
    moreover have "fo_cursor ?w = Some (JNum (ss_cursor next))"
      using w cur by (simp add: C_def same_fold_def fold_of_def)
    moreover have "fo_pending ?w = Some (JArr (map JStr (ss_pending next)))"
      using w pend samePending_iff [of "ss_pending s" "ss_pending next"]
      by (auto simp: P_def same_fold_def fold_of_def)
    ultimately have "same_fold ?w (fold_of next)" by (simp add: same_fold_def fold_of_def)
    with run show ?thesis by blast
  qed
  show "delta = Some d \<Longrightarrow> same_fold w (fold_of s) \<Longrightarrow>
      \<exists>w'. foldInto w d = Some w' \<and> same_fold w' (fold_of next)"
    using fold [of w] out(1) by (auto split: if_splits)
  show "same_fold (fold_of s) (fold_of next)" if "delta = None"
  proof -
    have "fields = []" using that out(1) by (auto split: if_splits)
    moreover have "same_fold (fold_of s) (fold_of s)" by (simp add: same_fold_def same_map_def)
    ultimately obtain w' where "foldInto (fold_of s) (JObj []) = Some w'" "same_fold w' (fold_of next)"
      using fold [of "fold_of s"] by auto
    moreover have "foldInto (fold_of s) (JObj []) = Some (fold_of s)"
      by (simp add: foldInto_def field_Nil iterate_or_empty_def entries_of_def assign_all_def delete_all_def)
    ultimately show ?thesis by simp
  qed
  have "json_ok (JObj E)" "json_ok (JObj R)" using e(4) r(4) by (simp_all add: obj_ok_def)
  then have "json_ok (JObj fields)"
    by (auto simp: fields_def list_all_iff C_def P_def split: option.splits if_splits)
  then show "delta = Some d \<Longrightarrow> \<exists>kvs. d = JObj kvs \<and> json_ok d"
    using out(1) by (auto split: if_splits)
qed

section \<open>Replaying a log cut anywhere\<close>

lemma split_cut:
  assumes "\<And>l. l \<in> set ls \<Longrightarrow> newline \<notin> set l"
  obtains j partial where "split_on newline (take m (concat (map (\<lambda>l. l @ [newline]) ls))) = take j ls @ [partial]"
    "j \<le> length ls" "m \<ge> length (concat (map (\<lambda>l. l @ [newline]) ls)) \<Longrightarrow> j = length ls \<and> partial = []"
proof -
  let ?text = "\<lambda>ls. concat (map (\<lambda>l. l @ [newline]) ls)"
  have "\<exists>j partial. split_on newline (take m (?text ls)) = take j ls @ [partial] \<and> j \<le> length ls \<and>
      (m \<ge> length (?text ls) \<longrightarrow> j = length ls \<and> partial = [])"
    using assms
  proof (induction ls arbitrary: m)
    case Nil
    then show ?case by (intro exI [of _ 0] exI [of _ "[]"]) simp
  next
    case (Cons l ls)
    have l: "newline \<notin> set l" using Cons.prems by simp
    show ?case
    proof (cases "m \<le> length l")
      case True
      then have "take m (?text (l # ls)) = take m l" by simp
      moreover have "newline \<notin> set (take m l)" using l by (auto dest: in_set_takeD)
      ultimately show ?thesis using True
        by (intro exI [of _ 0] exI [of _ "take m l"]) (simp add: split_on_clean)
    next
      case False
      then obtain m' where m: "m = length l + 1 + m'" by (metis Suc_eq_plus1 add_Suc_right le_iff_add not_less_eq_eq)
      then have "take m (?text (l # ls)) = l @ newline # take m' (?text ls)" by simp
      then have sp: "split_on newline (take m (?text (l # ls))) = l # split_on newline (take m' (?text ls))"
        using split_on_line [OF l] by simp
      obtain j partial where "split_on newline (take m' (?text ls)) = take j ls @ [partial]" "j \<le> length ls"
        "m' \<ge> length (?text ls) \<longrightarrow> j = length ls \<and> partial = []"
        using Cons.IH [of m'] Cons.prems by auto
      then show ?thesis unfolding sp using m
        by (intro exI [of _ "Suc j"] exI [of _ partial]) simp
    qed
  qed
  then show ?thesis using that by blast
qed


definition takes :: "stored_state \<Rightarrow> json \<Rightarrow> stored_state \<Rightarrow> bool" where
  "takes s d s' \<longleftrightarrow> (\<exists>kvs. d = JObj kvs) \<and> json_ok d \<and>
     (\<forall>w. same_fold w (fold_of s) \<longrightarrow> (\<exists>w'. foldInto w d = Some w' \<and> same_fold w' (fold_of s')))"

fun chain :: "stored_state \<Rightarrow> (json \<times> stored_state) list \<Rightarrow> bool" where
  "chain s [] = True"
| "chain s ((d, s') # rest) = (takes s d s' \<and> chain s' rest)"

text \<open>The records of a run of saves: an unchanged state writes none and leaves the shape alone.\<close>

fun written :: "nat \<Rightarrow> saved_shape \<Rightarrow> stored_state list \<Rightarrow> (json \<times> stored_state) list" where
  "written heap sh [] = []"
| "written heap sh (next # rest) =
     (case deltaFrom heap sh next of
        (None, heap', _) \<Rightarrow> written heap' sh rest
      | (Some d, heap', sh') \<Rightarrow> (d, next) # written heap' sh' rest)"

lemma same_fold_sym: "same_fold a b \<Longrightarrow> same_fold b a"
  by (simp add: same_fold_def same_map_def)

lemma same_fold_trans: "same_fold a b \<Longrightarrow> same_fold b c \<Longrightarrow> same_fold a c"
  by (simp add: same_fold_def same_map_def)

lemma shape_for_same:
  assumes "shape_for heap sh s" and "same_fold (fold_of s) (fold_of s')"
  shows "shape_for heap sh s'"
proof -
  have "map JStr (ss_pending s) = map JStr (ss_pending s')" "ss_cursor s = ss_cursor s'"
    using assms(2) by (simp_all add: same_fold_def fold_of_def)
  with assms show ?thesis
    by (auto simp: shape_for_def same_fold_def fold_of_def intro: holds_map)
qed

lemma takes_cong: "takes s d s' \<Longrightarrow> same_fold (fold_of s) (fold_of t) \<Longrightarrow> takes t d s'"
  using same_fold_trans same_fold_sym unfolding takes_def by blast

lemma chain_cong: "chain s ds \<Longrightarrow> same_fold (fold_of s) (fold_of t) \<Longrightarrow> chain t ds"
  by (cases ds rule: list.exhaust) (auto intro: takes_cong)

lemma written_chain:
  assumes "shape_for heap sh s" and "list_all state_ok states"
  shows "chain s (written heap sh states) \<and>
     same_fold (fold_of (last (s # map snd (written heap sh states)))) (fold_of (last (s # states)))"
  using assms
proof (induction states arbitrary: heap sh s)
  case (Cons nxt rest)
  obtain delta heap' sh' where d: "deltaFrom heap sh nxt = (delta, heap', sh')" by (metis prod_cases3)
  have ok: "state_ok nxt" "list_all state_ok rest" using Cons.prems by simp_all
  note spec = deltaFrom_spec [OF Cons.prems(1) ok(1) d]
  show ?case
  proof (cases delta)
    case None
    then have same: "same_fold (fold_of s) (fold_of nxt)" by (rule spec(3))
    have "shape_for heap' sh s" using Cons.prems(1) spec(2) by (auto simp: shape_for_def intro: holds_mono)
    note IH = Cons.IH [OF shape_for_same [OF this same] ok(2)]
    then show ?thesis using None d same
      by (auto intro: chain_cong same_fold_sym same_fold_trans)
  next
    case (Some e)
    have "takes s e nxt"
      using spec(4) [OF Some] spec(5) [OF Some] by (auto simp: takes_def)
    with Cons.IH [OF spec(1) ok(2)] show ?thesis using Some d by simp
  qed
qed (simp add: same_fold_def same_map_def)

fun log_lines :: "int \<Rightarrow> json list \<Rightarrow> jstring list" where
  "log_lines seq [] = []"
| "log_lines seq (d # ds) = record_line (seq + 1) d # log_lines (seq + 1) ds"

definition log_text :: "int \<Rightarrow> json list \<Rightarrow> jstring" where
  "log_text seq ds = concat (map (\<lambda>l. l @ [newline]) (log_lines seq ds))"

lemma log_lines_append: "log_lines seq (ds @ es) = log_lines seq ds @ log_lines (seq + int (length ds)) es"
  by (induction ds arbitrary: seq) (simp_all add: add.assoc add.commute)

lemma length_log_lines [simp]: "length (log_lines seq ds) = length ds"
  by (induction ds arbitrary: seq) auto

lemma take_log_lines: "take j (log_lines seq ds) = log_lines seq (take j ds)"
  by (induction ds arbitrary: seq j) (auto simp: take_Cons split: nat.splits)

lemma chain_objs: "chain s ds \<Longrightarrow> d \<in> set (map fst ds) \<Longrightarrow> \<exists>kvs. d = JObj kvs \<and> json_ok d"
  by (induction s ds rule: chain.induct) (auto simp: takes_def)

lemma log_lines_clean:
  assumes "0 \<le> seq" and "\<And>d. d \<in> set ds \<Longrightarrow> json_ok d" and "l \<in> set (log_lines seq ds)"
  shows "newline \<notin> set l"
  using assms
proof (induction ds arbitrary: seq)
  case (Cons d ds)
  from Cons.prems(3) consider "l = record_line (seq + 1) d" | "l \<in> set (log_lines (seq + 1) ds)" by auto
  then show ?case
  proof cases
    case 1
    then show ?thesis using record_line_clean [of "seq + 1" d newline] Cons.prems(1,2) by simp
  next
    case 2
    then show ?thesis using Cons.IH [of "seq + 1"] Cons.prems(1,2) by simp
  qed
qed simp

lemma decode_line:
  assumes "0 \<le> seq" and "seq < MAX_SAFE" and "\<exists>kvs. d = JObj kvs \<and> json_ok d"
  shows "decodeRecord (record_line (seq + 1) d) = Inr (seq + 1, d)" and "record_line (seq + 1) d \<noteq> []"
  using assms decode_record_line [of "seq + 1"] by (auto simp: record_line_def)

lemma replay_skip:
  assumes "0 \<le> seq" and "seq + int (length ds) \<le> from" and "from \<le> MAX_SAFE"
    and "\<And>d. d \<in> set ds \<Longrightarrow> \<exists>kvs. d = JObj kvs \<and> json_ok d"
  shows "replay_lines base from r n (log_lines seq ds @ rest) = replay_lines base from r (n + length ds) rest"
  using assms
proof (induction ds arbitrary: seq n)
  case (Cons d ds)
  then have "decodeRecord (record_line (seq + 1) d) = Inr (seq + 1, d)" "record_line (seq + 1) d \<noteq> []"
    using decode_line [of seq d] by simp_all
  with Cons show ?case by simp
qed simp

definition current :: "json \<Rightarrow> replay_run \<Rightarrow> fold_state" where
  "current base r = (case rr_work r of None \<Rightarrow> copyOf base | Some w \<Rightarrow> w)"

lemma replay_apply:
  assumes "chain s ds" and "rr_seq r = seq" and "0 \<le> from" and "from \<le> seq"
    and "seq + int (length ds) \<le> MAX_SAFE" and "rr_firstKept r \<longrightarrow> seq = from"
    and "same_fold (current base r) (fold_of s)" and "rr_stopped r = None"
  shows "\<exists>r'. replay_lines base from r n (log_lines seq (map fst ds)) = Some r' \<and>
     rr_seq r' = seq + int (length ds) \<and> rr_applied r' = rr_applied r + length ds \<and>
     same_fold (current base r') (fold_of (last (s # map snd ds))) \<and> rr_stopped r' = None"
  using assms
proof (induction ds arbitrary: s r seq n)
  case (Cons e ds)
  obtain d s' where e: "e = (d, s')" by fastforce
  have t: "takes s d s'" "chain s' ds" using Cons.prems(1) e by simp_all
  then have "\<exists>kvs. d = JObj kvs \<and> json_ok d" by (auto simp: takes_def)
  then have dec: "decodeRecord (record_line (seq + 1) d) = Inr (seq + 1, d)" "record_line (seq + 1) d \<noteq> []"
    using decode_line [of seq d] Cons.prems(3,4,5) by simp_all
  obtain w' where w': "foldInto (current base r) d = Some w'" "same_fold w' (fold_of s')"
    using t(1) Cons.prems(7) by (auto simp: takes_def)
  let ?r = "\<lparr>rr_seq = seq + 1, rr_applied = rr_applied r + 1, rr_work = Some w',
               rr_firstKept = False, rr_stopped = None\<rparr>"
  have "same_fold (current base ?r) (fold_of s')" using w'(2) by (simp add: current_def)
  then obtain r' where r': "replay_lines base from ?r (n + 1) (log_lines (seq + 1) (map fst ds)) = Some r'"
    "rr_seq r' = seq + 1 + int (length ds)" "rr_applied r' = rr_applied r + 1 + length ds"
    "same_fold (current base r') (fold_of (last (s' # map snd ds)))" "rr_stopped r' = None"
    using Cons.IH [OF t(2), of ?r "seq + 1" "n + 1"] Cons.prems(3-5) by auto
  have "replay_lines base from r n (log_lines seq (map fst (e # ds))) = Some r'"
    using dec w'(1) Cons.prems(2,4,6) r'(1) by (auto simp: e current_def)
  with r' show ?case by (auto simp: e)
qed simp

lemma copyOf_state_of: "copyOf (state_of w) = w"
  by (cases w) (auto simp: copyOf_def state_of_def field_append field_Cons field_Nil entries_of_def
      split: option.splits)

lemma chain_append: "chain s (ds @ es) \<longleftrightarrow> chain s ds \<and> chain (last (s # map snd ds)) es"
  by (induction ds arbitrary: s) auto

lemma replay_cut:
  assumes "chain s (ds @ es)" and "0 \<le> a" and "a + int (length (ds @ es)) \<le> MAX_SAFE"
    and base: "same_fold (copyOf base) (fold_of (last (s # map snd ds)))"
  shows "\<exists>r j. replay base (a + int (length ds)) (take m (log_text a (map fst (ds @ es)))) = Some r \<and>
     j \<le> length es \<and> rp_seq r = a + int (length ds + j) \<and> rp_applied r = j \<and>
     same_fold (copyOf (rp_state r)) (fold_of (last (s # map snd (ds @ take j es)))) \<and>
     (rp_stopped r = None \<or> (\<exists>k. rp_stopped r = Some (Torn, k))) \<and>
     (length (log_text a (map fst (ds @ es))) \<le> m \<longrightarrow> j = length es \<and> rp_stopped r = None)"
proof -
  let ?all = "map fst (ds @ es)" let ?from = "a + int (length ds)"
  let ?r0 = "\<lparr>rr_seq = ?from, rr_applied = 0, rr_work = None, rr_firstKept = True, rr_stopped = None\<rparr>"
  have objs: "\<exists>kvs. d = JObj kvs \<and> json_ok d" if "d \<in> set ?all" for d
    by (rule chain_objs [OF assms(1) that])
  then have "newline \<notin> set l" if "l \<in> set (log_lines a ?all)" for l
    using that assms(2) by (intro log_lines_clean [of a ?all]) auto
  then obtain i partial where cut:
    "split_on newline (take m (log_text a ?all)) = take i (log_lines a ?all) @ [partial]"
    "i \<le> length (log_lines a ?all)"
    "m \<ge> length (log_text a ?all) \<Longrightarrow> i = length (log_lines a ?all) \<and> partial = []"
    unfolding log_text_def using split_cut [of "log_lines a ?all" m] by metis
  define j where "j = i - length ds"
  have lines: "take i (log_lines a ?all) =
      log_lines a (map fst (take i ds)) @ log_lines ?from (map fst (take j es))"
  proof (cases "i \<le> length ds")
    case True
    then show ?thesis by (simp add: take_log_lines j_def take_map log_lines_append)
  next
    case False
    then show ?thesis by (simp add: take_log_lines j_def take_map log_lines_append)
  qed
  have j: "j \<le> length es" using cut(2) by (simp add: j_def)
  have ch: "chain (last (s # map snd ds)) (take j es)"
    using assms(1) chain_append append_take_drop_id by metis
  have "0 \<le> ?from" using assms(2) by simp
  moreover have "?from + int (length (take j es)) \<le> MAX_SAFE" using assms(3) j by simp
  moreover have "same_fold (current base ?r0) (fold_of (last (s # map snd ds)))"
    using base by (simp add: current_def)
  ultimately obtain r' where r':
    "replay_lines base ?from ?r0 (length (take i ds)) (log_lines ?from (map fst (take j es))) = Some r'"
    "rr_seq r' = ?from + int (length (take j es))" "rr_applied r' = length (take j es)"
    "same_fold (current base r') (fold_of (last (last (s # map snd ds) # map snd (take j es))))"
    "rr_stopped r' = None"
    using replay_apply [OF ch, of ?r0 ?from ?from base "length (take i ds)"] by auto
  have "replay_lines base ?from ?r0 0 (take i (log_lines a ?all)) = Some r'"
    unfolding lines using r'(1) assms(2,3) objs
  proof (subst replay_skip)
    fix d assume "d \<in> set (map fst (take i ds))"
    then have "d \<in> set ?all" by (auto dest: in_set_takeD)
    then show "\<exists>kvs. d = JObj kvs \<and> json_ok d" by (rule objs)
  qed auto
  note loop = this
  have run: "replay base ?from (take m (log_text a ?all)) = Some
      \<lparr>rp_state = (case rr_work r' of None \<Rightarrow> base | Some w \<Rightarrow> state_of w),
       rp_seq = rr_seq r', rp_applied = rr_applied r',
       rp_stopped = (if rr_stopped r' = None \<and> partial \<noteq> []
                     then Some (Torn, length (take i (log_lines a ?all))) else rr_stopped r')\<rparr>"
    by (simp only: replay_def cut(1) Let_def butlast_snoc last_snoc loop option.case)
  have st: "same_fold (copyOf (case rr_work r' of None \<Rightarrow> base | Some w \<Rightarrow> state_of w))
      (fold_of (last (s # map snd (ds @ take j es))))"
  proof -
    have "last (last (s # map snd ds) # map snd (take j es)) = last (s # map snd (ds @ take j es))"
      by (cases "take j es = []") (simp_all add: last_append del: take_eq_Nil)
    then have "same_fold (current base r') (fold_of (last (s # map snd (ds @ take j es))))"
      using r'(4) by (simp only:)
    then show ?thesis by (cases "rr_work r'") (simp_all add: current_def copyOf_state_of)
  qed
  have full: "length (log_text a ?all) \<le> m \<Longrightarrow> j = length es \<and> partial = []"
    using cut(3) by (auto simp: j_def)
  show ?thesis
    using run st full r'(2,3,5) j by (intro exI conjI) (assumption | auto)+
qed

text \<open>The log that appending the records one by one leaves, numbered from \<open>seq + 1\<close>.\<close>

fun encoded_log :: "int \<Rightarrow> json list \<Rightarrow> jstring" where
  "encoded_log seq [] = []"
| "encoded_log seq (d # ds) =
     (case encodeRecord (seq + 1) d of Some l \<Rightarrow> l | None \<Rightarrow> []) @ encoded_log (seq + 1) ds"

lemma encoded_log_text:
  "0 \<le> seq \<Longrightarrow> seq + int (length ds) \<le> MAX_SAFE \<Longrightarrow> encoded_log seq ds = log_text seq ds"
  by (induction ds arbitrary: seq) (simp_all add: encodeRecord_line log_text_def)

lemma shapeOf_state:
  assumes "state_ok s" and "shapeOf heap (state_json s) = Some (heap', sh)"
  shows "shape_for heap' sh s"
proof -
  obtain h1 es h2 rs where
    es: "serialise_keys heap [] (ss_entries s) = (h1, es)" and
    rs: "serialise_keys h1 [] (ss_remote s) = (h2, rs)" by fastforce
  have "state_json s \<noteq> JNull" by (simp add: state_json_def)
  then have out: "heap' = h2" "sh = \<lparr>sh_cursor = Some (JNum (ss_cursor s)), sh_entries = es, sh_remote = rs,
      sh_pending = map JStr (ss_pending s)\<rparr>"
    using assms(2) es rs
    by (auto simp: shapeOf_def serialised_def state_json_def field_Cons listOf_def)
  have "holds h1 es (ss_entries s)" "h1 \<le> h2" "holds h2 rs (ss_remote s)"
    using serialise_keys_spec [OF _ es, of 0] serialise_keys_spec [OF _ rs, of 0] assms(1)
    by (simp_all add: state_ok_def)
  then show ?thesis by (simp add: out shape_for_def holds_mono)
qed

lemma shapeOf_some: "\<exists>heap' sh. shapeOf heap (state_json s) = Some (heap', sh)"
  by (simp add: shapeOf_def state_json_def case_prod_beta' Let_def)

lemma map_of_all_None: "(\<And>p. map_of kvs p = None) \<Longrightarrow> kvs = []"
  by (cases kvs) (auto, metis option.distinct(1))

lemma deltaFrom_settled:
  assumes "shape_for heap sh s" and "state_ok next" and "same_fold (fold_of s) (fold_of next)"
  shows "fst (deltaFrom heap sh next) = None"
proof -
  obtain heap1 es heap2 rs where
    es: "serialise_keys heap (sh_entries sh) (ss_entries next) = (heap1, es)" and
    rs: "serialise_keys heap1 (sh_remote sh) (ss_remote next) = (heap2, rs)" by fastforce
  obtain E D R U where
    ch1: "changed (sh_entries sh) es (ss_entries next) = (E, D)" and
    ch2: "changed (sh_remote sh) rs (ss_remote next) = (R, U)" by fastforce
  have hold: "holds heap (sh_entries sh) (ss_entries s)" "holds heap (sh_remote sh) (ss_remote s)"
    and cur: "sh_cursor sh = Some (JNum (ss_cursor s))" and pend: "sh_pending sh = map JStr (ss_pending s)"
    using assms(1) by (simp_all add: shape_for_def)
  have ok: "obj_ok (ss_entries next)" "obj_ok (ss_remote next)" using assms(2) by (simp_all add: state_ok_def)
  note e = changed_spec [OF hold(1) ok(1) es ch1]
  have "holds heap1 (sh_remote sh) (ss_remote s)" using holds_mono [OF hold(2)] e(5) by simp
  note r = changed_spec [OF this ok(2) rs ch2]
  have same: "map_of (ss_entries s) p = map_of (ss_entries next) p"
    "map_of (ss_remote s) p = map_of (ss_remote next) p" for p
    using assms(3) by (simp_all add: same_fold_def fold_of_def same_map_def)
  have "E = []" "R = []" using map_of_all_None e(1) r(1) same by (metis, metis)
  moreover have "p \<notin> set D" "p \<notin> set U" for p
    using e(2) [of p] r(2) [of p] same [of p] by auto
  then have "D = []" "U = []" by (metis hd_in_set)+
  moreover have "ss_cursor s = ss_cursor next" "map JStr (ss_pending s) = map JStr (ss_pending next)"
    using assms(3) by (simp_all add: same_fold_def fold_of_def)
  ultimately show ?thesis
    using es rs ch1 ch2 cur pend samePending_iff [of "ss_pending next" "ss_pending next"]
    by (simp add: deltaFrom_def serialised_def Let_def)
qed

section \<open>Properties\<close>

text \<open>C13. What one pass changed, folded into the old state, gives the new one: same cursor, same
  pending list, the same entries and remote records path by path. No delta is written exactly when
  nothing changed, so a settled vault writes nothing.\<close>

theorem delta_reaches_next:
  assumes "state_ok prev" and "state_ok next"
  shows "case deltaBetween (state_json prev) next of
      None \<Rightarrow> False
    | Some None \<Rightarrow> same_fold (fold_of prev) (fold_of next)
    | Some (Some d) \<Rightarrow> \<not> same_fold (fold_of prev) (fold_of next) \<and>
        (\<exists>s. applyDelta (state_json prev) d = Some s \<and> same_fold (copyOf s) (fold_of next))"
proof -
  obtain heap sh where sh: "shapeOf 0 (state_json prev) = Some (heap, sh)" using shapeOf_some by blast
  have for': "shape_for heap sh prev" by (rule shapeOf_state [OF assms(1) sh])
  obtain delta heap' sh' where d: "deltaFrom heap sh next = (delta, heap', sh')" by (metis prod_cases3)
  note spec = deltaFrom_spec [OF for' assms(2) d]
  have refl: "same_fold (copyOf (state_json prev)) (fold_of prev)"
    by (simp add: copyOf_state_json same_fold_def same_map_def)
  show ?thesis
  proof (cases delta)
    case None
    then show ?thesis using sh d spec(3) by (simp add: deltaBetween_def)
  next
    case (Some e)
    then have "\<not> same_fold (fold_of prev) (fold_of next)"
      using deltaFrom_settled [OF for' assms(2)] d by auto
    moreover obtain w where "foldInto (copyOf (state_json prev)) e = Some w" "same_fold w (fold_of next)"
      using spec(4) [OF Some refl] by blast
    ultimately show ?thesis
      using sh d Some by (simp add: deltaBetween_def applyDelta_def copyOf_state_of)
  qed
qed

lemma delta_reaches_next_witness:
  "deltaBetween (state_json \<lparr>ss_cursor = 1, ss_entries = [], ss_remote = [], ss_pending = []\<rparr>)
     \<lparr>ss_cursor = 2, ss_entries = [], ss_remote = [], ss_pending = []\<rparr> \<noteq> None"
proof
  let ?p = "\<lparr>ss_cursor = 1, ss_entries = [], ss_remote = [], ss_pending = []\<rparr>"
  let ?n = "\<lparr>ss_cursor = 2, ss_entries = [], ss_remote = [], ss_pending = []\<rparr>"
  assume "deltaBetween (state_json ?p) ?n = None"
  with delta_reaches_next [of ?p ?n] show False by (simp add: state_ok_def obj_ok_def)
qed

text \<open>C7. A crash leaves a usable index. Take any run of saves over a saved state, the log their
  records make, and a snapshot holding the first \<open>i\<close> of them (the log may not have been truncated
  yet). However short the log was cut, even inside a record, replay succeeds and gives exactly the
  state after some number of the records, at least \<open>i\<close>; nothing already in the snapshot is applied
  again; a whole log gives the last state; and the only trouble ever reported is a torn tail.\<close>

theorem replay_survives_crash:
  assumes "state_ok s" and "list_all state_ok states"
    and "shapeOf heap (state_json s) = Some (heap', sh)"
    and "recs = written heap' sh states" and "i \<le> length recs"
    and "0 \<le> a" and "a + int (length recs) \<le> MAX_SAFE"
    and "snapshot = last (s # map snd (take i recs))"
  shows "\<exists>r j. replay (state_json snapshot) (a + int i) (take m (encoded_log a (map fst recs))) = Some r \<and>
     i + j \<le> length recs \<and> rp_seq r = a + int (i + j) \<and> rp_applied r = j \<and>
     same_fold (copyOf (rp_state r)) (fold_of (last (s # map snd (take (i + j) recs)))) \<and>
     (rp_stopped r = None \<or> (\<exists>k. rp_stopped r = Some (Torn, k))) \<and>
     (length (encoded_log a (map fst recs)) \<le> m \<longrightarrow>
        i + j = length recs \<and> rp_stopped r = None \<and>
        same_fold (copyOf (rp_state r)) (fold_of (last (s # states))))"
proof -
  have ch: "chain s recs" "same_fold (fold_of (last (s # map snd recs))) (fold_of (last (s # states)))"
    using written_chain [OF shapeOf_state [OF assms(1,3)] assms(2)] assms(4) by simp_all
  have len: "length (take i recs) = i" using assms(5) by simp
  have base: "same_fold (copyOf (state_json snapshot)) (fold_of snapshot)"
    by (simp add: copyOf_state_json same_fold_def same_map_def)
  have logt: "encoded_log a (map fst recs) = log_text a (map fst recs)"
    using assms(6,7) by (intro encoded_log_text) simp_all
  obtain r j where r: "replay (state_json snapshot) (a + int i) (take m (encoded_log a (map fst recs))) = Some r"
    "j \<le> length (drop i recs)" "rp_seq r = a + int (i + j)" "rp_applied r = j"
    "same_fold (copyOf (rp_state r)) (fold_of (last (s # map snd (take i recs @ take j (drop i recs)))))"
    "rp_stopped r = None \<or> (\<exists>k. rp_stopped r = Some (Torn, k))"
    "length (encoded_log a (map fst recs)) \<le> m \<longrightarrow> j = length (drop i recs) \<and> rp_stopped r = None"
    using replay_cut [of s "take i recs" "drop i recs" a "state_json snapshot" m] ch(1) assms(6-8) base
    unfolding append_take_drop_id len logt by auto
  have "take i recs @ take j (drop i recs) = take (i + j) recs" by (simp add: take_add)
  with r(5) have st: "same_fold (copyOf (rp_state r)) (fold_of (last (s # map snd (take (i + j) recs))))"
    by simp
  have "i + j \<le> length recs" using r(2) assms(5) by simp
  moreover have "length (encoded_log a (map fst recs)) \<le> m \<longrightarrow> i + j = length recs \<and> rp_stopped r = None \<and>
        same_fold (copyOf (rp_state r)) (fold_of (last (s # states)))"
  proof
    assume "length (encoded_log a (map fst recs)) \<le> m"
    then have whole: "i + j = length recs" "rp_stopped r = None" using r(7) assms(5) by auto
    then have "same_fold (copyOf (rp_state r)) (fold_of (last (s # map snd recs)))"
      using st by simp
    with whole ch(2) show "i + j = length recs \<and> rp_stopped r = None \<and>
        same_fold (copyOf (rp_state r)) (fold_of (last (s # states)))"
      using same_fold_trans by blast
  qed
  ultimately show ?thesis using r(1,3,4,6) st by blast
qed

lemma replay_survives_crash_witness:
  "\<exists>r j. replay (state_json \<lparr>ss_cursor = 5, ss_entries = [], ss_remote = [], ss_pending = []\<rparr>) 0 [] = Some r
     \<and> rp_applied r = j"
proof -
  let ?s = "\<lparr>ss_cursor = 5, ss_entries = [], ss_remote = [], ss_pending = []\<rparr>"
  have "shapeOf 0 (state_json ?s) = Some (0, \<lparr>sh_cursor = Some (JNum 5), sh_entries = [], sh_remote = [], sh_pending = []\<rparr>)"
    by (simp add: shapeOf_def state_json_def serialised_def field_Cons listOf_def)
  from replay_survives_crash [OF _ _ this, of "[]" "[]" 0 0 ?s 0] show ?thesis
    by (auto simp: state_ok_def obj_ok_def MAX_SAFE_def)
qed

lemma ascii_ucast_inj:
  assumes "c < 0x80" and "d < 0x80" and "(ucast c :: byte) = ucast d"
  shows "c = (d :: jchar)"
proof -
  have small: "unat c < 128" "unat d < 128" using assms(1,2) by (simp_all add: word_less_nat_alt)
  have "unat (ucast c :: byte) = unat (ucast d :: byte)" using assms(3) by (simp only:)
  then have "unat c mod 256 = unat d mod 256" by (simp add: unsigned_ucast_eq take_bit_eq_mod)
  then have "unat c = unat d" using small by simp
  then show ?thesis by (rule unsigned_word_eqI)
qed

lemma record_damaged:
  assumes "1 \<le> seq" and "seq \<le> MAX_SAFE" and "stringify delta = p @ c # t"
    and "c < 0x80" and "d < 0x80" and "d \<noteq> 0" and "c \<noteq> d" and "0 \<notin> set (stringify delta)"
  shows "decodeRecord (integer_text seq @ [32] @ hex8 (crc32 (utf8_encode (stringify delta))) @ [32] @ p @ d # t)
    = Inl Checksum"
proof -
  let ?n = "integer_text seq" let ?h = "hex8 (crc32 (utf8_encode (stringify delta)))"
  let ?after = "?h @ 32 # p @ d # t"
  have "32 \<notin> set ?n" using seq_text(2) [OF assms(1), of 32] by auto
  then have gap1: "index_of (?n @ 32 # ?after) 32 = int (length ?n)" by (rule index_of_first)
  have "32 \<notin> set ?h" using hex8_lower lower_hex_not by (auto simp: list_all_iff)
  then have gap2: "index_of ?after 32 = int (length ?h)" by (rule index_of_first)
  have n: "?n \<noteq> []" using seq_text(1) [OF assms(1)] by simp
  have after: "drop (nat (int (length ?n) + 1)) (?n @ 32 # ?after) = ?after"
    by (simp add: nat_add_distrib)
  have "js_number ?n = Some (of_nat (nat seq))"
    using seq_text(1) [OF assms(1)] js_number_decimal by simp
  then have num: "safe_integer (js_number ?n) = Some seq"
    using assms(1,2) by (simp add: safe_integer_def)
  have "0 \<notin> set ?n" "0 \<notin> set ?h"
    using seq_text(2) [OF assms(1), of 0] hex8_lower lower_hex_not by (auto simp: list_all_iff is_digit_def)
  then have nul: "0 \<notin> set (?n @ 32 # ?after)" using assms(3,6,8) by auto
  have rest: "drop (nat (int (length ?h)) + 1) ?after = p @ d # t" "take (nat (int (length ?h))) ?after = ?h"
    by simp_all
  have "(ucast c :: byte) \<noteq> ucast d"
    using ascii_ucast_inj [OF assms(4,5)] assms(7) by blast
  then have "crc32 (utf8_encode (p @ d # t)) \<noteq> crc32 (utf8_encode (stringify delta))"
    using crc32_one_byte assms(3-5)
    by (metis utf8_encode_append_ascii utf8_encode_ascii)
  then have "hex8 (crc32 (utf8_encode (p @ d # t))) \<noteq> ?h" using hex8_inj by blast
  then show ?thesis
    using nul n num assms(1) hex8_lower
    by (simp add: decodeRecord_def gap1 [simplified] after [simplified] gap2 [simplified] Let_def rest del: set_append)
qed

text \<open>C22. A record reads back as it was written, and a record damaged in one ASCII character of its body
  is refused by its checksum, whatever ASCII character (other than NUL) it became.\<close>

theorem record_codec:
  assumes "1 \<le> seq" and "seq \<le> MAX_SAFE" and "json_ok (JObj kvs)"
  shows "\<exists>head. encodeRecord seq (JObj kvs) = Some (head @ stringify (JObj kvs) @ [newline]) \<and>
    decodeRecord (head @ stringify (JObj kvs)) = Inr (seq, JObj kvs) \<and>
    newline \<notin> set (head @ stringify (JObj kvs)) \<and>
    (\<forall>p c t d. stringify (JObj kvs) = p @ c # t \<and> c < 0x80 \<and> d < 0x80 \<and> d \<noteq> 0 \<and> c \<noteq> d \<longrightarrow>
       decodeRecord (head @ p @ d # t) = Inl Checksum)"
proof (intro exI conjI allI impI)
  let ?head = "integer_text seq @ [32] @ hex8 (crc32 (utf8_encode (stringify (JObj kvs)))) @ [32]"
  have line: "?head @ stringify (JObj kvs) = record_line seq (JObj kvs)" by (simp add: record_line_def)
  show "encodeRecord seq (JObj kvs) = Some (?head @ stringify (JObj kvs) @ [newline])"
    using encodeRecord_line [OF assms(1,2), of "JObj kvs"] by (simp add: record_line_def)
  show "decodeRecord (?head @ stringify (JObj kvs)) = Inr (seq, JObj kvs)"
    unfolding line by (rule decode_record_line [OF assms])
  show "newline \<notin> set (?head @ stringify (JObj kvs))"
    unfolding line using record_line_clean [OF assms(1,3)] by blast
  fix p c t d
  assume "stringify (JObj kvs) = p @ c # t \<and> c < 0x80 \<and> d < 0x80 \<and> d \<noteq> 0 \<and> c \<noteq> d"
  then show "decodeRecord (?head @ p @ d # t) = Inl Checksum"
    using record_damaged [OF assms(1,2), of "JObj kvs" p c t d]
      printable_no [OF printable_stringify [OF assms(3)], of 0] by simp
qed

lemma record_codec_witness:
  "\<exists>head. decodeRecord (head @ stringify (JObj [])) = Inr (1, JObj [])
     \<and> decodeRecord (head @ [123, 126]) = Inl Checksum"
proof -
  have ok: "json_ok (JObj [])" by simp
  have bounds: "1 \<le> (1 :: int)" "1 \<le> MAX_SAFE" by (simp_all add: MAX_SAFE_def)
  obtain head where head: "decodeRecord (head @ stringify (JObj [])) = Inr (1, JObj [])"
    and bad: "\<And>p c t d. stringify (JObj []) = p @ c # t \<and> c < 0x80 \<and> d < 0x80 \<and> d \<noteq> 0 \<and> c \<noteq> d \<longrightarrow>
       decodeRecord (head @ p @ d # t) = Inl Checksum"
    using record_codec [OF bounds ok] by blast
  have "decodeRecord (head @ [123] @ 126 # []) = Inl Checksum"
    using bad [of "[123]" 125 "[]" 126] by simp
  with head show ?thesis by auto
qed

text \<open>Sequence continuity is checked only where the log joins its snapshot: a log whose records are
  numbered 1 and 3 is replayed whole, the second record over a state it was not computed from.\<close>

theorem replay_misses_inner_gap:
  assumes "takes s d s'" and "takes s' e s''"
  shows "\<exists>r. replay (state_json s) 0 (record_line 1 d @ newline # record_line 3 e @ [newline]) = Some r \<and>
     rp_stopped r = None \<and> rp_applied r = 2 \<and> rp_seq r = 3"
proof -
  have objs: "\<exists>kvs. d = JObj kvs \<and> json_ok d" "\<exists>kvs. e = JObj kvs \<and> json_ok e"
    using assms by (auto simp: takes_def)
  have d: "decodeRecord (record_line 1 d) = Inr (1, d)" "record_line 1 d \<noteq> []" "newline \<notin> set (record_line 1 d)"
    using decode_line [of 0 d] record_line_clean [of 1 d newline] objs by (auto simp: MAX_SAFE_def)
  have e: "decodeRecord (record_line 3 e) = Inr (3, e)" "record_line 3 e \<noteq> []" "newline \<notin> set (record_line 3 e)"
    using decode_line [of 2 e] record_line_clean [of 3 e newline] objs by (auto simp: MAX_SAFE_def)
  have "same_fold (copyOf (state_json s)) (fold_of s)"
    by (simp add: copyOf_state_json same_fold_def same_map_def)
  then obtain w where w: "foldInto (copyOf (state_json s)) d = Some w" "same_fold w (fold_of s')"
    using assms(1) by (auto simp: takes_def)
  then obtain v where v: "foldInto w e = Some v" using assms(2) by (auto simp: takes_def)
  have "split_on newline (record_line 1 d @ newline # record_line 3 e @ [newline])
      = [record_line 1 d, record_line 3 e, []]"
    by (simp add: split_on_line [OF d(3)] split_on_line [OF e(3)])
  then show ?thesis using d e w v by (simp add: replay_def Let_def)
qed

lemma replay_misses_inner_gap_witness:
  "\<exists>r. replay (state_json \<lparr>ss_cursor = 0, ss_entries = [], ss_remote = [], ss_pending = []\<rparr>) 0
       (record_line 1 (JObj []) @ newline # record_line 3 (JObj []) @ [newline]) = Some r \<and> rp_applied r = 2"
proof -
  let ?s = "\<lparr>ss_cursor = 0, ss_entries = [], ss_remote = [], ss_pending = []\<rparr>"
  have "foldInto w (JObj []) = Some w" for w
    by (simp add: foldInto_def field_Nil iterate_or_empty_def entries_of_def assign_all_def delete_all_def)
  then have "takes ?s (JObj []) ?s" by (simp add: takes_def)
  from replay_misses_inner_gap [OF this this] show ?thesis by blast
qed

end
