(* ===== verification/Stored_State.thy ===== *)
theory Stored_State
  imports Index_Journal
begin

text \<open>
  \<open>client/src/core/stored-state.ts\<close>: what a saved index has to look like before the engine believes
  it. Every check is field by field and the first thing wrong is what the refusal names.
\<close>

section \<open>Kinds of values\<close>

definition isObject :: "json \<Rightarrow> bool" where
  "isObject v = (case v of JObj _ \<Rightarrow> True | _ \<Rightarrow> False)"

text \<open>The count a value is, when it is one: a safe integer that is not negative.\<close>

definition count_of :: "json \<Rightarrow> int option" where
  "count_of v =
     (case v of
        JNum n \<Rightarrow> if 0 \<le> n \<and> n \<le> MAX_SAFE then Some n else None
      | JReal t \<Rightarrow> (case safe_integer (js_number t) of
            Some n \<Rightarrow> if 0 \<le> n then Some n else None | None \<Rightarrow> None)
      | _ \<Rightarrow> None)"

definition isCount :: "json option \<Rightarrow> bool" where
  "isCount v = (case v of Some w \<Rightarrow> count_of w \<noteq> None | None \<Rightarrow> False)"

definition is_path :: "jstring \<Rightarrow> bool" where
  "is_path s \<longleftrightarrow> s \<noteq> [] \<and> 0 \<notin> set s"

definition isPath :: "json \<Rightarrow> bool" where
  "isPath v = (case v of JStr s \<Rightarrow> is_path s | _ \<Rightarrow> False)"

definition is_chunk_name :: "jstring \<Rightarrow> bool" where
  "is_chunk_name s \<longleftrightarrow> length s = 64 \<and> list_all is_lower_hex s"

definition isChunkName :: "json \<Rightarrow> bool" where
  "isChunkName v = (case v of JStr s \<Rightarrow> is_chunk_name s | _ \<Rightarrow> False)"

definition is_string :: "json option \<Rightarrow> bool" where
  "is_string v = (case v of Some (JStr _) \<Rightarrow> True | _ \<Rightarrow> False)"

definition is_boolean :: "json option \<Rightarrow> bool" where
  "is_boolean v = (case v of Some (JBool _) \<Rightarrow> True | _ \<Rightarrow> False)"

section \<open>The checks\<close>

text \<open>What a refusal names: a field of the state, or a field of one record in it.\<close>

datatype refusal =
    Refused string
  | Refused_entry jstring string
  | Refused_remote jstring string
  | Refused_pending nat
  | Refused_orphan jstring

text \<open>The first of a list of checks that refuses.\<close>

fun first_refusal :: "('a \<Rightarrow> 'e option) \<Rightarrow> 'a list \<Rightarrow> 'e option" where
  "first_refusal check [] = None"
| "first_refusal check (x # xs) =
     (case check x of Some e \<Rightarrow> Some e | None \<Rightarrow> first_refusal check xs)"

definition synced_without_chunks :: "json \<Rightarrow> bool" where
  "synced_without_chunks entry =
     (case field entry (lit ''synchash'') of
        Some (JStr synchash) \<Rightarrow>
          synchash \<noteq> [] \<and> synchash \<noteq> lit ''-empty-''
          \<and> field entry (lit ''folder'') \<noteq> Some (JBool True)
          \<and> field entry (lit ''chunks'') = Some (JArr [])
          \<and> field entry (lit ''hash'') = Some (JStr synchash)
      | _ \<Rightarrow> False)"

definition checkEntry :: "jstring \<times> json \<Rightarrow> refusal option" where
  "checkEntry pe =
     (let (path, entry) = pe;
          refuse = Refused_entry path;
          count_field = (\<lambda>f. if field entry (lit f) \<noteq> None \<and> \<not> isCount (field entry (lit f))
                            then Some (refuse f) else None);
          string_field = (\<lambda>f. if field entry (lit f) \<noteq> None \<and> \<not> is_string (field entry (lit f))
                             then Some (refuse f) else None)
      in if \<not> is_path path then Some (refuse ''key'')
         else if \<not> isObject entry then Some (refuse ''object'')
         else if field entry (lit ''path'') \<noteq> None \<and> field entry (lit ''path'') \<noteq> Some (JStr path)
         then Some (refuse ''path'')
         else case first_refusal count_field [''ctime'', ''mtime'', ''size'', ''syncuid'', ''synctime''] of
           Some e \<Rightarrow> Some e
         | None \<Rightarrow>
             if field entry (lit ''folder'') \<noteq> None \<and> \<not> is_boolean (field entry (lit ''folder''))
             then Some (refuse ''folder'')
             else case first_refusal string_field [''hash'', ''synchash'', ''prev'', ''changeId''] of
               Some e \<Rightarrow> Some e
             | None \<Rightarrow>
                 if (case field entry (lit ''chunks'') of
                       None \<Rightarrow> False
                     | Some (JArr chunks) \<Rightarrow> \<not> list_all isChunkName chunks
                     | Some _ \<Rightarrow> True)
                 then Some (refuse ''chunks'')
                 else if synced_without_chunks entry then Some (refuse ''synced'')
                 else None)"

definition checkRemote :: "jstring \<times> json \<Rightarrow> refusal option" where
  "checkRemote pe =
     (let (path, state) = pe;
          refuse = Refused_remote path;
          boolean_field = (\<lambda>f. if \<not> is_boolean (field state (lit f)) then Some (refuse f) else None);
          count_field = (\<lambda>f. if \<not> isCount (field state (lit f)) then Some (refuse f) else None)
      in if \<not> is_path path then Some (refuse ''key'')
         else if \<not> isObject state then Some (refuse ''object'')
         else if \<not> isCount (field state (lit ''uid''))
              \<or> (case field state (lit ''uid'') of Some u \<Rightarrow> count_of u = Some 0 | None \<Rightarrow> False)
         then Some (refuse ''uid'')
         else case first_refusal boolean_field [''folder'', ''deleted''] of
           Some e \<Rightarrow> Some e
         | None \<Rightarrow> case first_refusal count_field [''mtime'', ''size''] of
           Some e \<Rightarrow> Some e
         | None \<Rightarrow>
             if \<not> is_string (field state (lit ''hash'')) then Some (refuse ''hash'')
             else case field state (lit ''heads'') of
               None \<Rightarrow> None
             | Some (JObj heads) \<Rightarrow>
                 if list_all (\<lambda>(p, u). is_path p \<and> isCount (Some u)) heads then None
                 else Some (refuse ''heads'')
             | Some _ \<Rightarrow> Some (refuse ''heads''))"

fun bad_pending :: "nat \<Rightarrow> json list \<Rightarrow> refusal option" where
  "bad_pending i [] = None"
| "bad_pending i (p # ps) = (if isPath p then bad_pending (i + 1) ps else Some (Refused_pending i))"

fun text_of :: "json \<Rightarrow> jstring" where
  "text_of (JStr s) = s"
| "text_of _ = []"

definition orphan :: "obj \<Rightarrow> jstring \<Rightarrow> refusal option" where
  "orphan remote p = (if map_of remote p = None then Some (Refused_orphan p) else None)"

text \<open>\<open>None\<close> in and out is undefined: a device that never synced has no index.\<close>

definition validateStoredState :: "json option \<Rightarrow> refusal + stored_state option" where
  "validateStoredState raw =
     (case raw of None \<Rightarrow> Inr None
      | Some r \<Rightarrow>
        if \<not> isObject r then Inl (Refused ''object'')
        else case field r (lit ''cursor'') of
          None \<Rightarrow> Inl (Refused ''cursor'')
        | Some c \<Rightarrow> (case count_of c of
            None \<Rightarrow> Inl (Refused ''cursor'')
          | Some cursor \<Rightarrow> (case field r (lit ''entries'') of
              Some (JObj entries) \<Rightarrow> (case first_refusal checkEntry entries of
                Some e \<Rightarrow> Inl e
              | None \<Rightarrow> (case field r (lit ''remote'') of
                  Some (JObj remote) \<Rightarrow> (case first_refusal checkRemote remote of
                    Some e \<Rightarrow> Inl e
                  | None \<Rightarrow> (case field r (lit ''pending'') of
                      Some (JArr pending) \<Rightarrow> (case bad_pending 0 pending of
                        Some e \<Rightarrow> Inl e
                      | None \<Rightarrow> (case first_refusal (orphan remote) (map text_of pending) of
                          Some e \<Rightarrow> Inl e
                        | None \<Rightarrow> Inr (Some \<lparr>ss_cursor = cursor, ss_entries = entries,
                                            ss_remote = remote, ss_pending = map text_of pending\<rparr>)))
                    | _ \<Rightarrow> Inl (Refused ''pending'')))
                | _ \<Rightarrow> Inl (Refused ''remote'')))
            | _ \<Rightarrow> Inl (Refused ''entries''))))"

section \<open>What is accepted\<close>

lemma first_refusal_None: "first_refusal check xs = None \<longleftrightarrow> (\<forall>x \<in> set xs. check x = None)"
  by (induction xs) (auto split: option.splits)

lemma bad_pending_None: "bad_pending i ps = None \<longleftrightarrow> list_all isPath ps"
  by (induction i ps rule: bad_pending.induct) auto

lemma isPath_text: "isPath p \<longleftrightarrow> (\<exists>s. p = JStr s \<and> is_path s)"
  by (auto simp: isPath_def split: json.splits)

lemma isPath_text_of: "isPath p \<Longrightarrow> is_path (text_of p) \<and> JStr (text_of p) = p"
  by (auto simp: isPath_text)

lemma paths_map: "\<forall>p \<in> set ps. isPath p \<Longrightarrow> map (JStr \<circ> text_of) ps = ps"
  using isPath_text_of by (intro map_idI) auto

text \<open>The declarative reading of a state the engine may use.\<close>

definition usable :: "stored_state \<Rightarrow> bool" where
  "usable s \<longleftrightarrow> 0 \<le> ss_cursor s \<and> ss_cursor s \<le> MAX_SAFE \<and>
     (\<forall>pe \<in> set (ss_entries s). checkEntry pe = None) \<and>
     (\<forall>pe \<in> set (ss_remote s). checkRemote pe = None) \<and>
     (\<forall>p \<in> set (ss_pending s). is_path p \<and> map_of (ss_remote s) p \<noteq> None)"

lemma safe_integer_bound: "safe_integer r = Some n \<Longrightarrow> \<bar>n\<bar> \<le> MAX_SAFE"
  by (auto simp: safe_integer_def split: option.splits if_splits)

lemma count_of_bounds: "count_of v = Some n \<Longrightarrow> 0 \<le> n \<and> n \<le> MAX_SAFE"
  by (auto simp: count_of_def dest: safe_integer_bound split: json.splits if_splits option.splits)

lemma validate_Some:
  "validateStoredState (Some r) = Inr (Some s) \<longleftrightarrow>
     usable s \<and> isObject r \<and> (\<exists>c. field r (lit ''cursor'') = Some c \<and> count_of c = Some (ss_cursor s)) \<and>
     field r (lit ''entries'') = Some (JObj (ss_entries s)) \<and>
     field r (lit ''remote'') = Some (JObj (ss_remote s)) \<and>
     field r (lit ''pending'') = Some (JArr (map JStr (ss_pending s)))"
  (is "?l = ?r")
proof
  assume ?l
  then show ?r
    by (auto simp: validateStoredState_def usable_def first_refusal_None bad_pending_None
        orphan_def count_of_bounds list_all_iff isPath_text_of paths_map
        split: if_splits option.splits json.splits)
next
  have texts: "map text_of (map JStr ps) = ps" for ps by (induction ps) auto
  assume r: ?r
  then have "first_refusal checkEntry (ss_entries s) = None"
    "first_refusal checkRemote (ss_remote s) = None"
    "bad_pending 0 (map JStr (ss_pending s)) = None"
    "first_refusal (orphan (ss_remote s)) (ss_pending s) = None"
    by (auto simp: usable_def first_refusal_None bad_pending_None isPath_def list_all_iff orphan_def)
  with r texts show ?l by (auto simp: validateStoredState_def)
qed

section \<open>Properties\<close>



end
