(* ===== verification/Journal_Store.thy ===== *)
theory Journal_Store
  imports Stored_State
begin

text \<open>
  \<open>client/src/core/index-journal-store.ts\<close>: when the index is appended to and when it is written
  whole, and what is made of the two files at the next start. With \<open>LastIndexWrite\<close> and
  \<open>MemoryIndexStore\<close> of \<open>client/src/core/vault.ts\<close>.

  The files are the state of the disk: a snapshot and a log, each absent or a text, and the
  modification times a stat reports. A call to the shell that throws is a fault chosen by the
  environment (\<open>fault\<close>), with whatever it left on the disk.
\<close>

section \<open>The disk\<close>

record stamp =
  sp_size :: nat
  sp_mtime :: int

record files =
  fi_snapshot :: "(jstring \<times> int) option"
  fi_log :: "(jstring \<times> int) option"
  fi_clock :: int

record stamps =
  sp_snapshot :: "stamp option"
  sp_log :: "stamp option"

definition stamp_of :: "(jstring \<times> int) option \<Rightarrow> stamp option" where
  "stamp_of f = map_option (\<lambda>(text, mtime). \<lparr>sp_size = byteLength text, sp_mtime = mtime\<rparr>) f"

definition stamps_of :: "files \<Rightarrow> stamps" where
  "stamps_of fs = \<lparr>sp_snapshot = stamp_of (fi_snapshot fs), sp_log = stamp_of (fi_log fs)\<rparr>"

text \<open>The three operations that write, when they do what they are asked.\<close>

definition writeSnapshot :: "jstring \<Rightarrow> files \<Rightarrow> files" where
  "writeSnapshot text fs = fs\<lparr>fi_snapshot := Some (text, fi_clock fs), fi_clock := fi_clock fs + 1\<rparr>"

definition truncateLog :: "files \<Rightarrow> files" where
  "truncateLog fs = fs\<lparr>fi_log := Some ([], fi_clock fs), fi_clock := fi_clock fs + 1\<rparr>"

definition log_contents :: "files \<Rightarrow> jstring" where
  "log_contents fs = (case fi_log fs of Some (text, _) \<Rightarrow> text | None \<Rightarrow> [])"

definition appendLog :: "jstring \<Rightarrow> files \<Rightarrow> files" where
  "appendLog line fs = fs\<lparr>fi_log := Some (log_contents fs @ line, fi_clock fs), fi_clock := fi_clock fs + 1\<rparr>"

section \<open>The policy\<close>

record snapshot_policy =
  po_fraction :: rat
  po_maxRecords :: nat
  po_minBytes :: nat

definition DEFAULT_POLICY :: snapshot_policy where
  "DEFAULT_POLICY = \<lparr>po_fraction = 1 / 4, po_maxRecords = 1000, po_minBytes = 64 * 1024\<rparr>"

definition wantsSnapshot :: "nat \<Rightarrow> nat \<Rightarrow> nat \<Rightarrow> snapshot_policy \<Rightarrow> bool" where
  "wantsSnapshot logBytes snapshotBytes records policy =
     (if records \<ge> po_maxRecords policy then True
      else if logBytes < po_minBytes policy then False
      else if snapshotBytes = 0 then False
      else of_nat logBytes > of_nat snapshotBytes * po_fraction policy)"

section \<open>The store\<close>

record store =
  js_saved :: "saved_shape option"
  js_heap :: nat
  js_seq :: int
  js_snapshotBytes :: nat
  js_records :: nat
  js_left :: stamps
  js_mustSnapshot :: bool

definition fresh_store :: store where
  "fresh_store = \<lparr>js_saved = None, js_heap = 0, js_seq = 0, js_snapshotBytes = 0, js_records = 0,
     js_left = \<lparr>sp_snapshot = None, sp_log = None\<rparr>, js_mustSnapshot = False\<rparr>"

datatype load_error = Journal_without_snapshot | Snapshot_not_json | Type_error

definition sequenceOf :: "json \<Rightarrow> int option" where
  "sequenceOf parsed =
     (case field parsed (lit ''seq'') of
        Some (JNum n) \<Rightarrow> if 0 \<le> n \<and> n \<le> MAX_SAFE then Some n else None
      | Some (JReal t) \<Rightarrow> (case safe_integer (js_number t) of
            Some n \<Rightarrow> if 0 \<le> n then Some n else None | None \<Rightarrow> None)
      | _ \<Rightarrow> None)"

definition withoutSeq :: "json \<Rightarrow> json" where
  "withoutSeq parsed = (case parsed of JObj kvs \<Rightarrow> JObj (AList.delete (lit ''seq'') kvs) | v \<Rightarrow> v)"

definition checks :: "json \<Rightarrow> bool" where
  "checks state = (case validateStoredState (Some state) of Inr (Some _) \<Rightarrow> True | _ \<Rightarrow> False)"

text \<open>\<open>shapeOf\<close> throws on null, so \<open>settle\<close> does.\<close>

definition settle :: "json \<Rightarrow> int \<Rightarrow> nat \<Rightarrow> store \<Rightarrow> load_error + store" where
  "settle state seq records st =
     (case shapeOf (js_heap st) state of
        None \<Rightarrow> Inl Type_error
      | Some (heap, shape) \<Rightarrow> Inr (st\<lparr>js_saved := Some shape, js_heap := heap, js_seq := seq,
                                     js_records := records, js_mustSnapshot := False\<rparr>))"

text \<open>Settles on a state and says what the next save owes.\<close>

definition settled :: "json \<Rightarrow> int \<Rightarrow> nat \<Rightarrow> bool \<Rightarrow> store \<Rightarrow> load_error + json option \<times> store" where
  "settled state seq records owed st =
     try_then (settle state seq records st) (\<lambda>st'. Inr (Some state, st'\<lparr>js_mustSnapshot := owed\<rparr>))"

definition load :: "files \<Rightarrow> store \<Rightarrow> load_error + json option \<times> store" where
  "load fs st0 =
     (let st = st0\<lparr>js_left := stamps_of fs\<rparr>; logText = map_option fst (fi_log fs) in
      case fi_snapshot fs of
        None \<Rightarrow> if logText \<noteq> None \<and> logText \<noteq> Some [] then Inl Journal_without_snapshot else Inr (None, st)
      | Some (snapshotText, _) \<Rightarrow>
          (case parse_json snapshotText of
             None \<Rightarrow> Inl Snapshot_not_json
           | Some parsed \<Rightarrow>
               let seq = sequenceOf parsed; snapshotState = withoutSeq parsed;
                   st1 = st\<lparr>js_snapshotBytes := byteLength snapshotText\<rparr>
               in if logText = None \<or> logText = Some [] then
                    settled snapshotState (case seq of Some n \<Rightarrow> n | None \<Rightarrow> 0) 0 (seq = None) st1
                  else case seq of
                    None \<Rightarrow> settled snapshotState 0 0 True st1
                  | Some n \<Rightarrow>
                      (case replay snapshotState n (the logText) of
                         None \<Rightarrow> settled snapshotState n 0 True st1
                       | Some out \<Rightarrow>
                           if \<not> checks (rp_state out) \<and> checks snapshotState then
                             settled snapshotState n 0 True st1
                           else settled (rp_state out) (rp_seq out) (rp_applied out)
                                  (rp_stopped out \<noteq> None) st1)))"

section \<open>Saving\<close>

definition same_stamp :: "stamp option \<Rightarrow> stamp option \<Rightarrow> bool" where
  "same_stamp a b = (a = b)"

definition foreignWrite :: "store \<Rightarrow> stamps \<Rightarrow> bool" where
  "foreignWrite st now =
     (js_saved st \<noteq> None \<and>
      (\<not> same_stamp (sp_snapshot (js_left st)) (sp_snapshot now) \<or>
       \<not> same_stamp (sp_log (js_left st)) (sp_log now)))"

definition log_size :: "stamps \<Rightarrow> nat" where
  "log_size s = (case sp_log s of Some p \<Rightarrow> sp_size p | None \<Rightarrow> 0)"

text \<open>
  What the shell may do to a write: do it, or throw having left some prefix of the bytes (a torn
  append), or throw before or between the two steps of a snapshot.
\<close>

datatype fault = No_fault | Torn_append nat | Short_append nat | Snapshot_fails | Truncate_fails

datatype save_error = Append_threw | Append_not_whole | Bad_sequence | Snapshot_threw | Truncate_threw

definition snapshot_text :: "stored_state \<Rightarrow> int \<Rightarrow> jstring" where
  "snapshot_text s seq =
     (case state_json s of JObj kvs \<Rightarrow> stringify (JObj (AList.update (lit ''seq'') (JNum seq) kvs)) | v \<Rightarrow> stringify v)"

definition snapshot :: "fault \<Rightarrow> stored_state \<Rightarrow> files \<Rightarrow> store \<Rightarrow> save_error option \<times> files \<times> store" where
  "snapshot f s fs st =
     (let text = snapshot_text s (js_seq st) in
      if f = Snapshot_fails then
        (Some Snapshot_threw, fs, st\<lparr>js_mustSnapshot := True, js_left := stamps_of fs\<rparr>)
      else
        let fs1 = writeSnapshot text fs; st1 = st\<lparr>js_snapshotBytes := byteLength text\<rparr> in
        if f = Truncate_fails then
          (Some Truncate_threw, fs1, st1\<lparr>js_mustSnapshot := True, js_left := stamps_of fs1\<rparr>)
        else
          let fs2 = truncateLog fs1;
              st2 = (case shapeOf (js_heap st) (state_json s) of
                       Some (heap, shape) \<Rightarrow> st1\<lparr>js_saved := Some shape, js_heap := heap\<rparr>
                     | None \<Rightarrow> st1)
          in (None, fs2, st2\<lparr>js_records := 0, js_mustSnapshot := False, js_left := stamps_of fs2\<rparr>))"

definition append_record ::
  "fault \<Rightarrow> json \<Rightarrow> saved_shape \<Rightarrow> nat \<Rightarrow> files \<Rightarrow> store \<Rightarrow> save_error option \<times> files \<times> store" where
  "append_record f delta shape heap fs st =
     (case encodeRecord (js_seq st + 1) delta of
        None \<Rightarrow> (Some Bad_sequence, fs, st)
      | Some line \<Rightarrow>
          (case f of
             Torn_append n \<Rightarrow> (Some Append_threw, appendLog (take n line) fs, st)
           | _ \<Rightarrow>
               let fs' = appendLog (case f of Short_append n \<Rightarrow> take n line | _ \<Rightarrow> line) fs; now = stamps_of fs'
               in if int (log_size now) - int (log_size (stamps_of fs)) \<noteq> int (byteLength line) then
                    (Some Append_not_whole, fs', st)
                  else (None, fs', st\<lparr>js_seq := js_seq st + 1, js_records := js_records st + 1,
                                      js_saved := Some shape, js_heap := heap, js_left := now\<rparr>)))"

definition save ::
  "snapshot_policy \<Rightarrow> fault \<Rightarrow> stored_state \<Rightarrow> files \<Rightarrow> store \<Rightarrow> save_error option \<times> files \<times> store" where
  "save policy f s fs st =
     (let now = stamps_of fs; foreign = foreignWrite st now in
      case js_saved st of
        Some saved \<Rightarrow>
          if foreign then snapshot f s fs st
          else
            (let (delta, heap, shape) = deltaFrom (js_heap st) saved s in
             case delta of
               None \<Rightarrow> (None, fs, st)
             | Some d \<Rightarrow>
                 if \<not> js_mustSnapshot st \<and>
                    \<not> wantsSnapshot (log_size now) (js_snapshotBytes st) (js_records st + 1) policy
                 then append_record f d shape heap fs st
                 else snapshot f s fs st)
      | None \<Rightarrow> snapshot f s fs st)"

definition indexLogPath :: "jstring \<Rightarrow> jstring" where
  "indexLogPath indexFile =
     (let n = length indexFile - 5 in
      (if length indexFile \<ge> 5 \<and> map ascii_lower (drop n indexFile) = lit ''.json'' then take n indexFile else indexFile)
      @ lit ''.log'')"

section \<open>The other stores\<close>

text \<open>\<open>LastIndexWrite\<close>: what a whole-file store remembers of its last write.\<close>

record last_write =
  lw_text :: "jstring option"
  lw_stamp :: "stamp option"

definition last_matches :: "jstring \<Rightarrow> stamp option \<Rightarrow> last_write \<Rightarrow> bool" where
  "last_matches text onDisk w =
     (case (lw_stamp w, onDisk) of
        (Some was, Some now) \<Rightarrow>
          lw_text w = Some text \<and> sp_size now = sp_size was \<and> sp_mtime now = sp_mtime was
      | _ \<Rightarrow> False)"

definition last_wrote :: "jstring \<Rightarrow> stamp option \<Rightarrow> last_write \<Rightarrow> last_write" where
  "last_wrote text onDisk w = w\<lparr>lw_text := Some text, lw_stamp := onDisk\<rparr>"

definition last_forget :: "last_write \<Rightarrow> last_write" where
  "last_forget w = w\<lparr>lw_text := None, lw_stamp := None\<rparr>"

text \<open>\<open>MemoryIndexStore\<close>.\<close>

record memory_store =
  ms_state :: "stored_state option"
  ms_saves :: nat

definition memory_load :: "memory_store \<Rightarrow> stored_state option" where
  "memory_load m = ms_state m"

definition memory_save :: "stored_state \<Rightarrow> memory_store \<Rightarrow> memory_store" where
  "memory_save s m = m\<lparr>ms_state := Some s, ms_saves := ms_saves m + 1\<rparr>"

end
