(* ===== verification/Journal_Durability.thy ===== *)
theory Journal_Durability
  imports Journal_Store
begin

text \<open>
  The journal store against a disk that fails: whatever faults the writes meet and whenever the
  session ends, the next start loads the last state that was saved, or one whose save was under way.
\<close>

section \<open>Replaying behind records the snapshot already holds\<close>

lemma split_lines_tail:
  assumes "\<And>l. l \<in> set ls \<Longrightarrow> newline \<notin> set l" and "newline \<notin> set torn"
  shows "split_on newline (concat (map (\<lambda>l. l @ [newline]) ls) @ torn) = ls @ [torn]"
  using assms by (induction ls) (simp_all add: split_on_clean split_on_line)

lemma log_text_append:
  "log_text a (ds @ es) = log_text a ds @ log_text (a + int (length ds)) es"
  by (simp add: log_text_def log_lines_append)

lemma replay_tail:
  assumes "\<And>d. d \<in> set pre \<Longrightarrow> \<exists>kvs. d = JObj kvs \<and> json_ok d" and "chain s es"
    and "0 \<le> a" and "a + int (length pre) + int (length es) \<le> MAX_SAFE"
    and base: "same_fold (copyOf base) (fold_of s)" and "newline \<notin> set torn"
  shows "\<exists>r. replay base (a + int (length pre)) (log_text a (pre @ map fst es) @ torn) = Some r \<and>
     rp_seq r = a + int (length pre) + int (length es) \<and> rp_applied r = length es \<and>
     same_fold (copyOf (rp_state r)) (fold_of (last (s # map snd es))) \<and>
     (rp_stopped r = None \<longleftrightarrow> torn = [])"
proof -
  let ?from = "a + int (length pre)"
  let ?all = "pre @ map fst es"
  let ?r0 = "\<lparr>rr_seq = ?from, rr_applied = 0, rr_work = None, rr_firstKept = True, rr_stopped = None\<rparr>"
  have objs: "\<exists>kvs. d = JObj kvs \<and> json_ok d" if "d \<in> set ?all" for d
    using that assms(1) chain_objs [OF assms(2), of d] by auto
  then have "newline \<notin> set l" if "l \<in> set (log_lines a ?all)" for l
    using that assms(3) by (intro log_lines_clean [of a ?all]) auto
  then have split: "split_on newline (log_text a ?all @ torn) = log_lines a ?all @ [torn]"
    unfolding log_text_def using assms(6) by (intro split_lines_tail) auto
  have "same_fold (current base ?r0) (fold_of s)" using base by (simp add: current_def)
  then obtain r' where r':
    "replay_lines base ?from ?r0 (length pre) (log_lines ?from (map fst es)) = Some r'"
    "rr_seq r' = ?from + int (length es)" "rr_applied r' = length es"
    "same_fold (current base r') (fold_of (last (s # map snd es)))" "rr_stopped r' = None"
    using replay_apply [OF assms(2), of ?r0 ?from ?from base "length pre"] assms(3,4) by auto
  have loop: "replay_lines base ?from ?r0 0 (log_lines a ?all) = Some r'"
    unfolding log_lines_append
  proof (subst replay_skip)
    fix d assume "d \<in> set pre"
    then show "\<exists>kvs. d = JObj kvs \<and> json_ok d" using assms(1) by blast
  qed (use r'(1) assms(3,4) in auto)
  have "same_fold (copyOf (case rr_work r' of None \<Rightarrow> base | Some w \<Rightarrow> state_of w))
      (fold_of (last (s # map snd es)))"
    using r'(4) by (cases "rr_work r'") (simp_all add: current_def copyOf_state_of)
  then show ?thesis
    using r' by (simp add: replay_def split Let_def loop)
qed

section \<open>Replay keeps keys distinct\<close>

definition keys_ok :: "fold_state \<Rightarrow> bool" where
  "keys_ok w \<longleftrightarrow> distinct (map fst (fo_entries w)) \<and> distinct (map fst (fo_remote w))"

lemma distinct_assign_all: "distinct (map fst o') \<Longrightarrow> distinct (map fst (assign_all kvs o'))"
  unfolding assign_all_def
  by (induction kvs arbitrary: o') (auto simp: AList.distinct_update)

lemma distinct_delete_all: "distinct (map fst o') \<Longrightarrow> distinct (map fst (delete_all ks o'))"
  unfolding delete_all_def
  by (induction ks arbitrary: o') (auto simp: AList.distinct_delete)

lemma foldInto_keys: "foldInto w d = Some w' \<Longrightarrow> keys_ok w \<Longrightarrow> keys_ok w'"
  by (auto simp: foldInto_def keys_ok_def distinct_assign_all distinct_delete_all split: option.splits)

lemma replay_lines_keys:
  "replay_lines base from r n lines = Some r' \<Longrightarrow> keys_ok (current base r) \<Longrightarrow>
     (case rr_work r of None \<Rightarrow> True | Some w \<Rightarrow> keys_ok w) \<Longrightarrow>
     (case rr_work r' of None \<Rightarrow> True | Some w \<Rightarrow> keys_ok w)"
proof (induction base "from" r n lines rule: replay_lines.induct)
  case (2 base "from" r i line lines)
  then show ?case
    by (auto simp: current_def split: if_splits sum.splits option.splits) (metis foldInto_keys)+
qed simp

lemma replay_keys:
  assumes "replay base n text = Some r" and "keys_ok (copyOf base)"
  shows "keys_ok (copyOf (rp_state r))"
  using assms
  by (auto simp: replay_def Let_def current_def copyOf_state_of dest!: replay_lines_keys split: option.splits)

lemma replay_state:
  assumes "replay (state_json base) n text = Some r"
  shows "state_of (copyOf (rp_state r)) = rp_state r"
proof -
  have "state_of (fold_of base) = state_json base"
    by (simp add: state_of_def fold_of_def state_json_def)
  then show ?thesis
    using assms by (auto simp: replay_def Let_def copyOf_state_of copyOf_state_json split: option.splits)
qed

text \<open>A folded state that stands for a good one is a good one itself.\<close>

definition good :: "stored_state \<Rightarrow> bool" where
  "good s \<longleftrightarrow> state_ok s \<and> usable s"

lemma same_map_set:
  assumes "distinct (map fst a)" and "distinct (map fst b)" and "same_map a b"
  shows "set a = set b"
proof -
  have "(k, v) \<in> set a \<longleftrightarrow> (k, v) \<in> set b" for k v
    using assms by (metis map_of_eq_Some_iff same_map_def)
  then show ?thesis by auto
qed

lemma fold_good:
  assumes "same_fold w (fold_of c)" and "keys_ok w" and "good c"
  shows "\<exists>c'. w = fold_of c' \<and> state_of w = state_json c' \<and> same_fold (fold_of c') (fold_of c) \<and> good c'"
proof -
  let ?c = "\<lparr>ss_cursor = ss_cursor c, ss_entries = fo_entries w, ss_remote = fo_remote w, ss_pending = ss_pending c\<rparr>"
  have w: "w = fold_of ?c" using assms(1) by (cases w) (simp add: same_fold_def fold_of_def)
  have "state_of w = state_json ?c" by (subst w) (simp add: state_of_def fold_of_def state_json_def)
  moreover have same: "same_fold (fold_of ?c) (fold_of c)" using assms(1) w by simp
  moreover have "good ?c"
  proof -
    have maps: "same_map (fo_entries w) (ss_entries c)" "same_map (fo_remote w) (ss_remote c)"
      using assms(1) by (simp_all add: same_fold_def fold_of_def)
    have d: "distinct (map fst (ss_entries c))" "distinct (map fst (ss_remote c))"
      using assms(3) by (simp_all add: good_def state_ok_def obj_ok_def)
    have "set (fo_entries w) = set (ss_entries c)" "set (fo_remote w) = set (ss_remote c)"
      using same_map_set maps d assms(2) by (simp_all add: keys_ok_def)
    note sets = this
    have "\<forall>p \<in> set (ss_pending c). is_path p \<and> map_of (fo_remote w) p \<noteq> None"
      using assms(3) maps(2) unfolding good_def usable_def same_map_def by metis
    then have "usable ?c"
      using assms(3) unfolding good_def usable_def sets by (simp add: sets)
    moreover have "state_ok ?c"
      using assms(2,3) by (simp add: good_def state_ok_def obj_ok_def keys_ok_def list_all_iff sets)
    ultimately show ?thesis by (simp add: good_def)
  qed
  ultimately show ?thesis using w by blast
qed

section \<open>Reading back a snapshot\<close>

lemma state_json_obj: "\<exists>kvs. state_json s = JObj kvs"
  by (simp add: state_json_def)

lemma snapshot_reads_back:
  assumes "state_ok s" and "0 \<le> n" and "n \<le> MAX_SAFE"
  obtains p where "parse_json (snapshot_text s n) = Some p" "sequenceOf p = Some n" "withoutSeq p = state_json s"
proof -
  let ?p = "JObj [(lit ''cursor'', JNum (ss_cursor s)), (lit ''entries'', JObj (ss_entries s)),
     (lit ''remote'', JObj (ss_remote s)), (lit ''pending'', JArr (map JStr (ss_pending s))), (lit ''seq'', JNum n)]"
  have "snapshot_text s n = stringify ?p" by (simp add: snapshot_text_def state_json_def)
  moreover have "json_ok ?p"
    using assms(1) by (auto simp: state_ok_def obj_ok_def list_all_iff)
  ultimately have "parse_json (snapshot_text s n) = Some ?p" by (simp only: parse_stringify)
  moreover have "sequenceOf ?p = Some n" using assms by (simp add: sequenceOf_def field_Cons)
  moreover have "withoutSeq ?p = state_json s" by (simp add: withoutSeq_def state_json_def)
  ultimately show ?thesis using that by blast
qed

lemma checks_good: "good s \<Longrightarrow> checks (state_json s)"
proof -
  assume "good s"
  then have "validateStoredState (Some (state_json s)) = Inr (Some s)"
    unfolding validate_Some
    by (simp add: good_def state_json_def field_Cons isObject_def count_of_def usable_def)
  then show ?thesis by (simp add: checks_def)
qed


section \<open>Lengths in bytes\<close>

lemma encode_unit_length: "0 < length (encode_unit c)" "length (encode_unit c) \<le> 3"
  by (simp_all add: encode_unit_def)

lemma encode_pair_length: "length (encode_pair c d) = 4"
  by (simp add: encode_pair_def Let_def)

lemma encode_not_Nil: "encode_unit c \<noteq> []" "encode_pair c d \<noteq> []"
  using encode_unit_length [of c] encode_pair_length [of c d] by auto

lemma utf8_encode_not_Nil: "s \<noteq> [] \<Longrightarrow> utf8_encode s \<noteq> []"
  by (cases s rule: utf8_encode.cases) (auto simp: encode_not_Nil)

lemma utf8_encode_prefix: "q \<noteq> [] \<Longrightarrow> length (utf8_encode p) < length (utf8_encode (p @ q))"
proof (induction p rule: utf8_encode.induct)
  case 1
  then show ?case by (simp add: utf8_encode_not_Nil)
next
  case (2 c)
  then obtain d q' where q: "q = d # q'" by (cases q) auto
  then show ?case
    using encode_unit_length [of c] utf8_encode_not_Nil [of "d # q'"]
    by (simp add: encode_pair_length Let_def)
qed auto

lemma byteLength_append:
  "x = [] \<or> hd x < 0x80 \<Longrightarrow> byteLength (s @ x) = byteLength s + byteLength x"
  by (cases x) (auto simp: byteLength_def utf8_encode_append_ascii)

lemma byteLength_take: "byteLength (take n s) = byteLength s \<longleftrightarrow> length s \<le> n"
proof
  show "byteLength (take n s) = byteLength s \<Longrightarrow> length s \<le> n"
  proof (rule ccontr)
    assume "byteLength (take n s) = byteLength s" "\<not> length s \<le> n"
    then show False
      using utf8_encode_prefix [of "drop n s" "take n s"] by (simp add: byteLength_def)
  qed
qed simp

lemma record_line_ascii: "1 \<le> seq \<Longrightarrow> record_line seq d \<noteq> [] \<and> hd (record_line seq d) < 0x80"
proof -
  assume seq: "1 \<le> seq"
  have "integer_text seq \<noteq> []" using seq_text(1) [OF seq] by simp
  then obtain c cs where c: "integer_text seq = c # cs" by (meson list.exhaust)
  then have "is_digit c" using seq_text(2) [OF seq, of c] by simp
  then have "c \<le> 57" by (simp add: is_digit_def)
  then have "c < 0x80" by (rule order_le_less_trans) simp
  with c show ?thesis by (simp add: record_line_def)
qed

section \<open>What the disk holds\<close>

definition sound_disk :: "files \<Rightarrow> stored_state option \<Rightarrow> jstring \<Rightarrow> int \<Rightarrow> bool" where
  "sound_disk fs c torn q \<longleftrightarrow>
     (case c of
        None \<Rightarrow> fi_snapshot fs = None \<and> log_contents fs = [] \<and> torn = [] \<and> q = 0
      | Some s \<Rightarrow> \<exists>base mt a pre es.
          fi_snapshot fs = Some (snapshot_text base (a + int (length pre)), mt) \<and>
          log_contents fs = log_text a (pre @ map fst es) @ torn \<and> newline \<notin> set torn \<and>
          (\<forall>d \<in> set pre. \<exists>kvs. d = JObj kvs \<and> json_ok d) \<and> chain base es \<and>
          0 \<le> a \<and> q = a + int (length pre) + int (length es) \<and> q \<le> MAX_SAFE \<and>
          good base \<and> list_all good (map snd es) \<and> s = last (base # map snd es))"

lemma sound_disk_seq: "sound_disk fs c torn q \<Longrightarrow> 0 \<le> q \<and> q \<le> MAX_SAFE"
  by (auto simp: sound_disk_def MAX_SAFE_def split: option.splits)

lemma log_text_Nil_iff: "log_text a ds = [] \<longleftrightarrow> ds = []"
  by (cases ds) (simp_all add: log_text_def)

lemma settled_state_json:
  assumes "good s'"
  shows "\<exists>heap sh. settled (state_json s') q k owed st = Inr (Some (state_json s'),
      st\<lparr>js_saved := Some sh, js_heap := heap, js_seq := q, js_records := k, js_mustSnapshot := owed\<rparr>) \<and>
    shape_for heap sh s'"
proof -
  obtain heap sh where "shapeOf (js_heap st) (state_json s') = Some (heap, sh)" using shapeOf_some by blast
  moreover from this have "shape_for heap sh s'" using shapeOf_state assms by (simp add: good_def)
  ultimately show ?thesis by (auto simp: settled_def settle_def)
qed

lemma load_sound:
  assumes "sound_disk fs c torn q"
  shows "case c of
      None \<Rightarrow> load fs fresh_store = Inr (None, fresh_store\<lparr>js_left := stamps_of fs\<rparr>)
    | Some s \<Rightarrow> \<exists>s' st' sh. load fs fresh_store = Inr (Some (state_json s'), st') \<and>
        same_fold (fold_of s') (fold_of s) \<and> good s' \<and> js_seq st' = q \<and> js_left st' = stamps_of fs \<and>
        js_saved st' = Some sh \<and> shape_for (js_heap st') sh s \<and> (js_mustSnapshot st' \<longleftrightarrow> torn \<noteq> [])"
proof (cases c)
  case None
  then show ?thesis
    using assms by (auto simp: sound_disk_def load_def log_contents_def split: option.splits)
next
  case (Some s)
  then obtain base mt a pre es where
    snap: "fi_snapshot fs = Some (snapshot_text base (a + int (length pre)), mt)" and
    logc: "log_contents fs = log_text a (pre @ map fst es) @ torn" and torn: "newline \<notin> set torn" and
    pre: "\<And>d. d \<in> set pre \<Longrightarrow> \<exists>kvs. d = JObj kvs \<and> json_ok d" and ch: "chain base es" and a: "0 \<le> a" and
    q: "q = a + int (length pre) + int (length es)" "q \<le> MAX_SAFE" and
    ok: "good base" "list_all good (map snd es)" and s: "s = last (base # map snd es)"
    using assms by (auto simp: sound_disk_def)
  let ?n = "a + int (length pre)"
  have bok: "state_ok base" "0 \<le> ?n" "?n \<le> MAX_SAFE" using ok(1) a q by (simp_all add: good_def)
  obtain p where p: "parse_json (snapshot_text base ?n) = Some p" "sequenceOf p = Some ?n"
    "withoutSeq p = state_json base" using snapshot_reads_back [OF bok] by blast
  have goods: "good s"
  proof (cases "es = []")
    case False
    then have "s \<in> set (map snd es)" using s last_in_set [of "map snd es"] by simp
    then show ?thesis using ok(2) by (simp only: list_all_iff)
  qed (use ok(1) s in simp)
  let ?st = "fresh_store\<lparr>js_left := stamps_of fs, js_snapshotBytes := byteLength (snapshot_text base ?n)\<rparr>"
  show ?thesis
  proof (cases "log_contents fs = []")
    case True
    then have empty: "pre = []" "es = []" "torn = []" using logc by (simp_all add: log_text_Nil_iff)
    have lt: "map_option fst (fi_log fs) = None \<or> map_option fst (fi_log fs) = Some []"
      using True by (auto simp: log_contents_def split: option.splits)
    obtain heap sh where "settled (state_json base) ?n 0 False ?st = Inr (Some (state_json base),
      ?st\<lparr>js_saved := Some sh, js_heap := heap, js_seq := ?n, js_records := 0, js_mustSnapshot := False\<rparr>)"
      "shape_for heap sh base" using settled_state_json [OF ok(1), of ?n 0 False ?st] by blast
    then have "load fs fresh_store = Inr (Some (state_json base),
      ?st\<lparr>js_saved := Some sh, js_heap := heap, js_seq := ?n, js_records := 0, js_mustSnapshot := False\<rparr>)"
      using snap p lt by (simp add: load_def Let_def)
    then show ?thesis
      using Some s empty ok q(1) \<open>shape_for heap sh base\<close>
      by (auto intro!: exI [of _ base] simp: same_fold_def same_map_def)
  next
    case False
    then obtain lm where lt: "fi_log fs = Some (log_contents fs, lm)"
      by (auto simp: log_contents_def split: option.splits)
    have base: "same_fold (copyOf (state_json base)) (fold_of base)"
      by (simp add: copyOf_state_json same_fold_def same_map_def)
    have qb: "a + int (length pre) + int (length es) \<le> MAX_SAFE" using q by simp
    obtain r where r: "replay (state_json base) ?n (log_contents fs) = Some r" "rp_seq r = q"
      "same_fold (copyOf (rp_state r)) (fold_of s)" "rp_stopped r = None \<longleftrightarrow> torn = []"
    proof -
      have "\<exists>r. replay (state_json base) ?n (log_contents fs) = Some r \<and> rp_seq r = q \<and> rp_applied r = length es \<and>
          same_fold (copyOf (rp_state r)) (fold_of s) \<and> (rp_stopped r = None \<longleftrightarrow> torn = [])"
        unfolding logc s q(1) by (rule replay_tail [OF _ ch a qb base torn]) (rule pre)
      then show ?thesis by (elim exE conjE) (rule that)
    qed
    have "keys_ok (copyOf (state_json base))"
      using bok(1) by (simp add: copyOf_state_json keys_ok_def fold_of_def state_ok_def obj_ok_def)
    then have "keys_ok (copyOf (rp_state r))" using replay_keys r(1) by blast
    then obtain s' where s': "copyOf (rp_state r) = fold_of s'" "state_of (copyOf (rp_state r)) = state_json s'"
      "same_fold (fold_of s') (fold_of s)" "good s'"
      using fold_good [OF r(3) _ goods] by blast
    have rp: "rp_state r = state_json s'" using s'(2) replay_state [OF r(1)] by simp
    obtain heap sh where settle: "settled (state_json s') q (rp_applied r) (rp_stopped r \<noteq> None) ?st = Inr (Some (state_json s'),
      ?st\<lparr>js_saved := Some sh, js_heap := heap, js_seq := q, js_records := rp_applied r, js_mustSnapshot := rp_stopped r \<noteq> None\<rparr>)"
      "shape_for heap sh s'" using settled_state_json [OF s'(4), of q "rp_applied r" "rp_stopped r \<noteq> None" ?st] by blast
    then have "load fs fresh_store = Inr (Some (state_json s'),
      ?st\<lparr>js_saved := Some sh, js_heap := heap, js_seq := q, js_records := rp_applied r, js_mustSnapshot := rp_stopped r \<noteq> None\<rparr>)"
      using snap p lt False r checks_good [OF s'(4)] by (simp add: load_def Let_def rp)
    moreover have "shape_for heap sh s" using shape_for_same [OF settle(2) s'(3)] .
    ultimately show ?thesis using Some s' r(4) by (auto intro!: exI [of _ s'])
  qed
qed

section \<open>What one save does to the disk\<close>

definition clock_ok :: "files \<Rightarrow> bool" where
  "clock_ok fs \<longleftrightarrow> (\<forall>t m. fi_snapshot fs = Some (t, m) \<or> fi_log fs = Some (t, m) \<longrightarrow> m < fi_clock fs)"

definition settled_on :: "files \<Rightarrow> store \<Rightarrow> bool" where
  "settled_on fs st \<longleftrightarrow> js_left st = stamps_of fs \<and> \<not> js_mustSnapshot st"

text \<open>What this session knows of the disk: the sequence of its last record, and, while nothing has
  touched the files since and nothing is owed, the state itself.\<close>

definition knows :: "files \<Rightarrow> stored_state option \<Rightarrow> jstring \<Rightarrow> store \<Rightarrow> bool" where
  "knows fs c torn st \<longleftrightarrow> clock_ok fs \<and> sound_disk fs c torn (js_seq st) \<and>
     (\<forall>p. sp_log (js_left st) = Some p \<longrightarrow> sp_mtime p < fi_clock fs) \<and>
     (settled_on fs st \<longrightarrow> torn = []) \<and>
     (\<forall>sh. settled_on fs st \<and> js_saved st = Some sh \<longrightarrow> (\<exists>s. c = Some s \<and> shape_for (js_heap st) sh s))"

lemma clock_ok_write: "clock_ok fs \<Longrightarrow> clock_ok (writeSnapshot text fs)"
  by (fastforce simp: clock_ok_def writeSnapshot_def)

lemma clock_ok_truncate: "clock_ok fs \<Longrightarrow> clock_ok (truncateLog fs)"
  by (fastforce simp: clock_ok_def truncateLog_def)

lemma clock_ok_append: "clock_ok fs \<Longrightarrow> clock_ok (appendLog line fs)"
  by (fastforce simp: clock_ok_def appendLog_def)

lemmas clock_ok_steps = clock_ok_write clock_ok_truncate clock_ok_append

lemma stamps_clock: "clock_ok fs \<Longrightarrow> sp_log (stamps_of fs) = Some p \<Longrightarrow> sp_mtime p < fi_clock fs"
  by (auto simp: stamps_of_def stamp_of_def clock_ok_def)

lemma snapshot_sound:
  assumes "sound_disk fs c torn q" and "good s"
  shows "\<exists>torn'. sound_disk (writeSnapshot (snapshot_text s q) fs) (Some s) torn' q"
proof (cases c)
  case None
  then have "log_contents fs = []" "q = 0" using assms(1) by (simp_all add: sound_disk_def)
  then have "sound_disk (writeSnapshot (snapshot_text s q) fs) (Some s) [] q"
    using assms(2) unfolding sound_disk_def
    by (auto intro!: exI [of _ s] exI [of _ "0 :: int"] exI [of _ "[] :: json list"]
        exI [of _ "[] :: (json \<times> stored_state) list"]
        simp: writeSnapshot_def log_contents_def log_text_def MAX_SAFE_def)
  then show ?thesis by blast
next
  case (Some s0)
  then obtain b a pre es where
    logc: "log_contents fs = log_text a (pre @ map fst es) @ torn" and t: "newline \<notin> set torn" and
    pre: "\<forall>d \<in> set pre. \<exists>kvs. d = JObj kvs \<and> json_ok d" and ch: "chain b es" and a: "0 \<le> a" and
    q: "q = a + int (length pre) + int (length es)" "q \<le> MAX_SAFE"
    using assms(1) unfolding sound_disk_def Some option.case by blast
  have objs: "\<forall>d \<in> set (pre @ map fst es). \<exists>kvs. d = JObj kvs \<and> json_ok d"
    using pre ch chain_objs by fastforce
  have "sound_disk (writeSnapshot (snapshot_text s q) fs) (Some s) torn q"
    unfolding sound_disk_def option.case
  proof (intro exI conjI)
    show "fi_snapshot (writeSnapshot (snapshot_text s q) fs)
        = Some (snapshot_text s (a + int (length (pre @ map fst es))), fi_clock fs)"
      using q by (simp add: writeSnapshot_def add.assoc)
    show "log_contents (writeSnapshot (snapshot_text s q) fs) = log_text a ((pre @ map fst es) @ map fst []) @ torn"
      using logc by (simp add: writeSnapshot_def log_contents_def)
    show "\<forall>d \<in> set (pre @ map fst es). \<exists>kvs. d = JObj kvs \<and> json_ok d" by (rule objs)
    show "chain s []" by simp
    show "q = a + int (length (pre @ map fst es)) + int (length [])" using q by simp
    show "s = last (s # map snd [])" by simp
  qed (use t a q assms(2) in simp_all)
  then show ?thesis by blast
qed

lemma truncated_sound:
  assumes "0 \<le> q" and "q \<le> MAX_SAFE" and "good s"
  shows "sound_disk (truncateLog (writeSnapshot (snapshot_text s q) fs)) (Some s) [] q"
  using assms unfolding sound_disk_def
  by (auto intro!: exI [of _ s] exI [of _ q] exI [of _ "[] :: json list"]
      exI [of _ "[] :: (json \<times> stored_state) list"]
      simp: truncateLog_def writeSnapshot_def log_contents_def log_text_def)

lemma append_sound:
  assumes "sound_disk fs (Some s0) [] q" and "takes s0 d s" and "good s" and "q + 1 \<le> MAX_SAFE"
  shows "sound_disk (appendLog (record_line (q + 1) d @ [newline]) fs) (Some s) [] (q + 1)"
proof -
  obtain base mt a pre es where
    snap: "fi_snapshot fs = Some (snapshot_text base (a + int (length pre)), mt)" and
    logc: "log_contents fs = log_text a (pre @ map fst es)" and
    pre: "\<forall>d \<in> set pre. \<exists>kvs. d = JObj kvs \<and> json_ok d" and ch: "chain base es" and a: "0 \<le> a" and
    q: "q = a + int (length pre) + int (length es)" and
    ok: "good base" "list_all good (map snd es)" and s: "s0 = last (base # map snd es)"
    using assms(1) by (auto simp: sound_disk_def)
  show ?thesis
    unfolding sound_disk_def option.case
  proof (intro exI conjI)
    show "fi_snapshot (appendLog (record_line (q + 1) d @ [newline]) fs) = Some (snapshot_text base (a + int (length pre)), mt)"
      using snap by (simp add: appendLog_def)
    have "log_text a (pre @ map fst (es @ [(d, s)])) = log_text a (pre @ map fst es) @ record_line (q + 1) d @ [newline]"
      using log_text_append [of a "pre @ map fst es" "[d]"] q by (simp add: log_text_def add.assoc)
    then show "log_contents (appendLog (record_line (q + 1) d @ [newline]) fs)
        = log_text a (pre @ map fst (es @ [(d, s)])) @ []"
      using logc by (simp add: appendLog_def log_contents_def)
    show "chain base (es @ [(d, s)])" using ch assms(2) s by (simp add: chain_append)
    show "q + 1 = a + int (length pre) + int (length (es @ [(d, s)]))" using q by simp
  qed (use pre a ok assms(3,4) in simp_all)
qed

lemma torn_sound:
  assumes "sound_disk fs (Some s) [] q" and "newline \<notin> set part"
  shows "sound_disk (appendLog part fs) (Some s) part q"
  using assms unfolding sound_disk_def by (fastforce simp: appendLog_def log_contents_def)

text \<open>A threw append that in fact reached the disk whole, newline and all.\<close>

definition landed :: "fault \<Rightarrow> files \<Rightarrow> files \<Rightarrow> bool" where
  "landed f fs fs' \<longleftrightarrow> (\<exists>n. f = Torn_append n) \<and>
     log_contents fs' \<noteq> log_contents fs \<and> log_contents fs' \<noteq> [] \<and> last (log_contents fs') = newline"

lemma snapshot_knows:
  assumes k: "knows fs c torn st" and s: "good s" and out: "snapshot f s fs st = (e, fs', st')"
  shows "\<exists>c' torn'. knows fs' c' torn' st' \<and> (c' = c \<or> c' = Some s) \<and> (e = None \<longrightarrow> c' = Some s \<and> fs' \<noteq> fs)"
proof -
  have q: "0 \<le> js_seq st" "js_seq st \<le> MAX_SAFE" and sd: "sound_disk fs c torn (js_seq st)" and ck: "clock_ok fs"
    using k sound_disk_seq by (auto simp: knows_def)
  let ?fs1 = "writeSnapshot (snapshot_text s (js_seq st)) fs"
  obtain torn1 where sd1: "sound_disk ?fs1 (Some s) torn1 (js_seq st)" using snapshot_sound [OF sd s] by blast
  consider "f = Snapshot_fails" | "f = Truncate_fails" | "f \<noteq> Snapshot_fails" "f \<noteq> Truncate_fails" by blast
  then show ?thesis
  proof cases
    case 1
    then have "knows fs' c torn st' \<and> e \<noteq> None"
      using out sd ck by (auto simp: snapshot_def knows_def settled_on_def stamps_clock)
    then show ?thesis by blast
  next
    case 2
    then have "knows fs' (Some s) torn1 st' \<and> e \<noteq> None"
      using out sd1 clock_ok_write [OF ck]
      by (auto simp: snapshot_def knows_def settled_on_def stamps_clock Let_def)
    then show ?thesis by blast
  next
    case 3
    obtain heap sh where h: "shapeOf (js_heap st) (state_json s) = Some (heap, sh)" using shapeOf_some by blast
    then have shf: "shape_for heap sh s" using shapeOf_state s by (simp add: good_def)
    have fs': "fs' = truncateLog ?fs1" using 3 out by (simp add: snapshot_def Let_def)
    then have "fi_clock fs' \<noteq> fi_clock fs" by (simp add: truncateLog_def writeSnapshot_def)
    moreover have "knows fs' (Some s) [] st'"
      using 3 out h shf truncated_sound [OF q s, of fs] clock_ok_truncate [OF clock_ok_write [OF ck]]
      by (auto simp: snapshot_def knows_def settled_on_def stamps_clock Let_def)
    ultimately show ?thesis by blast
  qed
qed

lemma stale_after_append:
  assumes "\<forall>p. sp_log left = Some p \<longrightarrow> sp_mtime p < fi_clock fs"
  shows "left \<noteq> stamps_of (appendLog part fs)"
  using assms by (auto simp: appendLog_def stamps_of_def stamp_of_def)

lemma torn_not_landed: "newline \<notin> set part \<Longrightarrow> \<not> landed f fs (appendLog part fs)"
  by (cases "part = []") (auto simp: landed_def appendLog_def log_contents_def dest: last_in_set)

lemma append_knows:
  assumes k: "knows fs c torn st" and s: "good s" and at_rest: "settled_on fs st" "js_saved st = Some saved"
    and d: "deltaFrom (js_heap st) saved s = (Some d, heap, shape)"
    and out: "append_record f d shape heap fs st = (e, fs', st')"
  shows "(e = None \<longrightarrow> fs' \<noteq> fs \<and> knows fs' (Some s) [] st') \<and>
    (\<not> landed f fs fs' \<longrightarrow> e \<noteq> None \<longrightarrow> (\<exists>torn'. knows fs' c torn' st')) \<and>
    (landed f fs fs' \<longrightarrow> sound_disk fs' (Some s) [] (js_seq st + 1)) \<and> clock_ok fs'"
proof -
  let ?q = "js_seq st" let ?body = "record_line (?q + 1) d" let ?line = "?body @ [newline]"
  obtain s0 where c: "c = Some s0" and sf: "shape_for (js_heap st) saved s0" and torn: "torn = []"
    and sd: "sound_disk fs (Some s0) [] ?q" and ck: "clock_ok fs" and
    left: "\<forall>p. sp_log (js_left st) = Some p \<longrightarrow> sp_mtime p < fi_clock fs"
    using k at_rest by (auto simp: knows_def)
  have q: "0 \<le> ?q" using sound_disk_seq [OF sd] by simp
  note spec = deltaFrom_spec [OF sf _ d] 
  have sok: "state_ok s" using s by (simp add: good_def)
  have tk: "takes s0 d s" using spec(4,5) [OF sok] by (auto simp: takes_def)
  have clean: "newline \<notin> set ?body"
    using record_line_clean [of "?q + 1" d newline] q tk by (auto simp: takes_def)
  show ?thesis
  proof (cases "?q + 1 \<le> MAX_SAFE")
    case False
    then have "encodeRecord (?q + 1) d = None" using q by (auto simp: encodeRecord_def)
    then show ?thesis using out k ck by (auto simp: append_record_def landed_def)
  next
    case True
    then have enc: "encodeRecord (?q + 1) d = Some ?line" using encodeRecord_line q by simp
    have ascii: "part = [] \<or> hd part < 0x80" if "part = take n ?line" for part n
      using record_line_ascii [of "?q + 1" d] q that by (cases n; cases ?body) auto
    have grew: "log_size (stamps_of (appendLog part fs)) = log_size (stamps_of fs) + byteLength part"
      if "part = take n ?line" for part n
      using byteLength_append [OF ascii [OF that], of "log_contents fs"]
      by (auto simp: log_size_def stamps_of_def stamp_of_def appendLog_def log_contents_def byteLength_def
          split: option.splits)
    have whole: "int (log_size (stamps_of (appendLog part fs))) - int (log_size (stamps_of fs)) = int (byteLength ?line)
        \<longleftrightarrow> length ?line \<le> n" if "part = take n ?line" for part n
      using grew [OF that] byteLength_take [of n ?line] that by simp
    let ?full = "appendLog ?line fs"
    have full: "sound_disk ?full (Some s) [] (?q + 1)" using append_sound [OF sd tk s True] .
    have part: "sound_disk (appendLog (take n ?line) fs) (Some s0) (take n ?line) ?q" if "\<not> length ?line \<le> n" for n
    proof (rule torn_sound [OF sd])
      show "newline \<notin> set (take n ?line)" using clean that by (auto dest: in_set_takeD)
    qed
    have torn_knows: "knows (appendLog (take n ?line) fs) c (take n ?line) st" if "\<not> length ?line \<le> n" for n
      using part [OF that] c clock_ok_append [OF ck, of "take n ?line"] stale_after_append [OF left] left
      by (auto simp: knows_def settled_on_def appendLog_def)
    have grown: "appendLog part fs \<noteq> fs" for part by (auto simp: appendLog_def dest: arg_cong [of _ _ fi_clock])
    have done_knows: "knows ?full (Some s) [] (st\<lparr>js_seq := ?q + 1, js_records := js_records st + 1,
        js_saved := Some shape, js_heap := heap, js_left := stamps_of ?full\<rparr>)"
      using full spec(1) [OF sok] clock_ok_append [OF ck, of ?line]
      by (auto simp: knows_def stamps_clock)
    show ?thesis
    proof (cases f)
      case (Torn_append n)
      then have o: "e = Some Append_threw" "fs' = appendLog (take n ?line) fs" "st' = st"
        using out enc by (auto simp: append_record_def)
      show ?thesis
      proof (cases "length ?line \<le> n")
        case True
        then have "fs' = ?full" using o by simp
        then show ?thesis
          using o full clock_ok_append [OF ck, of ?line] Torn_append
          by (auto simp: landed_def appendLog_def log_contents_def)
      next
        case False
        then have "newline \<notin> set (take n ?line)" using clean by (auto dest: in_set_takeD)
        then have "\<not> landed f fs fs'" unfolding o(2) by (rule torn_not_landed)
        then show ?thesis using torn_knows [OF False] o clock_ok_append [OF ck] by auto
      qed
    next
      case (Short_append n)
      show ?thesis
      proof (cases "length ?line \<le> n")
        case True
        then show ?thesis
          using out enc Short_append whole [of ?line n] done_knows grown clock_ok_append [OF ck, of ?line]
          by (auto simp: append_record_def landed_def Let_def)
      next
        case False
        then show ?thesis
          using out enc Short_append whole [OF refl, of n] torn_knows [OF False] clock_ok_append [OF ck]
          by (auto simp: append_record_def landed_def Let_def)
      qed
    qed (use out enc whole [of ?line "length ?line"] done_knows grown clock_ok_append [OF ck, of ?line] in
        \<open>auto simp: append_record_def landed_def Let_def\<close>)
  qed
qed

lemma knows_disk: "knows fs c torn st \<Longrightarrow> sound_disk fs c torn (js_seq st) \<and> clock_ok fs"
  by (simp add: knows_def)

lemma same_fold_refl: "same_fold w w"
  by (simp add: same_fold_def same_map_def)

lemma save_knows:
  assumes k: "knows fs c torn st" and s: "good s" and out: "save policy f s fs st = (e, fs', st')"
  shows "(\<not> landed f fs fs' \<longrightarrow> (\<exists>c' torn'. knows fs' c' torn' st' \<and> (c' = c \<or> c' = Some s) \<and>
       (e = None \<and> fs' \<noteq> fs \<longrightarrow> c' = Some s) \<and>
       (e = None \<and> \<not> js_mustSnapshot st \<longrightarrow> (\<exists>s'. c' = Some s' \<and> same_fold (fold_of s') (fold_of s))))) \<and>
    (\<exists>c' torn' q'. sound_disk fs' c' torn' q' \<and> (c' = c \<or> c' = Some s)) \<and> clock_ok fs'"
proof (cases "js_saved st = None \<or> foreignWrite st (stamps_of fs)")
  case True
  then have "snapshot f s fs st = (e, fs', st')" using out by (auto simp: save_def Let_def split: option.splits)
  from snapshot_knows [OF k s this] show ?thesis
    using knows_disk same_fold_refl by metis
next
  case False
  then obtain saved where sv: "js_saved st = Some saved" by auto
  obtain delta heap shape where d: "deltaFrom (js_heap st) saved s = (delta, heap, shape)"
    by (metis prod_cases3)
  show ?thesis
  proof (cases delta)
    case None
    then have same: "e = None" "fs' = fs" "st' = st" using out False sv d by (auto simp: save_def Let_def)
    have "\<exists>s'. c = Some s' \<and> same_fold (fold_of s') (fold_of s)" if ms: "\<not> js_mustSnapshot st"
    proof -
      have "js_left st = stamps_of fs"
        using False sv by (auto simp: foreignWrite_def same_stamp_def stamps_of_def)
      then obtain s0 where "c = Some s0" "shape_for (js_heap st) saved s0"
        using k sv ms by (auto simp: knows_def settled_on_def)
      then show ?thesis using deltaFrom_spec(3) [OF _ _ d] None s by (auto simp: good_def)
    qed
    then show ?thesis using k same by (auto simp: knows_def)
  next
    case (Some dd)
    note d = d [unfolded Some]
    show ?thesis
    proof (cases "js_mustSnapshot st \<or> wantsSnapshot (log_size (stamps_of fs)) (js_snapshotBytes st) (js_records st + 1) policy")
      case True
      then have "snapshot f s fs st = (e, fs', st')"
        using out False sv d by (auto simp: save_def Let_def)
      from snapshot_knows [OF k s this] show ?thesis
        using knows_disk same_fold_refl by metis
    next
      case quiet: False
      then have app: "append_record f dd shape heap fs st = (e, fs', st')"
        using out False sv d by (auto simp: save_def Let_def)
      have "settled_on fs st"
        using False sv quiet by (auto simp: settled_on_def foreignWrite_def same_stamp_def stamps_of_def)
      note a = append_knows [OF k s this sv d app]
      show ?thesis
      proof (cases e)
        case None
        then show ?thesis using a knows_disk same_fold_refl by blast
      next
        case (Some er)
        then show ?thesis using a knows_disk by (cases "landed f fs fs'") blast+
      qed
    qed
  qed
qed

lemma returned_not_landed:
  assumes "save policy f s fs st = (None, fs', st')"
  shows "\<not> landed f fs fs'"
proof -
  have "fs' = truncateLog (writeSnapshot (snapshot_text s (js_seq st)) fs)" if "snapshot f s fs st = (None, fs', st')"
    using that by (auto simp: snapshot_def Let_def split: if_splits)
  then have "log_contents fs' = []" if "snapshot f s fs st = (None, fs', st')"
    using that by (simp add: truncateLog_def log_contents_def)
  then show ?thesis
    using assms
    by (auto simp: landed_def save_def append_record_def Let_def split: option.splits if_splits prod.splits)
qed

section \<open>Sessions\<close>

text \<open>
  \<open>reach policy fs st cs\<close>: a device that started with no index has come to the files \<open>fs\<close> and the
  session \<open>st\<close>. \<open>cs\<close> is the ghost: what the next start may come up with, the last state a save
  returned for, and the states whose save threw, or was cut by a crash, since then.
\<close>

inductive reach :: "snapshot_policy \<Rightarrow> files \<Rightarrow> store \<Rightarrow> stored_state option list \<Rightarrow> bool" for policy where
  fresh: "reach policy \<lparr>fi_snapshot = None, fi_log = None, fi_clock = t\<rparr> fresh_store [None]"
| saved: "reach policy fs st cs \<Longrightarrow> good s \<Longrightarrow> save policy f s fs st = (None, fs', st') \<Longrightarrow>
    reach policy fs' st' (if js_mustSnapshot st \<and> fs' = fs then cs @ [Some s] else [Some s])"
| threw: "reach policy fs st cs \<Longrightarrow> good s \<Longrightarrow> save policy f s fs st = (Some e, fs', st') \<Longrightarrow>
    \<not> landed f fs fs' \<Longrightarrow> reach policy fs' st' (cs @ [Some s])"
| crashed: "reach policy fs st cs \<Longrightarrow> good s \<Longrightarrow> save policy f s fs st = (e, fs', st') \<Longrightarrow>
    load fs' fresh_store = Inr (v, st'') \<Longrightarrow> reach policy fs' st'' (cs @ [Some s])"
| restarted: "reach policy fs st cs \<Longrightarrow> load fs fresh_store = Inr (v, st') \<Longrightarrow> reach policy fs st' cs"

inductive_cases reach_elim: "reach policy fs st cs"

definition reads_as :: "json option \<Rightarrow> stored_state option \<Rightarrow> bool" where
  "reads_as v c \<longleftrightarrow>
     (case c of None \<Rightarrow> v = None
      | Some s \<Rightarrow> \<exists>s'. v = Some (state_json s') \<and> good s' \<and> same_fold (fold_of s') (fold_of s))"

definition same_option :: "stored_state option \<Rightarrow> stored_state option \<Rightarrow> bool" where
  "same_option a b \<longleftrightarrow> rel_option (\<lambda>s s'. same_fold (fold_of s) (fold_of s')) a b"

lemma same_option_simps [simp]:
  "same_option None b \<longleftrightarrow> b = None" "same_option a None \<longleftrightarrow> a = None"
  "same_option (Some s) (Some s') \<longleftrightarrow> same_fold (fold_of s) (fold_of s')"
  by (auto simp: same_option_def)

lemma same_option_refl: "same_option a a"
  by (cases a) (simp_all add: same_fold_def same_map_def)

lemma reads_as_same: "reads_as v c \<Longrightarrow> same_option c c' \<Longrightarrow> reads_as v c'"
  by (cases c; cases c') (auto simp: reads_as_def intro: same_fold_trans)

lemma load_knows:
  assumes "sound_disk fs c torn q" and "clock_ok fs"
  shows "\<exists>v st'. load fs fresh_store = Inr (v, st') \<and> reads_as v c \<and> knows fs c torn st' \<and>
     (js_mustSnapshot st' \<longleftrightarrow> torn \<noteq> [])"
proof (cases c)
  case None
  then have "load fs fresh_store = Inr (None, fresh_store\<lparr>js_left := stamps_of fs\<rparr>)"
    using load_sound [OF assms(1)] by simp
  moreover have "knows fs c torn (fresh_store\<lparr>js_left := stamps_of fs\<rparr>)"
    using assms None stamps_clock by (auto simp: knows_def fresh_store_def sound_disk_def)
  ultimately show ?thesis using None assms(1) by (simp add: reads_as_def fresh_store_def sound_disk_def)
next
  case (Some s)
  then obtain s' st' sh where l: "load fs fresh_store = Inr (Some (state_json s'), st')"
    "same_fold (fold_of s') (fold_of s)" "good s'" "js_seq st' = q" "js_left st' = stamps_of fs"
    "js_saved st' = Some sh" "shape_for (js_heap st') sh s" "js_mustSnapshot st' \<longleftrightarrow> torn \<noteq> []"
    using load_sound [OF assms(1)] by auto
  then have "knows fs c torn st'"
    using assms Some stamps_clock by (auto simp: knows_def settled_on_def)
  then show ?thesis using l Some by (auto simp: reads_as_def)
qed

theorem reach_knows:
  "reach policy fs st cs \<Longrightarrow> \<exists>c torn c0. knows fs c torn st \<and> c0 \<in> set cs \<and> same_option c c0"
proof (induction rule: reach.induct)
  case (fresh t)
  have "knows \<lparr>fi_snapshot = None, fi_log = None, fi_clock = t\<rparr> None [] fresh_store"
    by (auto simp: knows_def clock_ok_def sound_disk_def fresh_store_def log_contents_def)
  then show ?case by fastforce
next
  case (saved fs st cs s f fs' st')
  then obtain c torn c0 where k: "knows fs c torn st" "c0 \<in> set cs" "same_option c c0" by blast
  note a = save_knows [OF k(1) saved.hyps(2,3)]
  have "\<not> landed f fs fs'" by (rule returned_not_landed [OF saved.hyps(3)])
  then obtain c' torn' where c': "knows fs' c' torn' st'" "c' = c \<or> c' = Some s"
    "fs' \<noteq> fs \<longrightarrow> c' = Some s" "\<not> js_mustSnapshot st \<longrightarrow> (\<exists>s'. c' = Some s' \<and> same_fold (fold_of s') (fold_of s))"
    using a by blast
  show ?case
  proof (cases "js_mustSnapshot st \<and> fs' = fs")
    case True
    then show ?thesis using c' k same_option_refl by auto
  next
    case False
    then have "same_option c' (Some s)" using c' same_option_refl by auto
    then show ?thesis using c' False by auto
  qed
next
  case (threw fs st cs s f e fs' st')
  then obtain c torn c0 where k: "knows fs c torn st" "c0 \<in> set cs" "same_option c c0" by blast
  then obtain c' torn' where "knows fs' c' torn' st'" "c' = c \<or> c' = Some s"
    using save_knows [OF k(1) threw.hyps(2,3)] threw.hyps(4) by blast
  then show ?case using k same_option_refl by (metis Un_iff in_set_conv_decomp set_append)
next
  case (crashed fs st cs s f e fs' st' v st'')
  then obtain c torn c0 where k: "knows fs c torn st" "c0 \<in> set cs" "same_option c c0" by blast
  then obtain c' torn' q' where c': "sound_disk fs' c' torn' q'" "c' = c \<or> c' = Some s" "clock_ok fs'"
    using save_knows [OF k(1) crashed.hyps(2,3)] by blast
  then have "knows fs' c' torn' st''" using load_knows [OF c'(1,3)] crashed.hyps(4) by auto
  then show ?case using c' k same_option_refl by (metis Un_iff in_set_conv_decomp set_append)
next
  case (restarted fs st cs v st')
  then obtain c torn c0 where k: "knows fs c torn st" "c0 \<in> set cs" "same_option c c0" by blast
  then have "knows fs c torn st'" using load_knows knows_disk [OF k(1)] restarted.hyps(2) by fastforce
  then show ?case using k by blast
qed

section \<open>Any index store\<close>

text \<open>
  What the engine asks of an index store (the \<open>IndexStore\<close> interface of \<open>vault.ts\<close>): a state whose
  save returned is the one the next load gives. \<open>holds w c\<close> is the provider's own account of what it
  has stored. The client side is proved once, for the journal and for the store in memory.
\<close>

datatype store_op = Save stored_state | Reload

locale index_store =
  fixes save_in :: "stored_state \<Rightarrow> 'w \<Rightarrow> 'e option \<times> 'w"
    and load_from :: "'w \<Rightarrow> 'f + stored_state option \<times> 'w"
    and stored :: "'w \<Rightarrow> stored_state option \<Rightarrow> bool"
  assumes save_law: "stored w c \<Longrightarrow> good s \<Longrightarrow> save_in s w = (None, w') \<Longrightarrow> \<exists>c'. stored w' c' \<and> same_option c' (Some s)"
    and load_law: "stored w c \<Longrightarrow> \<exists>c' w'. load_from w = Inr (c', w') \<and> same_option c' c \<and> stored w' c"
begin

fun run :: "store_op list \<Rightarrow> 'w \<Rightarrow> 'w option" where
  "run [] w = Some w"
| "run (Save s # ops) w = (case save_in s w of (None, w') \<Rightarrow> run ops w' | _ \<Rightarrow> None)"
| "run (Reload # ops) w = (case load_from w of Inr (_, w') \<Rightarrow> run ops w' | Inl _ \<Rightarrow> None)"

fun last_saved :: "store_op list \<Rightarrow> stored_state option \<Rightarrow> stored_state option" where
  "last_saved [] c = c"
| "last_saved (Save s # ops) c = last_saved ops (Some s)"
| "last_saved (Reload # ops) c = last_saved ops c"

lemma same_option_trans: "same_option a b \<Longrightarrow> same_option b c \<Longrightarrow> same_option a c"
  by (cases a; cases b; cases c) (auto intro: same_fold_trans)

lemma run_stored:
  "run ops w = Some w' \<Longrightarrow> stored w c \<Longrightarrow> same_option c c0 \<Longrightarrow>
     \<forall>s. Save s \<in> set ops \<longrightarrow> good s \<Longrightarrow> \<exists>c'. stored w' c' \<and> same_option c' (last_saved ops c0)"
proof (induction ops arbitrary: w c c0)
  case (Cons a ops)
  show ?case
  proof (cases a)
    case (Save s)
    then obtain w1 where w1: "save_in s w = (None, w1)" "run ops w1 = Some w'"
      using Cons.prems(1) by (auto split: prod.splits option.splits)
    obtain c1 where "stored w1 c1" "same_option c1 (Some s)"
      using save_law [OF Cons.prems(2) _ w1(1)] Cons.prems(4) Save by auto
    then show ?thesis using Cons.IH [OF w1(2)] Cons.prems(4) Save by simp
  next
    case Reload
    obtain c1 w1 where w1: "load_from w = Inr (c1, w1)" "stored w1 c" using load_law [OF Cons.prems(2)] by blast
    then have "run ops w1 = Some w'" using Cons.prems(1) Reload by simp
    then show ?thesis using Cons.IH [OF _ w1(2) Cons.prems(3)] Cons.prems(4) Reload by simp
  qed
qed auto

theorem loads_last_saved:
  assumes "run ops w = Some w'" and "stored w c" and "\<forall>s. Save s \<in> set ops \<longrightarrow> good s"
  shows "\<exists>c' w''. load_from w' = Inr (c', w'') \<and> same_option c' (last_saved ops c)"
proof -
  obtain c1 where c1: "stored w' c1" "same_option c1 (last_saved ops c)"
    using run_stored [OF assms(1,2) same_option_refl assms(3)] by blast
  then show ?thesis using load_law [OF c1(1)] same_option_trans by blast
qed

end

text \<open>The journal, on a disk that does what it is asked: files and session together are its world.\<close>

definition journal_save :: "snapshot_policy \<Rightarrow> stored_state \<Rightarrow> files \<times> store \<Rightarrow> save_error option \<times> files \<times> store" where
  "journal_save policy s w = save policy No_fault s (fst w) (snd w)"

definition journal_load :: "files \<times> store \<Rightarrow> load_error + stored_state option \<times> files \<times> store" where
  "journal_load w = (case load (fst w) fresh_store of
     Inl e \<Rightarrow> Inl e
   | Inr (v, st) \<Rightarrow> Inr (case validateStoredState v of Inr c \<Rightarrow> c | Inl _ \<Rightarrow> None, fst w, st))"

definition journal_stored :: "files \<times> store \<Rightarrow> stored_state option \<Rightarrow> bool" where
  "journal_stored w c \<longleftrightarrow> knows (fst w) c [] (snd w) \<and> \<not> js_mustSnapshot (snd w)"

lemma validate_good: "good s \<Longrightarrow> validateStoredState (Some (state_json s)) = Inr (Some s)"
  unfolding validate_Some
  by (simp add: good_def state_json_def field_Cons isObject_def count_of_def usable_def)

lemma save_clean:
  assumes "knows fs c [] st" and "\<not> js_mustSnapshot st" and "good s"
    and out: "save policy f s fs st = (None, fs', st')"
  shows "\<exists>c'. knows fs' c' [] st' \<and> same_option c' (Some s) \<and> \<not> js_mustSnapshot st'"
proof -
  have snap: "settled_on fs' st'" if "snapshot f s fs st = (None, fs', st')"
    using that by (auto simp: snapshot_def settled_on_def Let_def split: if_splits)
  have app: "settled_on fs' st'" if "append_record f d shape heap fs st = (None, fs', st')" for d shape heap
    using that assms(2) by (auto simp: append_record_def settled_on_def Let_def split: option.splits fault.splits if_splits)
  have "settled_on fs st" if "js_saved st \<noteq> None" "\<not> foreignWrite st (stamps_of fs)"
    using that assms(2) by (auto simp: settled_on_def foreignWrite_def same_stamp_def stamps_of_def)
  then have "settled_on fs' st'"
    using out snap app by (auto simp: save_def Let_def split: option.splits if_splits prod.splits)
  moreover obtain c' torn' where "knows fs' c' torn' st'" "same_option c' (Some s)"
    using save_knows [OF assms(1,3) out] returned_not_landed [OF out] assms(2) same_option_simps(3) by metis
  ultimately show ?thesis by (auto simp: knows_def settled_on_def)
qed

lemma journal_load_stored:
  assumes "knows fs c [] st"
  shows "\<exists>c' st'. journal_load (fs, st) = Inr (c', fs, st') \<and> same_option c' c \<and> knows fs c [] st' \<and> \<not> js_mustSnapshot st'"
proof -
  obtain v st' where l: "load fs fresh_store = Inr (v, st')" "reads_as v c" "knows fs c [] st'" "\<not> js_mustSnapshot st'"
    using load_knows knows_disk [OF assms] by blast
  have "\<exists>c'. validateStoredState v = Inr c' \<and> same_option c' c"
  proof (cases c)
    case None
    then show ?thesis using l(2) by (simp add: reads_as_def validateStoredState_def)
  next
    case (Some s)
    then show ?thesis using l(2) validate_good by (auto simp: reads_as_def)
  qed
  then show ?thesis using l by (auto simp: journal_load_def)
qed

interpretation journal: index_store "journal_save policy" journal_load journal_stored
proof
  fix w c s w'
  assume "journal_stored w c" "good s" "journal_save policy s w = (None, w')"
  then show "\<exists>c'. journal_stored w' c' \<and> same_option c' (Some s)"
    using save_clean [of "fst w" c "snd w" s policy No_fault "fst w'" "snd w'"]
    by (auto simp: journal_stored_def journal_save_def)
next
  fix w c
  assume "journal_stored w c"
  then show "\<exists>c' w'. journal_load w = Inr (c', w') \<and> same_option c' c \<and> journal_stored w' c"
    using journal_load_stored [of "fst w" c "snd w"] by (cases w) (auto simp: journal_stored_def)
qed

interpretation memory: index_store "\<lambda>s m. (None :: unit option, memory_save s m)"
  "\<lambda>m. Inr (memory_load m, m) :: unit + stored_state option \<times> memory_store" "\<lambda>m c. ms_state m = c"
  by unfold_locales (auto simp: memory_save_def memory_load_def same_fold_refl same_option_refl)

section \<open>Two ways a state is lost\<close>

definition empty_disk :: "int \<Rightarrow> files" where
  "empty_disk t = \<lparr>fi_snapshot = None, fi_log = None, fi_clock = t\<rparr>"

lemma fresh_knows: "knows (empty_disk t) None [] fresh_store"
  by (auto simp: knows_def clock_ok_def sound_disk_def fresh_store_def log_contents_def empty_disk_def)

lemma first_save:
  assumes "save policy f s (empty_disk t) fresh_store = (None, fs, st)"
  shows "fs = truncateLog (writeSnapshot (snapshot_text s 0) (empty_disk t)) \<and> js_seq st = 0 \<and>
    \<not> js_mustSnapshot st \<and> js_left st = stamps_of fs \<and>
    (\<exists>heap sh. shapeOf 0 (state_json s) = Some (heap, sh) \<and> js_saved st = Some sh \<and> js_heap st = heap)"
proof -
  obtain heap sh where "shapeOf 0 (state_json s) = Some (heap, sh)" using shapeOf_some by blast
  then show ?thesis using assms
    by (auto simp: save_def snapshot_def fresh_store_def Let_def split: if_splits)
qed



text \<open>C14. On a disk that does what it is asked, any run of saves and restarts ends in a journal whose
  next load gives back the last state saved.\<close>

theorem journal_loads_last_saved:
  assumes "journal.run policy ops (empty_disk t, fresh_store) = Some w"
    and "\<forall>s. Save s \<in> set ops \<longrightarrow> good s"
  shows "\<exists>c w'. journal_load w = Inr (c, w') \<and> same_option c (journal.last_saved ops None)"
proof (rule journal.loads_last_saved [OF assms(1) _ assms(2)])
  show "journal_stored (empty_disk t, fresh_store) None"
    using fresh_knows by (simp add: journal_stored_def) (simp add: fresh_store_def)
qed

lemma journal_loads_last_saved_witness:
  "\<exists>c w w'. journal_save DEFAULT_POLICY \<lparr>ss_cursor = 1, ss_entries = [], ss_remote = [], ss_pending = []\<rparr>
       (empty_disk 0, fresh_store) = (None, w) \<and> journal_load w = Inr (c, w') \<and>
     same_option c (Some \<lparr>ss_cursor = 1, ss_entries = [], ss_remote = [], ss_pending = []\<rparr>)"
proof -
  let ?s = "\<lparr>ss_cursor = 1, ss_entries = [], ss_remote = [], ss_pending = []\<rparr>"
  obtain w where w: "journal_save DEFAULT_POLICY ?s (empty_disk 0, fresh_store) = (None, w)"
    by (simp add: journal_save_def save_def snapshot_def fresh_store_def Let_def)
  have "good ?s" by (simp add: good_def state_ok_def obj_ok_def usable_def MAX_SAFE_def)
  then have "\<forall>s. Save s \<in> set [Save ?s] \<longrightarrow> good s" by auto
  moreover have "journal.run DEFAULT_POLICY [Save ?s] (empty_disk 0, fresh_store) = Some w" using w by simp
  ultimately obtain c w' where "journal_load w = Inr (c, w')" "same_option c (journal.last_saved [Save ?s] None)"
    using journal_loads_last_saved by blast
  then show ?thesis using w by auto
qed

lemma replay_one:
  assumes "d = JObj kvs" and "json_ok d" and "foldInto (copyOf base) d = Some w"
  shows "\<exists>r. replay base 0 (record_line 1 d @ [newline]) = Some r \<and> rp_state r = state_of w \<and> rp_seq r = 1"
proof -
  have d: "decodeRecord (record_line 1 d) = Inr (1, d)" "record_line 1 d \<noteq> []" "newline \<notin> set (record_line 1 d)"
    using decode_line [of 0 d] record_line_clean [of 1 d newline] assms(1,2) by (auto simp: MAX_SAFE_def)
  have "split_on newline (record_line 1 d @ [newline]) = [record_line 1 d, []]"
    by (simp add: split_on_line [OF d(3)])
  then show ?thesis using d assms(3) by (simp add: replay_def Let_def)
qed

text \<open>C24. A record whose append reached the disk but whose call threw (the stat behind it failed, say) is
  not counted, so the next save, which replaces both files, writes its snapshot under the old sequence
  number. If that save is cut short before it empties the log, the next start replays the stray record
  over a state it was not computed from.\<close>

theorem landed_append_invents_a_state:
  assumes "good s0" and "good s1" and "good s2"
    and "save policy No_fault s0 (empty_disk t) fresh_store = (None, fs0, st0)"
    and "save policy (Torn_append n) s1 fs0 st0 = (Some Append_threw, fs1, st1)"
    and "landed (Torn_append n) fs0 fs1"
    and "save policy Truncate_fails s2 fs1 st1 = (Some Truncate_threw, fs2, st2)"
  shows "\<exists>d v. deltaBetween (state_json s0) s1 = Some (Some d) \<and> applyDelta (state_json s2) d = Some v \<and>
     (checks v \<longrightarrow> (\<exists>st. load fs2 fresh_store = Inr (Some v, st)))"
proof -
  obtain heap sh where
    fs0: "fs0 = truncateLog (writeSnapshot (snapshot_text s0 0) (empty_disk t))" and
    st0: "js_seq st0 = 0" "\<not> js_mustSnapshot st0" "js_left st0 = stamps_of fs0" "js_saved st0 = Some sh" "js_heap st0 = heap"
    and sh: "shapeOf 0 (state_json s0) = Some (heap, sh)"
    using first_save [OF assms(4)] by blast
  obtain delta heap' shape where df: "deltaFrom heap sh s1 = (delta, heap', shape)" by (metis prod_cases3)
  have no_foreign: "\<not> foreignWrite st0 (stamps_of fs0)" using st0 by (simp add: foreignWrite_def same_stamp_def)
  have not_snap: "snapshot f s fs st \<noteq> (Some Append_threw, fs', st')" for f s fs st fs' st'
    by (auto simp: snapshot_def Let_def)
  from assms(5) obtain d where d: "delta = Some d"
    and app: "append_record (Torn_append n) d shape heap' fs0 st0 = (Some Append_threw, fs1, st1)"
    using st0 df no_foreign not_snap by (auto simp: save_def Let_def split: option.splits if_splits)
  let ?line = "record_line 1 d @ [newline]"
  have sf: "shape_for heap sh s0" using shapeOf_state sh assms(1) by (simp add: good_def)
  note spec = deltaFrom_spec [OF sf _ df]
  have ok: "state_ok s1" "state_ok s2" using assms(2,3) by (simp_all add: good_def)
  obtain kvs where kvs: "d = JObj kvs" "json_ok d" using spec(5) [OF ok(1) d] by blast
  have enc: "encodeRecord (js_seq st0 + 1) d = Some ?line" using encodeRecord_line [of 1 d] st0 by (simp add: MAX_SAFE_def)
  have o: "fs1 = appendLog (take n ?line) fs0" "st1 = st0"
    using app unfolding append_record_def enc by auto
  have "\<not> newline \<notin> set (take n ?line)" using assms(6) torn_not_landed o(1) by blast
  moreover have "newline \<notin> set (record_line 1 d)" using record_line_clean [of 1 d newline] kvs by simp
  ultimately have "length ?line \<le> n" by (auto dest: in_set_takeD split: if_splits simp: not_le take_Cons')
  then have fs1: "fs1 = appendLog ?line fs0" using o by simp
  have "stamps_of fs1 \<noteq> stamps_of fs0"
    by (auto simp: fs1 fs0 appendLog_def truncateLog_def writeSnapshot_def empty_disk_def stamps_of_def stamp_of_def)
  then have "foreignWrite st1 (stamps_of fs1)" using st0 o by (auto simp: foreignWrite_def same_stamp_def stamps_of_def)
  then have "snapshot Truncate_fails s2 fs1 st1 = (Some Truncate_threw, fs2, st2)"
    using assms(7) st0 o by (auto simp: save_def Let_def)
  then have fs2: "fs2 = writeSnapshot (snapshot_text s2 0) fs1" using o st0 by (auto simp: snapshot_def Let_def)
  have "same_fold (copyOf (state_json s0)) (fold_of s0)" by (simp add: copyOf_state_json same_fold_refl)
  obtain w where w: "foldInto (copyOf (state_json s2)) d = Some w"
  proof -
    have "foldInto u d \<noteq> None" if "foldInto v d \<noteq> None" for u v
      using that by (auto simp: foldInto_def split: option.splits)
    then show ?thesis using spec(4) [OF ok(1) d, of "fold_of s0"] same_fold_refl that by fastforce
  qed
  obtain r where r: "replay (state_json s2) 0 ?line = Some r" "rp_state r = state_of w"
    using replay_one [OF kvs w] by blast
  obtain p where p: "parse_json (snapshot_text s2 0) = Some p" "sequenceOf p = Some 0" "withoutSeq p = state_json s2"
    using snapshot_reads_back [OF ok(2), of 0] by (auto simp: MAX_SAFE_def)
  obtain hv shv where shape: "shapeOf 0 (state_of w) = Some (hv, shv)"
    by (simp add: shapeOf_def state_of_def case_prod_beta' Let_def)
  have files: "fi_snapshot fs2 = Some (snapshot_text s2 0, fi_clock fs1)"
    "fi_log fs2 = Some (?line, fi_clock fs0)"
    by (simp_all add: fs2 fs1 fs0 writeSnapshot_def appendLog_def truncateLog_def log_contents_def)
  have "checks (state_of w) \<longrightarrow> (\<exists>st. load fs2 fresh_store = Inr (Some (state_of w), st))"
    using files p r shape by (simp add: load_def Let_def settled_def settle_def fresh_store_def)
  moreover have "deltaBetween (state_json s0) s1 = Some (Some d)"
    using sh df d by (simp add: deltaBetween_def)
  moreover have "applyDelta (state_json s2) d = Some (state_of w)" using w by (simp add: applyDelta_def)
  ultimately show ?thesis by blast
qed

lemma landed_append_invents_a_state_witness:
  "let s0 = \<lparr>ss_cursor = 0, ss_entries = [], ss_remote = [], ss_pending = []\<rparr>;
       s1 = \<lparr>ss_cursor = 1, ss_entries = [], ss_remote = [], ss_pending = []\<rparr>;
       s2 = \<lparr>ss_cursor = 2, ss_entries = [(lit ''b'', JObj [])], ss_remote = [], ss_pending = []\<rparr>;
       mixed = \<lparr>ss_cursor = 1, ss_entries = [(lit ''b'', JObj [])], ss_remote = [], ss_pending = []\<rparr>
   in \<exists>n fs0 st0 fs1 st1 fs2 st2 st.
        save DEFAULT_POLICY No_fault s0 (empty_disk 0) fresh_store = (None, fs0, st0) \<and>
        save DEFAULT_POLICY (Torn_append n) s1 fs0 st0 = (Some Append_threw, fs1, st1) \<and>
        save DEFAULT_POLICY Truncate_fails s2 fs1 st1 = (Some Truncate_threw, fs2, st2) \<and>
        load fs2 fresh_store = Inr (Some (state_json mixed), st)"
proof -
  let ?s0 = "\<lparr>ss_cursor = 0, ss_entries = [], ss_remote = [], ss_pending = []\<rparr>"
  let ?s1 = "\<lparr>ss_cursor = 1, ss_entries = [], ss_remote = [], ss_pending = []\<rparr>"
  let ?s2 = "\<lparr>ss_cursor = 2, ss_entries = [(lit ''b'', JObj [])], ss_remote = [], ss_pending = []\<rparr>"
  let ?mixed = "\<lparr>ss_cursor = 1, ss_entries = [(lit ''b'', JObj [])], ss_remote = [], ss_pending = []\<rparr>"
  have entry: "checkEntry (lit ''b'', JObj []) = None"
    by (simp add: checkEntry_def field_Nil is_path_def isObject_def synced_without_chunks_def)
  have good: "good ?s0" "good ?s1" "good ?s2" "good ?mixed"
    using entry by (simp_all add: good_def state_ok_def obj_ok_def usable_def MAX_SAFE_def del: lit_Cons lit_Nil)
  obtain fs0 st0 where s0: "save DEFAULT_POLICY No_fault ?s0 (empty_disk 0) fresh_store = (None, fs0, st0)"
    by (simp add: save_def snapshot_def fresh_store_def Let_def)
  note first = first_save [OF s0]
  let ?shape = "\<lparr>sh_cursor = Some (JNum 0), sh_entries = [], sh_remote = [], sh_pending = []\<rparr>"
  have sh: "shapeOf 0 (state_json ?s0) = Some (0, ?shape)"
    by (simp add: shapeOf_def state_json_def serialised_def field_Cons listOf_def)
  let ?d = "JObj [(lit ''cursor'', JNum 1)]"
  have df: "deltaFrom 0 ?shape ?s1 = (Some ?d, 0, ?shape\<lparr>sh_cursor := Some (JNum 1)\<rparr>)"
    by (simp add: deltaFrom_def serialised_def changed_def samePending_def Let_def)
  have st0: "js_seq st0 = 0" "\<not> js_mustSnapshot st0" "js_left st0 = stamps_of fs0" "js_saved st0 = Some ?shape"
    "js_heap st0 = 0" using first sh by auto
  have fs0: "log_size (stamps_of fs0) = 0" "log_contents fs0 = []"
    "fi_log fs0 = Some ([], 1)" "fi_clock fs0 = 2"
    using first by (simp_all add: truncateLog_def writeSnapshot_def empty_disk_def log_size_def stamps_of_def
        stamp_of_def byteLength_def log_contents_def)
  let ?line = "record_line 1 ?d @ [newline]" let ?n = "length ?line"
  have enc: "encodeRecord 1 ?d = Some ?line" using encodeRecord_line [of 1 ?d] by (simp add: MAX_SAFE_def)
  have quiet: "\<not> wantsSnapshot 0 b 1 DEFAULT_POLICY" if "js_records st0 = 0" for b
    by (simp add: wantsSnapshot_def DEFAULT_POLICY_def)
  have recs: "js_records st0 = 0"
    using s0 by (auto simp: save_def snapshot_def fresh_store_def Let_def split: option.splits)
  let ?fs1 = "appendLog ?line fs0"
  have s1: "save DEFAULT_POLICY (Torn_append ?n) ?s1 fs0 st0 = (Some Append_threw, ?fs1, st0)"
    using st0 fs0 df enc quiet recs
    by (simp add: save_def foreignWrite_def same_stamp_def append_record_def Let_def del: lit_Cons lit_Nil)
  have landed: "landed (Torn_append ?n) fs0 ?fs1"
    using fs0 by (simp add: landed_def appendLog_def log_contents_def)
  have "stamps_of ?fs1 \<noteq> stamps_of fs0"
    using fs0 by (auto simp: appendLog_def stamps_of_def stamp_of_def)
  then have "foreignWrite st0 (stamps_of ?fs1)" using st0 by (auto simp: foreignWrite_def same_stamp_def stamps_of_def)
  then obtain fs2 st2 where s2: "save DEFAULT_POLICY Truncate_fails ?s2 ?fs1 st0 = (Some Truncate_threw, fs2, st2)"
    using st0 by (simp add: save_def snapshot_def Let_def)
  have delta: "deltaBetween (state_json ?s0) ?s1 = Some (Some ?d)" using sh df by (simp add: deltaBetween_def del: lit_Cons lit_Nil)
  have "foldInto (fold_of ?s2) ?d = Some (fold_of ?mixed)"
    by (simp add: fold_of_def foldInto_def field_Cons field_Nil iterate_or_empty_def
        entries_of_def assign_all_def delete_all_def)
  moreover have "state_of (fold_of ?mixed) = state_json ?mixed"
    by (simp add: state_of_def fold_of_def state_json_def)
  ultimately have app: "applyDelta (state_json ?s2) ?d = Some (state_json ?mixed)"
    by (simp only: applyDelta_def copyOf_state_json option.map)
  have "checks (state_json ?mixed)" by (rule checks_good [OF good(4)])
  then have "\<exists>st. load fs2 fresh_store = Inr (Some (state_json ?mixed), st)"
    using landed_append_invents_a_state [OF good(1-3) s0 s1 landed s2] delta app by (auto simp del: lit_Cons lit_Nil)
  then show ?thesis using s0 s1 s2 unfolding Let_def by blast
qed

text \<open>After a snapshot that was written but whose log could not be emptied, saving the earlier state
  again writes nothing and reports success: the session still compares against the earlier state, while
  the disk holds the one whose save threw, and that is what the next start loads.\<close>

theorem save_after_failed_truncate_is_skipped:
  assumes "good s0" and "good s1"
    and "save policy No_fault s0 (empty_disk t) fresh_store = (None, fs0, st0)"
    and "save policy g s1 fs0 st0 = (Some Truncate_threw, fs1, st1)"
  shows "save policy f s0 fs1 st1 = (None, fs1, st1) \<and>
     (\<exists>v st. load fs1 fresh_store = Inr (v, st) \<and> reads_as v (Some s1))"
proof -
  obtain heap sh where
    st0: "js_saved st0 = Some sh" "js_heap st0 = heap" "js_seq st0 = 0" and
    sh: "shapeOf 0 (state_json s0) = Some (heap, sh)"
    using first_save [OF assms(3)] by blast
  have "append_record g d shape heap' fs0 st0 \<noteq> (Some Truncate_threw, fs1, st1)" for d shape heap'
    by (auto simp: append_record_def Let_def split: option.splits fault.splits)
  then have snap: "snapshot g s1 fs0 st0 = (Some Truncate_threw, fs1, st1)"
    using assms(4) st0 by (auto simp: save_def Let_def split: option.splits if_splits prod.splits)
  then have fs1: "fs1 = writeSnapshot (snapshot_text s1 0) fs0" and st1: "js_left st1 = stamps_of fs1"
    "js_saved st1 = Some sh" "js_heap st1 = heap"
    using st0 by (auto simp: snapshot_def Let_def split: if_splits)
  have "shape_for heap sh s0" using shapeOf_state sh assms(1) by (simp add: good_def)
  then have "fst (deltaFrom heap sh s0) = None"
    using deltaFrom_settled assms(1) same_fold_refl by (simp add: good_def)
  then have "save policy f s0 fs1 st1 = (None, fs1, st1)"
    using st1 by (auto simp: save_def Let_def foreignWrite_def same_stamp_def split: prod.splits)
  moreover have "\<exists>v st. load fs1 fresh_store = Inr (v, st) \<and> reads_as v (Some s1)"
  proof -
    obtain torn c where "knows fs0 c torn st0"
      using save_knows [OF fresh_knows assms(1,3)] returned_not_landed [OF assms(3)] by blast
    then obtain torn1 where "sound_disk fs1 (Some s1) torn1 (js_seq st0)" "clock_ok fs1"
      using snapshot_sound [OF _ assms(2)] knows_disk clock_ok_write fs1 st0(3) by metis
    then show ?thesis using load_knows by blast
  qed
  ultimately show ?thesis by blast
qed

lemma save_after_failed_truncate_is_skipped_witness:
  "let s0 = \<lparr>ss_cursor = 0, ss_entries = [], ss_remote = [], ss_pending = []\<rparr>;
       s1 = \<lparr>ss_cursor = 1, ss_entries = [], ss_remote = [], ss_pending = []\<rparr>;
       policy = DEFAULT_POLICY\<lparr>po_maxRecords := 1\<rparr>
   in \<exists>fs0 st0 fs1 st1.
        save policy No_fault s0 (empty_disk 0) fresh_store = (None, fs0, st0) \<and>
        save policy Truncate_fails s1 fs0 st0 = (Some Truncate_threw, fs1, st1) \<and>
        save policy No_fault s0 fs1 st1 = (None, fs1, st1)"
proof -
  let ?s0 = "\<lparr>ss_cursor = 0, ss_entries = [], ss_remote = [], ss_pending = []\<rparr>"
  let ?s1 = "\<lparr>ss_cursor = 1, ss_entries = [], ss_remote = [], ss_pending = []\<rparr>"
  let ?p = "DEFAULT_POLICY\<lparr>po_maxRecords := 1\<rparr>"
  have good: "good ?s0" "good ?s1"
    by (simp_all add: good_def state_ok_def obj_ok_def usable_def MAX_SAFE_def)
  obtain fs0 st0 where s0: "save ?p No_fault ?s0 (empty_disk 0) fresh_store = (None, fs0, st0)"
    by (simp add: save_def snapshot_def fresh_store_def Let_def)
  let ?shape = "\<lparr>sh_cursor = Some (JNum 0), sh_entries = [], sh_remote = [], sh_pending = []\<rparr>"
  have sh: "shapeOf 0 (state_json ?s0) = Some (0, ?shape)"
    by (simp add: shapeOf_def state_json_def serialised_def field_Cons listOf_def)
  have df: "deltaFrom 0 ?shape ?s1 = (Some (JObj [(lit ''cursor'', JNum 1)]), 0, ?shape\<lparr>sh_cursor := Some (JNum 1)\<rparr>)"
    by (simp add: deltaFrom_def serialised_def changed_def samePending_def Let_def)
  have st0: "js_seq st0 = 0" "js_left st0 = stamps_of fs0" "js_saved st0 = Some ?shape" "js_heap st0 = 0"
    using first_save [OF s0] sh by auto
  have "wantsSnapshot a b (k + 1) ?p" for a b k by (simp add: wantsSnapshot_def)
  then obtain fs1 st1 where s1: "save ?p Truncate_fails ?s1 fs0 st0 = (Some Truncate_threw, fs1, st1)"
    using st0 df by (simp add: save_def foreignWrite_def same_stamp_def snapshot_def Let_def)
  show ?thesis
    using s0 s1 save_after_failed_truncate_is_skipped [OF good s0 s1, of No_fault] unfolding Let_def by blast
qed

text \<open>A snapshot file that holds \<open>null\<close> is handed on for the engine's check to name, and \<open>settle\<close>
  throws on it first.\<close>

lemma null_snapshot_throws:
  "load \<lparr>fi_snapshot = Some (lit ''null'', 0), fi_log = None, fi_clock = 1\<rparr> fresh_store = Inl Type_error"
proof -
  have "parse_json (lit ''null'') = Some JNull"
    using parse_stringify [of JNull] by simp
  then show ?thesis
    by (simp add: load_def Let_def settled_def settle_def shapeOf_def withoutSeq_def sequenceOf_def field_def del: lit_Cons)
qed

end
