(* ===== verification/Wire.thy ===== *)
theory Wire
  imports Stored_State
begin

text \<open>
  What arrives from the server and how it is judged: the error table, the batch frames and their
  continuity, lists of entries and chunk names (\<open>client/src/core/transport.ts\<close>), and the checks the
  engine makes of an entry before it acts on it (\<open>client/src/core/engine.ts\<close>).

  A frame is JSON; a number in it is a rational, since nothing has said yet that it is an integer.
\<close>

section \<open>Refusals\<close>

record protocol_error =
  pe_code :: jstring
  pe_retryable :: bool
  pe_retryAfterMs :: "rat option"

definition ENDS_SESSION :: "string list" where
  "ENDS_SESSION = [''proto'', ''auth'', ''cursor'', ''busy'', ''protostate'', ''nospace'', ''internal'', ''rotated'']"

definition retryableByCode :: "jstring \<Rightarrow> bool" where
  "retryableByCode code \<longleftrightarrow> code = lit ''busy'' \<or> code = lit ''nospace'' \<or> code = lit ''internal''"

definition ProtocolError :: "jstring \<Rightarrow> bool option \<Rightarrow> rat option \<Rightarrow> protocol_error" where
  "ProtocolError code retryable after = \<lparr>pe_code = code,
     pe_retryable = (case retryable of Some b \<Rightarrow> b | None \<Rightarrow> retryableByCode code),
     pe_retryAfterMs = after\<rparr>"

definition fatal :: "protocol_error \<Rightarrow> bool" where
  "fatal e = (\<not> pe_retryable e)"

definition endsSession :: "protocol_error \<Rightarrow> bool" where
  "endsSession e = (pe_code e \<in> set (map lit ENDS_SESSION))"

text \<open>The finite number a value is, when it is one.\<close>

definition number_in :: "json option \<Rightarrow> rat option" where
  "number_in v =
     (case v of Some (JNum n) \<Rightarrow> Some (of_int n) | Some (JReal t) \<Rightarrow> js_number t | _ \<Rightarrow> None)"

text \<open>\<open>String(v ?? dflt)\<close>.\<close>

definition string_or :: "json option \<Rightarrow> string \<Rightarrow> jstring" where
  "string_or v dflt = (case v of None \<Rightarrow> lit dflt | Some JNull \<Rightarrow> lit dflt | Some w \<Rightarrow> property_key w)"

definition errorFrom :: "json \<Rightarrow> protocol_error" where
  "errorFrom frame =
     ProtocolError (string_or (field frame (lit ''code'')) ''unknown'')
       (case field frame (lit ''retryable'') of Some (JBool b) \<Rightarrow> Some b | _ \<Rightarrow> None)
       (case number_in (field frame (lit ''retryAfterMs'')) of
          Some q \<Rightarrow> if q > 0 then Some q else None | None \<Rightarrow> None)"

text \<open>\<open>protoRefusal\<close>: a \<open>proto\<close> refusal is never retried; any other error passes through.\<close>

definition protoRefusal :: "protocol_error \<Rightarrow> protocol_error" where
  "protoRefusal err =
     (if pe_code err = lit ''proto'' then ProtocolError (lit ''proto'') (Some False) None else err)"

definition protostate :: protocol_error where
  "protostate = ProtocolError (lit ''protostate'') None None"

section \<open>Batches\<close>

definition numberOf :: "json option \<Rightarrow> rat" where
  "numberOf v = (case number_in v of Some q \<Rightarrow> q | None \<Rightarrow> 0)"

definition batch_entry_ok :: "rat \<Rightarrow> rat \<Rightarrow> json \<Rightarrow> bool" where
  "batch_entry_ok from to e =
     (case number_in (field e (lit ''uid'')) of None \<Rightarrow> False
      | Some uid \<Rightarrow>
          (case field e (lit ''path'') of Some (JStr p) \<Rightarrow> p \<noteq> [] | _ \<Rightarrow> False)
          \<and> (case field e (lit ''chunks'') of Some (JArr names) \<Rightarrow> list_all isChunkName names | _ \<Rightarrow> False)
          \<and> \<not> (uid < from \<or> uid > to))"

text \<open>\<open>onBatchFrame\<close> up to handing the batch over, at a cursor.\<close>

definition checkBatch :: "rat \<Rightarrow> json \<Rightarrow> protocol_error + rat \<times> rat \<times> json list" where
  "checkBatch cursor frame =
     (let from = numberOf (field frame (lit ''from'')); to = numberOf (field frame (lit ''to'')) in
      case field frame (lit ''entries'') of
        Some (JArr entries) \<Rightarrow>
          if from \<noteq> cursor + 1 then Inl protostate
          else if to < from then Inl protostate
          else if \<not> list_all (batch_entry_ok from to) entries then Inl protostate
          else Inr (from, to, entries)
      | _ \<Rightarrow> Inl protostate)"

text \<open>
  The whole handler: \<open>onBatch\<close> may throw, and only after it returned is the cursor moved. The second
  component is what was handed over.
\<close>

definition onBatchFrame ::
  "(rat \<times> rat \<times> json list \<Rightarrow> bool) \<Rightarrow> rat \<Rightarrow> json \<Rightarrow> protocol_error option + rat \<times> (rat \<times> rat \<times> json list)" where
  "onBatchFrame applies cursor frame =
     (case checkBatch cursor frame of
        Inl e \<Rightarrow> Inl (Some e)
      | Inr batch \<Rightarrow> if applies batch then Inr (fst (snd batch), batch) else Inl None)"

text \<open>A session's run of batch frames, each handled at the cursor the last one left.\<close>

inductive catch_up ::
  "(rat \<times> rat \<times> json list \<Rightarrow> bool) \<Rightarrow> rat \<Rightarrow> (rat \<times> rat \<times> json list) list \<Rightarrow> rat \<Rightarrow> bool"
  for applies where
  idle: "catch_up applies cursor [] cursor"
| batch: "onBatchFrame applies cursor frame = Inr (cursor', batch) \<Longrightarrow>
     catch_up applies cursor' batches final \<Longrightarrow> catch_up applies cursor (batch # batches) final"

inductive_cases catch_up_ConsE: "catch_up applies cursor (batch # batches) final"
inductive_simps catch_up_Nil [simp]: "catch_up applies cursor [] final"

section \<open>Lists of names and entries\<close>

definition countOf :: "json \<Rightarrow> jstring \<Rightarrow> protocol_error + int" where
  "countOf reply f =
     (case number_in (field reply f) of
        Some q \<Rightarrow> if of_int \<lfloor>q\<rfloor> = q \<and> 0 \<le> q then Inr \<lfloor>q\<rfloor> else Inl protostate
      | None \<Rightarrow> Inl protostate)"

definition chunkNames :: "json option \<Rightarrow> protocol_error + jstring list" where
  "chunkNames v =
     (case v of Some (JArr names) \<Rightarrow> if list_all isChunkName names then Inr (map text_of names) else Inl protostate
      | _ \<Rightarrow> Inl protostate)"

fun wanted_names :: "jstring set \<Rightarrow> jstring set \<Rightarrow> json list \<Rightarrow> protocol_error + jstring list" where
  "wanted_names offered seen [] = Inr []"
| "wanted_names offered seen (n # ns) =
     (case n of JStr name \<Rightarrow>
        if name \<notin> offered then Inl (ProtocolError (lit ''badchunk'') None None)
        else if name \<in> seen then Inl protostate
        else try_then (wanted_names offered (insert name seen) ns) (\<lambda>rest. Inr (name # rest))
      | _ \<Rightarrow> Inl protostate)"

definition wanted :: "json \<Rightarrow> jstring set \<Rightarrow> protocol_error + jstring list" where
  "wanted reply offered =
     (case field reply (lit ''chunks'') of
        Some (JArr names) \<Rightarrow> wanted_names offered {} names | _ \<Rightarrow> Inl protostate)"

definition entry_row_ok :: "json \<Rightarrow> bool" where
  "entry_row_ok e =
     ((case safe_integer (number_in (field e (lit ''uid''))) of Some uid \<Rightarrow> uid > 0 | None \<Rightarrow> False)
      \<and> (case field e (lit ''path'') of Some (JStr p) \<Rightarrow> p \<noteq> [] | _ \<Rightarrow> False)
      \<and> (case field e (lit ''chunks'') of Some (JArr names) \<Rightarrow> list_all isChunkName names | _ \<Rightarrow> False))"

definition entriesOf :: "json option \<Rightarrow> protocol_error + json list" where
  "entriesOf v =
     (case v of Some (JArr es) \<Rightarrow> if list_all entry_row_ok es then Inr es else Inl protostate
      | _ \<Rightarrow> Inl protostate)"

definition MAX_NAME_BYTES :: nat where
  "MAX_NAME_BYTES = 64"

definition checkName :: "jstring \<Rightarrow> protocol_error option" where
  "checkName name =
     (if byteLength name > MAX_NAME_BYTES then Some (ProtocolError (lit ''badname'') None None)
      else if list_ex (\<lambda>c. c < 0x20 \<or> c = 0x7f) name then Some (ProtocolError (lit ''badname'') None None)
      else None)"

section \<open>Limits and the server's cursor\<close>

record limits =
  lm_perFileMax :: int
  lm_maxChunks :: int
  lm_maxBatchBytes :: int
  lm_maxFetchBytes :: int
  lm_chunkMax :: int

definition OWN_LIMITS :: limits where
  "OWN_LIMITS = \<lparr>lm_perFileMax = 2 ^ 28, lm_maxChunks = 2 ^ 16, lm_maxBatchBytes = 16 * 2 ^ 20,
     lm_maxFetchBytes = 64 * 2 ^ 20, lm_chunkMax = 2 ^ 20\<rparr>"

definition boundedBy :: "int \<Rightarrow> int \<Rightarrow> int" where
  "boundedBy fromServer own = (if fromServer > 0 then min fromServer own else own)"

definition refuseIfBehind :: "int \<Rightarrow> int \<Rightarrow> protocol_error option" where
  "refuseIfBehind serverCursor ownCursor =
     (if serverCursor < ownCursor then Some (ProtocolError (lit ''cursor'') None None) else None)"

section \<open>What an entry may say\<close>

record wire_entry =
  we_uid :: int
  we_path :: jstring
  we_mac :: jstring
  we_parent :: "jstring option"
  we_size :: int
  we_ctime :: int
  we_mtime :: int
  we_folder :: bool
  we_deleted :: bool
  we_device :: jstring
  we_prev :: "jstring option"
  we_chunks :: "jstring list"

datatype shape_refusal =
    Empty_entry_path | Folder_and_deletion | Negative_size | Bad_mac | Bad_parent
  | Bad_chunk_name jstring | Size_without_chunks | Chunks_without_size | Chunks_on_folder_or_deletion

definition isDigest :: "jstring \<Rightarrow> bool" where
  "isDigest s = is_chunk_name s"

definition checkEntryShape :: "wire_entry \<Rightarrow> shape_refusal option" where
  "checkEntryShape e =
     (if we_path e = [] then Some Empty_entry_path
      else if we_folder e \<and> we_deleted e then Some Folder_and_deletion
      else if we_size e < 0 then Some Negative_size
      else if \<not> isDigest (we_mac e) then Some Bad_mac
      else if (case we_parent e of None \<Rightarrow> False | Some p \<Rightarrow> p \<noteq> [] \<and> \<not> isDigest p) then Some Bad_parent
      else case find (\<lambda>name. \<not> isDigest name) (we_chunks e) of
        Some name \<Rightarrow> Some (Bad_chunk_name name)
      | None \<Rightarrow>
          if \<not> we_folder e \<and> \<not> we_deleted e \<and> we_size e > 0 \<and> we_chunks e = [] then Some Size_without_chunks
          else if \<not> we_folder e \<and> \<not> we_deleted e \<and> we_size e = 0 \<and> we_chunks e \<noteq> [] then Some Chunks_without_size
          else if we_chunks e \<noteq> [] \<and> (we_folder e \<or> we_deleted e) then Some Chunks_on_folder_or_deletion
          else None)"

section \<open>Content identities\<close>

definition contentId :: "jstring list \<Rightarrow> jstring" where
  "contentId chunkNames' = (if chunkNames' = [] then lit ''-empty-'' else join_with [44] chunkNames')"

definition chunkNamesOf :: "jstring \<Rightarrow> jstring list" where
  "chunkNamesOf i = (if i = [] \<or> i = lit ''-empty-'' then [] else split_on 44 i)"


lemma digest_no_comma: "isDigest s \<Longrightarrow> 44 \<notin> set s \<and> s \<noteq> []"
  by (auto simp: isDigest_def is_chunk_name_def list_all_iff is_lower_hex_def is_digit_def)

lemma contentId_names:
  assumes "list_all isDigest names"
  shows "chunkNamesOf (contentId names) = names"
proof (cases "names = []")
  case True
  then show ?thesis by (simp add: contentId_def chunkNamesOf_def)
next
  case False
  have clean: "44 \<notin> set p" "p \<noteq> []" if "p \<in> set names" for p
    using assms that digest_no_comma by (auto simp: list_all_iff)
  then have split: "split_on 44 (join_with [44] names) = names"
    using split_on_join [OF False] by blast
  have "join_with [44] names \<noteq> []"
    using False clean(2) by (cases names rule: list.exhaust; cases "tl names") auto
  moreover have "join_with [44] names \<noteq> lit ''-empty-''"
  proof
    assume eq: "join_with [44] names = lit ''-empty-''"
    have "split_on 44 (lit ''-empty-'') = [lit ''-empty-'']" by (simp add: split_on_clean)
    then have "names = [lit ''-empty-'']" using split eq by simp
    then show False using assms by (simp add: isDigest_def is_chunk_name_def)
  qed
  ultimately show ?thesis using False split by (simp add: contentId_def chunkNamesOf_def)
qed

lemma checkBatch_Inr:
  "checkBatch cursor frame = Inr (from, to, es) \<Longrightarrow>
     from = cursor + 1 \<and> from \<le> to \<and> list_all (batch_entry_ok from to) es"
  by (auto simp: checkBatch_def Let_def split: option.splits json.splits if_splits)

lemma onBatchFrame_Inr:
  "onBatchFrame applies cursor frame = Inr (cursor', (from, to, es)) \<Longrightarrow>
     from = cursor + 1 \<and> from \<le> to \<and> cursor' = to \<and> applies (from, to, es) \<and> list_all (batch_entry_ok from to) es"
  by (auto simp: onBatchFrame_def dest: checkBatch_Inr split: sum.splits if_splits)

lemma catch_up_spec:
  assumes "catch_up applies cursor batches final"
  shows "cursor \<le> final \<and>
    sorted_wrt (\<lambda>a b. fst (snd a) < fst b) batches \<and>
    sum_list (map (\<lambda>b. fst (snd b) - fst b + 1) batches) = final - cursor \<and>
    (\<forall>b \<in> set batches. cursor < fst b \<and> fst (snd b) \<le> final \<and> applies b \<and>
       list_all (batch_entry_ok (fst b) (fst (snd b))) (snd (snd b)))"
  using assms
proof (induction rule: catch_up.induct)
  case (batch cursor frame cursor' b batches final)
  obtain fr t es where b: "b = (fr, t, es)" by (metis prod_cases3)
  note step = onBatchFrame_Inr [OF batch.hyps(1) [unfolded b]]
  have "cursor < cursor'" using step by simp
  then show ?case using batch.IH step
    by (auto simp: b intro: less_trans)
qed simp_all

lemma wanted_names_Inr:
  "wanted_names offered seen ns = Inr names \<Longrightarrow>
     distinct names \<and> set names \<subseteq> offered \<and> set names \<inter> seen = {} \<and> ns = map JStr names"
proof (induction offered seen ns arbitrary: names rule: wanted_names.induct)
  case (2 offered seen n ns)
  then obtain name rest where n: "n = JStr name" "name \<in> offered" "name \<notin> seen"
    "wanted_names offered (insert name seen) ns = Inr rest" "names = name # rest"
    by (auto split: json.splits if_splits)
  from "2.IH" [OF n(1) _ n(3,4)] n(2) have "distinct rest \<and> set rest \<subseteq> offered \<and>
      set rest \<inter> insert name seen = {} \<and> ns = map JStr rest" by simp
  with n show ?case by auto
qed simp

section \<open>Properties\<close>

text \<open>C15. Catching up skips nothing and applies nothing twice. However the server cuts the history into
  batch frames, the batches a device accepts between two cursors are consecutive ranges that add up to
  exactly the distance the cursor moved, each was applied before the cursor passed it, and every entry
  applied lies inside its own batch's range.\<close>

theorem catch_up_is_gapless:
  assumes "catch_up applies cursor batches final"
  shows "cursor \<le> final \<and>
    sorted_wrt (\<lambda>a b. fst (snd a) < fst b) batches \<and>
    sum_list (map (\<lambda>b. fst (snd b) - fst b + 1) batches) = final - cursor \<and>
    (\<forall>b \<in> set batches. cursor < fst b \<and> fst (snd b) \<le> final \<and> applies b) \<and>
    (\<forall>b \<in> set batches. \<forall>e \<in> set (snd (snd b)). \<exists>uid. number_in (field e (lit ''uid'')) = Some uid \<and>
       fst b \<le> uid \<and> uid \<le> fst (snd b))"
  using catch_up_spec [OF assms]
  by (fastforce simp: list_all_iff batch_entry_ok_def split: option.splits)

lemma catch_up_is_gapless_witness:
  "(0 :: rat) \<le> 2 \<and> sum_list (map (\<lambda>b. fst (snd b) - fst b + 1) [(1, 2, [] :: json list)]) = (2 :: rat) - 0"
proof -
  let ?f = "JObj [(lit ''from'', JNum 1), (lit ''to'', JNum 2), (lit ''entries'', JArr [])]"
  have "onBatchFrame (\<lambda>_. True) 0 ?f = Inr (2, (1, 2, []))"
    by (simp add: onBatchFrame_def checkBatch_def numberOf_def number_in_def field_Cons)
  then have "catch_up (\<lambda>_. True) 0 [(1, 2, [])] 2"
    by (rule catch_up.batch) (rule catch_up.idle)
  from catch_up_is_gapless [OF this] show ?thesis by blast
qed

text \<open>C19. An entry is acted on only if it does not contradict itself: it has a path, is not both a folder
  and a deletion, declares no negative size, carries digests where digests belong, and has chunks
  exactly when it is a file with content. So nothing that reads as an empty note declares a size.\<close>

theorem checkEntryShape_exact:
  "checkEntryShape e = None \<longleftrightarrow>
     we_path e \<noteq> [] \<and> \<not> (we_folder e \<and> we_deleted e) \<and> 0 \<le> we_size e \<and>
     isDigest (we_mac e) \<and> list_all isDigest (we_chunks e) \<and>
     (case we_parent e of None \<Rightarrow> True | Some p \<Rightarrow> p = [] \<or> isDigest p) \<and>
     (we_chunks e \<noteq> [] \<longleftrightarrow> \<not> we_folder e \<and> \<not> we_deleted e \<and> 0 < we_size e)"
proof -
  have "find (\<lambda>name. \<not> isDigest name) (we_chunks e) = None \<longleftrightarrow> list_all isDigest (we_chunks e)"
    by (auto simp: find_None_iff list_all_iff)
  then show ?thesis
    by (auto simp: checkEntryShape_def split: option.splits)
qed

text \<open>What a server may ask for of an upload: the names in a \<open>want\<close> are names this put offered, each
  once. A name that was not offered is refused under a code of its own, and every other fault is one
  that ends the session.\<close>

theorem wanted_was_offered:
  "case wanted reply offered of
     Inr names \<Rightarrow> distinct names \<and> set names \<subseteq> offered
   | Inl e \<Rightarrow> pe_code e = lit ''badchunk'' \<or> pe_code e = lit ''protostate'' \<and> endsSession e"
proof -
  have err: "wanted_names offered seen ns = Inl e \<Longrightarrow>
      e = ProtocolError (lit ''badchunk'') None None \<or> e = protostate" for seen ns e
    by (induction offered seen ns rule: wanted_names.induct)
      (auto simp: try_then_Inl_iff split: json.splits if_splits)
  have ends: "pe_code protostate = lit ''protostate'' \<and> endsSession protostate"
    by (simp add: protostate_def ProtocolError_def endsSession_def ENDS_SESSION_def)
  have bad: "pe_code (ProtocolError (lit ''badchunk'') None None) = lit ''badchunk''"
    by (simp add: ProtocolError_def)
  show ?thesis
  proof (cases "wanted reply offered")
    case (Inl e)
    then have "e = ProtocolError (lit ''badchunk'') None None \<or> e = protostate"
      by (auto simp: wanted_def dest: err split: option.splits json.splits)
    with Inl ends bad show ?thesis by auto
  next
    case (Inr names)
    then show ?thesis
      by (auto simp: wanted_def dest!: wanted_names_Inr split: option.splits json.splits)
  qed
qed

end
