(* ===== verification/Merge_Regions.thy ===== *)
theory Merge_Regions
  imports Prelude "HOL-Library.Product_Lexorder"
begin

text \<open>
  \<open>client/src/core/merge-regions.ts\<close>: the ancestor of a three-way merge cut into stretches, each
  untouched, changed by one device, or changed by both.

  The line diff is \<open>diff-match-patch\<close>, which is not in the repository: it is the parameter \<open>dmp\<close> of
  every definition here, and what is relied on of it is \<open>diffs_well\<close> below.
\<close>

section \<open>The diff library\<close>

datatype op = Delete | Equal | Insert

type_synonym diff = "(op \<times> jstring) list"

text \<open>
  The calls the merge makes. \<open>Lines\<close> is \<open>diff_main(a, b, false)\<close> with no time limit, \<open>Exact\<close> is
  \<open>diff_main(a, b, true)\<close> with no time limit, and \<open>Expired\<close> passes a deadline that is already over.
  \<open>dm_linesToChars\<close> gives the two encoded texts and the length of the line array.
\<close>

datatype diff_mode = Lines | Exact | Expired

record 'p dmp =
  dm_linesToChars :: "jstring \<Rightarrow> jstring \<Rightarrow> jstring \<times> jstring \<times> nat"
  dm_charsToLines :: "jstring \<Rightarrow> jstring \<Rightarrow> diff \<Rightarrow> diff"
  dm_main :: "diff_mode \<Rightarrow> jstring \<Rightarrow> jstring \<Rightarrow> diff"
  dm_commonPrefix :: "jstring \<Rightarrow> jstring \<Rightarrow> nat"
  dm_commonSuffix :: "jstring \<Rightarrow> jstring \<Rightarrow> nat"
  dm_cleanup :: "diff \<Rightarrow> diff"
  dm_patch_make :: "jstring \<Rightarrow> diff \<Rightarrow> 'p"
  dm_patch_apply :: "'p \<Rightarrow> jstring \<Rightarrow> jstring \<times> bool list"

section \<open>Lines\<close>

definition splitLines :: "jstring \<Rightarrow> jstring list" where
  "splitLines text =
     (let parts = split_on newline text in
      map (\<lambda>p. p @ [newline]) (butlast parts) @ (if last parts = [] then [] else [last parts]))"

text \<open>\<open>lines.slice(a, b).join("")\<close>.\<close>

definition stretch :: "jstring list \<Rightarrow> nat \<Rightarrow> nat \<Rightarrow> jstring" where
  "stretch ls a b = concat (slice ls a b)"

section \<open>One side\<close>

definition WORK_BUDGET :: nat where
  "WORK_BUDGET = 4000000"

definition bisectWork :: "'p dmp \<Rightarrow> jstring \<Rightarrow> jstring \<Rightarrow> nat" where
  "bisectWork dmp a b =
     (let prefix = dm_commonPrefix dmp a b;
          suffix = dm_commonSuffix dmp (drop prefix a) (drop prefix b);
          m = int (length a) - int prefix - int suffix;
          n = int (length b) - int prefix - int suffix
      in if m \<le> 0 \<or> n \<le> 0 then 0 else nat (m * n))"

record hunk =
  hk_mine :: bool
  hk_start :: nat
  hk_end :: nat
  hk_text :: jstring

text \<open>The loop of \<open>side\<close> over the diff: the hunks so far, the place in the ancestor and in the side, and
  the hunk that is open.\<close>

record walk =
  wk_hunks :: "hunk list"
  wk_b :: nat
  wk_s :: nat
  wk_open :: "(nat \<times> nat) option"

definition close_hunk :: "jstring list \<Rightarrow> bool \<Rightarrow> walk \<Rightarrow> walk" where
  "close_hunk sideLines mine w =
     (case wk_open w of
        None \<Rightarrow> w
      | Some (start, opened) \<Rightarrow>
          w\<lparr>wk_hunks := wk_hunks w @ [\<lparr>hk_mine = mine, hk_start = start, hk_end = wk_b w,
                                      hk_text = stretch sideLines opened (wk_s w)\<rparr>],
            wk_open := None\<rparr>)"

definition side_step :: "jstring list \<Rightarrow> bool \<Rightarrow> walk \<Rightarrow> op \<times> jstring \<Rightarrow> walk" where
  "side_step sideLines mine w d =
     (let n = length (snd d) in
      case fst d of
        Equal \<Rightarrow> (let w' = close_hunk sideLines mine w in w'\<lparr>wk_b := wk_b w' + n, wk_s := wk_s w' + n\<rparr>)
      | _ \<Rightarrow>
          (let w' = (if wk_open w = None then w\<lparr>wk_open := Some (wk_b w, wk_s w)\<rparr> else w)
           in if fst d = Delete then w'\<lparr>wk_b := wk_b w' + n\<rparr> else w'\<lparr>wk_s := wk_s w' + n\<rparr>))"

definition side :: "'p dmp \<Rightarrow> jstring \<Rightarrow> jstring list \<Rightarrow> jstring \<Rightarrow> bool \<Rightarrow> hunk list option" where
  "side dmp base baseLines text mine =
     (let sideLines = splitLines text; (chars1, chars2, lineCount) = dm_linesToChars dmp base text in
      if length chars1 \<noteq> length baseLines \<or> length chars2 \<noteq> length sideLines then None
      else if lineCount > 65535 then None
      else if bisectWork dmp chars1 chars2 > WORK_BUDGET then None
      else Some (wk_hunks (close_hunk sideLines mine
             (foldl (side_step sideLines mine) \<lparr>wk_hunks = [], wk_b = 0, wk_s = 0, wk_open = None\<rparr>
                (dm_main dmp Lines chars1 chars2)))))"

section \<open>The regions\<close>

datatype changed_by = Neither | Mine | Theirs | Both

record region =
  rg_changed :: changed_by
  rg_base :: jstring
  rg_mine :: jstring
  rg_theirs :: jstring
  rg_at :: nat
  rg_firstLine :: nat
  rg_lastLine :: nat

text \<open>Insertions before replacements at one point; the sort is stable.\<close>

definition in_order :: "hunk list \<Rightarrow> hunk list" where
  "in_order hunks = sort_key (\<lambda>h. (hk_start h, hk_end h - hk_start h)) hunks"

definition offset :: "jstring list \<Rightarrow> nat \<Rightarrow> nat" where
  "offset baseLines i = length (stretch baseLines 0 i)"

text \<open>What one side holds between two lines of the ancestor.\<close>

fun span_text :: "jstring list \<Rightarrow> nat \<Rightarrow> nat \<Rightarrow> hunk list \<Rightarrow> jstring" where
  "span_text baseLines pos to [] = stretch baseLines pos to"
| "span_text baseLines pos to (h # hs) =
     stretch baseLines pos (hk_start h) @ hk_text h @ span_text baseLines (hk_end h) to hs"

definition stable :: "jstring list \<Rightarrow> nat \<Rightarrow> nat \<Rightarrow> region list" where
  "stable baseLines pos till =
     (if till \<le> pos then []
      else (let text = stretch baseLines pos till in
            [\<lparr>rg_changed = Neither, rg_base = text, rg_mine = text, rg_theirs = text,
              rg_at = offset baseLines pos, rg_firstLine = pos, rg_lastLine = till\<rparr>]))"

text \<open>The hunks that share the region of the first: the inner loop, with the end it has reached.\<close>

fun gather :: "hunk \<Rightarrow> nat \<Rightarrow> hunk list \<Rightarrow> hunk list \<times> nat \<times> hunk list" where
  "gather first end [] = ([], end, [])"
| "gather first end (h # hs) =
     (let overlaps = hk_start h < end;
          bothPoints = hk_start h = hk_end h \<and> hk_start h = hk_start first \<and> hk_end first = end
      in if \<not> overlaps \<and> \<not> (bothPoints \<and> end = hk_start first) then ([], end, h # hs)
         else (let (grp, to, rest) = gather first (max end (hk_end h)) hs in (h # grp, to, rest)))"

lemma gather_rest: "gather first end hs = (grp, to, rest) \<Longrightarrow> hs = grp @ rest"
  by (induction hs arbitrary: "end" grp)
    (auto simp: Let_def split: if_splits prod.splits)

lemma gather_shorter: "gather first end hs = (grp, to, rest) \<Longrightarrow> length rest \<le> length hs"
  using gather_rest by fastforce

definition region_of :: "jstring list \<Rightarrow> nat \<Rightarrow> nat \<Rightarrow> hunk list \<Rightarrow> region" where
  "region_of baseLines start to grp =
     (let mineHunks = filter hk_mine grp; theirHunks = filter (\<lambda>h. \<not> hk_mine h) grp in
      \<lparr>rg_changed = (if mineHunks \<noteq> [] \<and> theirHunks \<noteq> [] then Both else if mineHunks \<noteq> [] then Mine else Theirs),
       rg_base = stretch baseLines start to,
       rg_mine = span_text baseLines start to mineHunks, rg_theirs = span_text baseLines start to theirHunks,
       rg_at = offset baseLines start, rg_firstLine = start, rg_lastLine = to\<rparr>)"

function walk_regions :: "jstring list \<Rightarrow> nat \<Rightarrow> hunk list \<Rightarrow> region list" where
  "walk_regions baseLines pos [] = stable baseLines pos (length baseLines)"
| "walk_regions baseLines pos (first # hs) =
     (let (grp, to, rest) = gather first (hk_end first) hs; start = hk_start first in
      stable baseLines pos start @ [region_of baseLines start to (first # grp)] @ walk_regions baseLines to rest)"
  by pat_completeness auto
termination
  by (relation "measure (\<lambda>(_, _, hs). length hs)") (auto dest!: gather_shorter [OF sym])

definition regions :: "'p dmp \<Rightarrow> jstring \<Rightarrow> jstring \<Rightarrow> jstring \<Rightarrow> region list option" where
  "regions dmp base mine theirs =
     (let baseLines = splitLines base in
      case (side dmp base baseLines mine True, side dmp base baseLines theirs False) of
        (Some left, Some right) \<Rightarrow> Some (walk_regions baseLines 0 (in_order (left @ right)))
      | _ \<Rightarrow> None)"

section \<open>What is relied on of the diff library\<close>

definition del_text :: "diff \<Rightarrow> jstring" where
  "del_text d = concat (map snd (filter (\<lambda>x. fst x \<noteq> Insert) d))"

definition ins_text :: "diff \<Rightarrow> jstring" where
  "ins_text d = concat (map snd (filter (\<lambda>x. fst x \<noteq> Delete) d))"

text \<open>
  A diff of two texts spells the first without its insertions and the second without its deletions, and
  the line encoding gives two lines one character only when they are the same line.
\<close>

definition diffs_well :: "'p dmp \<Rightarrow> bool" where
  "diffs_well dmp \<longleftrightarrow>
     (\<forall>mode a b. del_text (dm_main dmp mode a b) = a \<and> ins_text (dm_main dmp mode a b) = b) \<and>
     (\<forall>a b c1 c2 n. dm_linesToChars dmp a b = (c1, c2, n) \<longrightarrow> n \<le> 65535 \<longrightarrow>
        length c1 = length (splitLines a) \<longrightarrow> length c2 = length (splitLines b) \<longrightarrow>
        (\<forall>i < length c1. \<forall>j < length c2. c1 ! i = c2 ! j \<longrightarrow> splitLines a ! i = splitLines b ! j))"

section \<open>Lines spell the text\<close>

lemma join_lines: "ps \<noteq> [] \<Longrightarrow> join_with [c] ps = concat (map (\<lambda>p. p @ [c]) (butlast ps)) @ last ps"
  by (induction "[c]" ps rule: join_with.induct) auto

lemma concat_splitLines [simp]: "concat (splitLines t) = t"
proof -
  have "concat (map (\<lambda>p. p @ [newline]) (butlast (split_on newline t))) @ last (split_on newline t) = t"
    using join_lines [of "split_on newline t" newline] by simp
  then show ?thesis by (auto simp: splitLines_def Let_def)
qed

lemma stretch_append: "a \<le> b \<Longrightarrow> b \<le> c \<Longrightarrow> stretch ls a b @ stretch ls b c = stretch ls a c"
  unfolding stretch_def by (simp only: concat_append [symmetric] slice_append)

lemma stretch_all [simp]: "stretch ls 0 (length ls) = concat ls"
  by (simp add: stretch_def)

lemma stretch_empty [simp]: "stretch ls a a = []"
  by (simp add: stretch_def slice_def)

section \<open>Hunks laid over the ancestor\<close>

text \<open>Hunks in order, not overlapping, between two lines.\<close>

fun laid :: "nat \<Rightarrow> nat \<Rightarrow> hunk list \<Rightarrow> bool" where
  "laid a c [] = (a \<le> c)"
| "laid a c (h # hs) = (a \<le> hk_start h \<and> hk_start h \<le> hk_end h \<and> laid (hk_end h) c hs)"

lemma laid_le: "laid a c hs \<Longrightarrow> a \<le> c"
  by (induction a c hs rule: laid.induct) auto

lemma laid_mem: "laid a c hs \<Longrightarrow> h \<in> set hs \<Longrightarrow> a \<le> hk_start h \<and> hk_start h \<le> hk_end h \<and> hk_end h \<le> c"
  by (induction a c hs rule: laid.induct) (auto dest: laid_le)

lemma laid_weaken: "laid a c hs \<Longrightarrow> a' \<le> a \<Longrightarrow> c \<le> c' \<Longrightarrow> laid a' c' hs"
  by (induction hs arbitrary: a a') auto

lemma laid_appendD: "laid a c (xs @ ys) \<Longrightarrow> laid a c xs \<and> laid a c ys"
proof (induction xs arbitrary: a)
  case (Cons x xs)
  then have "laid (hk_end x) c xs \<and> laid (hk_end x) c ys" by simp
  moreover have "a \<le> hk_end x" using Cons.prems by simp
  ultimately show ?case using Cons.prems laid_weaken by auto
qed (auto dest: laid_le)

lemma laid_join: "laid a b xs \<Longrightarrow> laid b c ys \<Longrightarrow> laid a c (xs @ ys)"
  by (induction xs arbitrary: a) (auto intro: laid_weaken)

lemma laid_within:
  "laid a c hs \<Longrightarrow> (\<And>h. h \<in> set hs \<Longrightarrow> s \<le> hk_start h \<and> hk_end h \<le> t) \<Longrightarrow> s \<le> t \<Longrightarrow> laid s t hs"
proof (induction hs arbitrary: a s)
  case (Cons h hs)
  have "laid (hk_end h) t hs"
    using Cons.prems laid_mem [of "hk_end h" c hs] by (intro Cons.IH [of "hk_end h"]) auto
  then show ?case using Cons.prems by auto
qed simp

text \<open>
  Hunks that turn the ancestor's lines \<open>a\<close> to \<open>c\<close> into the side's lines \<open>s\<close> to \<open>t\<close>: every line between
  hunks is the same line on both, and a hunk's text is a stretch of the side's lines.
\<close>

fun paired :: "jstring list \<Rightarrow> jstring list \<Rightarrow> nat \<Rightarrow> nat \<Rightarrow> nat \<Rightarrow> nat \<Rightarrow> hunk list \<Rightarrow> bool" where
  "paired B S a c s t [] = (a \<le> c \<and> t = s + (c - a) \<and> slice B a c = slice S s t)"
| "paired B S a c s t (h # hs) =
     (a \<le> hk_start h \<and> hk_start h \<le> hk_end h \<and>
      slice B a (hk_start h) = slice S s (s + (hk_start h - a)) \<and>
      (\<exists>u. s + (hk_start h - a) \<le> u \<and> hk_text h = stretch S (s + (hk_start h - a)) u \<and>
           paired B S (hk_end h) c u t hs))"

lemma paired_laid: "paired B S a c s t hs \<Longrightarrow> laid a c hs"
  by (induction hs arbitrary: a s) auto

lemma paired_le: "paired B S a c s t hs \<Longrightarrow> s \<le> t"
proof (induction hs arbitrary: a s)
  case (Cons h hs)
  then obtain u where "s + (hk_start h - a) \<le> u" "u \<le> t" by auto
  then show ?case by linarith
qed auto

lemma paired_span: "paired B S a c s t hs \<Longrightarrow> span_text B a c hs = stretch S s t"
proof (induction hs arbitrary: a s)
  case (Cons h hs)
  then obtain u where u: "s + (hk_start h - a) \<le> u" "hk_text h = stretch S (s + (hk_start h - a)) u"
    "paired B S (hk_end h) c u t hs" "slice B a (hk_start h) = slice S s (s + (hk_start h - a))" by auto
  have "stretch B a (hk_start h) = stretch S s (s + (hk_start h - a))" by (simp only: stretch_def u(4))
  then show ?case
    using Cons.IH [OF u(3)] u(1,2) paired_le [OF u(3)] by (simp add: stretch_append)
qed (simp add: stretch_def)

lemma slice_cut:
  assumes "slice B a c = slice S s (s + (c - a))" and "a \<le> b" and "b \<le> c"
  shows "slice B a b = slice S s (s + (b - a))" and "slice B b c = slice S (s + (b - a)) (s + (c - a))"
proof -
  have "take (b - a) (slice B a c) = take (b - a) (slice S s (s + (c - a)))" using assms(1) by simp
  then show "slice B a b = slice S s (s + (b - a))"
    using assms(2,3) by (simp add: slice_def min_absorb1 diff_le_mono)
  have "drop (b - a) (slice B a c) = drop (b - a) (slice S s (s + (c - a)))" using assms(1) by simp
  then show "slice B b c = slice S (s + (b - a)) (s + (c - a))"
    using assms(2,3) by (simp add: slice_def drop_take add.commute)
qed

lemma slice_glue:
  assumes "slice B a b = slice S s (s + (b - a))" and "slice B b c = slice S (s + (b - a)) (s + (c - a))"
    and "a \<le> b" and "b \<le> c"
  shows "slice B a c = slice S s (s + (c - a))"
  using slice_append [of a b c B] slice_append [of s "s + (b - a)" "s + (c - a)" S] assms by auto

lemma paired_prefix:
  assumes "paired B S a b s m []" and "paired B S b c m t hs"
  shows "paired B S a c s t hs"
proof (cases hs)
  case Nil
  then have e: "a \<le> b" "b \<le> c" "m = s + (b - a)" "t = s + (c - a)" using assms by auto
  then show ?thesis using assms Nil slice_glue [of B a b S s c] by auto
next
  case (Cons h hs')
  have e: "a \<le> b" "b \<le> hk_start h" "m = s + (b - a)" using assms Cons by auto
  then have n: "m + (hk_start h - b) = s + (hk_start h - a)" by auto
  have "slice B a (hk_start h) = slice S s (s + (hk_start h - a))"
    using slice_glue [of B a b S s "hk_start h"] assms Cons e n by auto
  then show ?thesis using assms(2) Cons e n by auto
qed

lemma paired_join: "paired B S a b s m xs \<Longrightarrow> paired B S b c m t ys \<Longrightarrow> paired B S a c s t (xs @ ys)"
proof (induction xs arbitrary: a s)
  case Nil
  then show ?case using paired_prefix [OF Nil] by simp
qed auto

text \<open>Cut at a place no hunk covers.\<close>

lemma paired_cut:
  assumes "paired B S a c s t (xs @ ys)" and "a \<le> b" and "b \<le> c"
    and "\<forall>h \<in> set xs. hk_end h \<le> b" and "\<forall>h \<in> set ys. b \<le> hk_start h"
  shows "\<exists>m. paired B S a b s m xs \<and> paired B S b c m t ys"
  using assms
proof (induction xs arbitrary: a s)
  case Nil
  show ?case
  proof (cases ys)
    case Nil
    then have p: "t = s + (c - a)" "slice B a c = slice S s (s + (c - a))" using \<open>paired B S a c s t ([] @ ys)\<close> by auto
    have "t = s + (b - a) + (c - b)" using p(1) \<open>a \<le> b\<close> \<open>b \<le> c\<close> by simp
    then show ?thesis
      using slice_cut [OF p(2) \<open>a \<le> b\<close> \<open>b \<le> c\<close>] p(1) \<open>a \<le> b\<close> \<open>b \<le> c\<close> Nil
      by (intro exI [of _ "s + (b - a)"]) simp
  next
    case (Cons h hs)
    have h: "a \<le> b" "b \<le> hk_start h" using Nil.prems Cons by auto
    have p: "slice B a (hk_start h) = slice S s (s + (hk_start h - a))" using Nil.prems(1) Cons by auto
    have n: "s + (b - a) + (hk_start h - b) = s + (hk_start h - a)" using h by simp
    show ?thesis
      using slice_cut [OF p h] Nil.prems(1) Cons h n by (intro exI [of _ "s + (b - a)"]) auto
  qed
next
  case (Cons h hs)
  then obtain u where u: "s + (hk_start h - a) \<le> u" "hk_text h = stretch S (s + (hk_start h - a)) u"
    "paired B S (hk_end h) c u t (hs @ ys)" by auto
  then obtain m where "paired B S (hk_end h) b u m hs" "paired B S b c m t ys"
    using Cons.IH [OF u(3)] Cons.prems by auto
  then show ?case using u Cons.prems(1) by auto
qed

section \<open>One side, laid over the ancestor, is that side\<close>

definition walk_ok :: "jstring list \<Rightarrow> jstring list \<Rightarrow> bool \<Rightarrow> walk \<Rightarrow> bool" where
  "walk_ok base_ls side_ls mine w \<longleftrightarrow>
     (case wk_open w of
        None \<Rightarrow> paired base_ls side_ls 0 (wk_b w) 0 (wk_s w) (wk_hunks w)
      | Some (start, opened) \<Rightarrow> paired base_ls side_ls 0 start 0 opened (wk_hunks w) \<and>
          start \<le> wk_b w \<and> opened \<le> wk_s w) \<and>
     list_all (\<lambda>h. hk_mine h = mine) (wk_hunks w)"

lemma close_ok: "walk_ok B S mine w \<Longrightarrow> walk_ok B S mine (close_hunk S mine w) \<and> wk_open (close_hunk S mine w) = None
    \<and> wk_b (close_hunk S mine w) = wk_b w \<and> wk_s (close_hunk S mine w) = wk_s w"
proof (cases "wk_open w")
  case (Some so)
  assume ok: "walk_ok B S mine w"
  obtain start opened where so: "wk_open w = Some (start, opened)" using Some by (cases so) auto
  let ?h = "\<lparr>hk_mine = mine, hk_start = start, hk_end = wk_b w, hk_text = stretch S opened (wk_s w)\<rparr>"
  have o: "paired B S 0 start 0 opened (wk_hunks w)" "start \<le> wk_b w" "opened \<le> wk_s w"
    "list_all (\<lambda>h. hk_mine h = mine) (wk_hunks w)"
    using ok so by (simp_all add: walk_ok_def)
  have "paired B S start (wk_b w) opened (wk_s w) [?h]" using o(2,3) by (simp add: slice_def)
  then have "paired B S 0 (wk_b w) 0 (wk_s w) (wk_hunks w @ [?h])" by (rule paired_join [OF o(1)])
  then show ?thesis using so o(4) by (simp add: close_hunk_def walk_ok_def)
qed (simp add: close_hunk_def)

lemma paired_extend:
  assumes "paired B S a b s m hs" and "slice B b c = slice S m (m + (c - b))" and "b \<le> c"
  shows "paired B S a c s (m + (c - b)) hs"
  using paired_join [OF assms(1), of c "m + (c - b)" "[]"] assms(2,3) by simp

lemma slice_same:
  assumes "\<And>i. i < n \<Longrightarrow> xs ! (b + i) = ys ! (s + i)" and "b + n \<le> length xs" and "s + n \<le> length ys"
  shows "slice xs b (b + n) = slice ys s (s + n)"
  using assms by (intro nth_equalityI) (simp_all add: slice_def)

lemma side_step_ok:
  assumes "walk_ok B S mine w"
    and same: "fst d = Equal \<Longrightarrow> slice B (wk_b w) (wk_b w + length (snd d)) = slice S (wk_s w) (wk_s w + length (snd d))"
  shows "walk_ok B S mine (side_step S mine w d) \<and>
    wk_b (side_step S mine w d) = wk_b w + (if fst d = Insert then 0 else length (snd d)) \<and>
    wk_s (side_step S mine w d) = wk_s w + (if fst d = Delete then 0 else length (snd d))"
proof (cases "fst d")
  case Equal
  let ?c = "close_hunk S mine w"
  have c: "walk_ok B S mine ?c" "wk_open ?c = None" "wk_b ?c = wk_b w" "wk_s ?c = wk_s w"
    using close_ok [OF assms(1)] by simp_all
  then have l: "paired B S 0 (wk_b w) 0 (wk_s w) (wk_hunks ?c)" "list_all (\<lambda>h. hk_mine h = mine) (wk_hunks ?c)"
    by (simp_all add: walk_ok_def)
  have "paired B S 0 (wk_b w + length (snd d)) 0 (wk_s w + length (snd d)) (wk_hunks ?c)"
    using paired_extend [OF l(1), of "wk_b w + length (snd d)"] same [OF Equal] by simp
  then show ?thesis using Equal c l(2) by (simp add: side_step_def Let_def walk_ok_def)
next
  case Delete
  then show ?thesis using assms(1)
    by (auto simp: side_step_def Let_def walk_ok_def split: option.splits)
next
  case Insert
  then show ?thesis using assms(1)
    by (auto simp: side_step_def Let_def walk_ok_def split: option.splits)
qed

lemma del_ins_Cons:
  "del_text (d # ds) = (if fst d = Insert then [] else snd d) @ del_text ds"
  "ins_text (d # ds) = (if fst d = Delete then [] else snd d) @ ins_text ds"
  by (simp_all add: del_text_def ins_text_def)

lemma drop_add: "drop (a + b) xs = drop b (drop a xs)"
  by (simp add: add.commute)

lemma side_fold_ok:
  assumes "walk_ok B S mine w" and "del_text ds = drop (wk_b w) cs" and "ins_text ds = drop (wk_s w) ts"
    and "wk_b w \<le> length cs" and "wk_s w \<le> length ts"
    and len: "length cs = length B" "length ts = length S"
    and same: "\<And>i j. i < length cs \<Longrightarrow> j < length ts \<Longrightarrow> cs ! i = ts ! j \<Longrightarrow> B ! i = S ! j"
  shows "walk_ok B S mine (foldl (side_step S mine) w ds) \<and>
     wk_b (foldl (side_step S mine) w ds) = length B \<and> wk_s (foldl (side_step S mine) w ds) = length S"
  using assms(1-5)
proof (induction ds arbitrary: w)
  case Nil
  then show ?case using len by (simp add: del_text_def ins_text_def)
next
  case (Cons d ds)
  let ?n = "length (snd d)"
  have split: "drop (wk_b w) cs = (if fst d = Insert then [] else snd d) @ del_text ds"
    "drop (wk_s w) ts = (if fst d = Delete then [] else snd d) @ ins_text ds"
    using Cons.prems(2,3) by (simp_all add: del_ins_Cons)
  have b: "wk_b w + (if fst d = Insert then 0 else ?n) + length (del_text ds) = length cs"
    "wk_s w + (if fst d = Delete then 0 else ?n) + length (ins_text ds) = length ts"
    using arg_cong [OF split(1), of length] arg_cong [OF split(2), of length] Cons.prems(4,5) by auto
  have same_str: "slice B (wk_b w) (wk_b w + ?n) = slice S (wk_s w) (wk_s w + ?n)" if "fst d = Equal"
  proof (rule slice_same)
    fix i assume i: "i < ?n"
    have "cs ! (wk_b w + i) = snd d ! i" "ts ! (wk_s w + i) = snd d ! i"
      using split that i Cons.prems(4,5) by (simp_all add: nth_append flip: nth_drop)
    then show "B ! (wk_b w + i) = S ! (wk_s w + i)" using same b that i by auto
  qed (use b that len in auto)
  let ?w = "side_step S mine w d"
  note step = side_step_ok [OF Cons.prems(1), of d, OF same_str]
  have "drop (wk_b ?w) cs = del_text ds" "drop (wk_s ?w) ts = ins_text ds"
    using step split by (simp_all only: drop_add) auto
  moreover have "wk_b ?w \<le> length cs" "wk_s ?w \<le> length ts" using step b by auto
  ultimately show ?case using Cons.IH [of ?w] step by simp
qed

lemma side_laid:
  assumes "diffs_well dmp" and "side dmp base (splitLines base) text mine = Some hs"
  shows "paired (splitLines base) (splitLines text) 0 (length (splitLines base)) 0 (length (splitLines text)) hs \<and>
    list_all (\<lambda>h. hk_mine h = mine) hs"
proof -
  let ?B = "splitLines base" let ?S = "splitLines text"
  obtain c1 c2 n where enc: "dm_linesToChars dmp base text = (c1, c2, n)" by (metis prod_cases3)
  let ?init = "\<lparr>wk_hunks = [], wk_b = 0, wk_s = 0, wk_open = None\<rparr>"
  let ?w = "foldl (side_step ?S mine) ?init (dm_main dmp Lines c1 c2)"
  have out: "length c1 = length ?B" "length c2 = length ?S" "n \<le> 65535" "hs = wk_hunks (close_hunk ?S mine ?w)"
    using assms(2) enc by (auto simp: side_def Let_def split: if_splits)
  have w: "walk_ok ?B ?S mine ?w \<and> wk_b ?w = length ?B \<and> wk_s ?w = length ?S"
  proof (rule side_fold_ok [where w = ?init and cs = c1 and ts = c2])
    show "walk_ok ?B ?S mine ?init" by (simp add: walk_ok_def slice_def)
    show "del_text (dm_main dmp Lines c1 c2) = drop (wk_b ?init) c1"
      "ins_text (dm_main dmp Lines c1 c2) = drop (wk_s ?init) c2"
      using assms(1) by (simp_all add: diffs_well_def)
    fix i j assume "i < length c1" "j < length c2" "c1 ! i = c2 ! j"
    then show "?B ! i = ?S ! j" using assms(1) enc out unfolding diffs_well_def by blast
  qed (use out in simp_all)
  let ?c = "close_hunk ?S mine ?w"
  have "walk_ok ?B ?S mine ?c" "wk_open ?c = None" "wk_b ?c = length ?B" "wk_s ?c = length ?S"
    using close_ok [OF conjunct1 [OF w]] w by (simp_all only: conj_assoc)
  then show ?thesis
    unfolding out(4) walk_ok_def by (simp only: option.case)
qed

section \<open>Both sides in order\<close>

lemma laid_sorted: "laid a c hs \<Longrightarrow> sorted (map (\<lambda>h. (hk_start h, hk_end h - hk_start h)) hs)"
proof (induction a c hs rule: laid.induct)
  case (2 a c h hs)
  have "(hk_start h, hk_end h - hk_start h) \<le> (hk_start g, hk_end g - hk_start g)" if "g \<in> set hs" for g
    using laid_mem [of "hk_end h" c hs g] that 2 by (auto simp: less_eq_prod_def)
  then show ?case using 2 by auto
qed simp

lemma in_order_sides:
  assumes "laid 0 n left" "laid 0 n right" "list_all hk_mine left" "list_all (\<lambda>h. \<not> hk_mine h) right"
  shows "filter hk_mine (in_order (left @ right)) = left"
    and "filter (\<lambda>h. \<not> hk_mine h) (in_order (left @ right)) = right"
    and "sorted (map hk_start (in_order (left @ right)))"
    and "set (in_order (left @ right)) = set left \<union> set right"
proof -
  let ?k = "\<lambda>h. (hk_start h, hk_end h - hk_start h)"
  have f: "filter hk_mine (left @ right) = left" "filter (\<lambda>h. \<not> hk_mine h) (left @ right) = right"
    using assms(3,4) by (auto simp: list_all_iff filter_id_conv filter_empty_conv)
  show "filter hk_mine (in_order (left @ right)) = left"
    unfolding in_order_def filter_sort f by (rule sort_key_id_if_sorted [OF laid_sorted [OF assms(1)]])
  show "filter (\<lambda>h. \<not> hk_mine h) (in_order (left @ right)) = right"
    unfolding in_order_def filter_sort f by (rule sort_key_id_if_sorted [OF laid_sorted [OF assms(2)]])
  have "sorted (map ?k (in_order (left @ right)))" by (simp add: in_order_def)
  then show "sorted (map hk_start (in_order (left @ right)))"
    unfolding sorted_map by (rule sorted_wrt_mono_rel [rotated]) (auto simp: less_eq_prod_def)
  show "set (in_order (left @ right)) = set left \<union> set right" by (simp add: in_order_def)
qed

section \<open>The regions spell all three texts\<close>

lemma gather_bounds:
  "gather first e hs = (grp, to, rest) \<Longrightarrow> sorted (map hk_start hs) \<Longrightarrow>
     e \<le> to \<and> (\<forall>h \<in> set grp. hk_end h \<le> to) \<and> (\<forall>h \<in> set rest. to \<le> hk_start h) \<and>
     (to = e \<or> (\<exists>h \<in> set grp. to = hk_end h))"
proof (induction hs arbitrary: e grp)
  case (Cons h hs)
  show ?case
  proof (cases "hk_start h < e \<or> hk_start h = hk_end h \<and> hk_start h = hk_start first \<and> hk_end first = e \<and> e = hk_start first")
    case True
    then obtain grp' where g: "gather first (max e (hk_end h)) hs = (grp', to, rest)" "grp = h # grp'"
      using Cons.prems(1) by (auto simp: Let_def split: prod.splits if_splits)
    then show ?thesis using Cons.IH [OF g(1)] Cons.prems(2) by (auto simp: max_def split: if_splits)
  next
    case False
    then have "grp = []" "to = e" "rest = h # hs" "e \<le> hk_start h"
      using Cons.prems(1) by (auto simp: Let_def)
    then show ?thesis using Cons.prems(2) by auto
  qed
qed auto

definition one_sided :: "region \<Rightarrow> bool" where
  "one_sided r \<longleftrightarrow>
     (case rg_changed r of
        Neither \<Rightarrow> rg_mine r = rg_base r \<and> rg_theirs r = rg_base r
      | Mine \<Rightarrow> rg_theirs r = rg_base r
      | Theirs \<Rightarrow> rg_mine r = rg_base r
      | Both \<Rightarrow> True)"

text \<open>Consecutive stretches of the ancestor, each beginning where the one before it ended.\<close>

fun contiguous :: "jstring list \<Rightarrow> nat \<Rightarrow> region list \<Rightarrow> nat \<Rightarrow> bool" where
  "contiguous ls a [] c = (a = c)"
| "contiguous ls a (r # rs) c =
     (rg_firstLine r = a \<and> a \<le> rg_lastLine r \<and> rg_base r = stretch ls a (rg_lastLine r) \<and>
      rg_at r = length (stretch ls 0 a) \<and> contiguous ls (rg_lastLine r) rs c)"

lemma contiguous_append: "contiguous ls a rs b \<Longrightarrow> contiguous ls b ss c \<Longrightarrow> contiguous ls a (rs @ ss) c"
  by (induction rs arbitrary: a) auto

lemma contiguous_le: "contiguous ls a rs c \<Longrightarrow> a \<le> c"
  by (induction rs arbitrary: a) (auto intro: order_trans)

lemma contiguous_base: "contiguous ls a rs c \<Longrightarrow> concat (map rg_base rs) = stretch ls a c"
proof (induction rs arbitrary: a)
  case (Cons r rs)
  then show ?case using stretch_append contiguous_le by (metis concat.simps(2) contiguous.simps(2) list.map(2))
qed simp

text \<open>One side's texts of the regions are consecutive stretches of its lines.\<close>

fun cuts :: "(region \<Rightarrow> jstring) \<Rightarrow> jstring list \<Rightarrow> nat \<Rightarrow> region list \<Rightarrow> nat \<Rightarrow> bool" where
  "cuts f S s [] t = (s = t)"
| "cuts f S s (r # rs) t = (\<exists>m \<ge> s. f r = stretch S s m \<and> cuts f S m rs t)"

lemma cuts_append: "cuts f S s rs m \<Longrightarrow> cuts f S m ss t \<Longrightarrow> cuts f S s (rs @ ss) t"
  by (induction rs arbitrary: s) auto

lemma cuts_le: "cuts f S s rs t \<Longrightarrow> s \<le> t"
  by (induction rs arbitrary: s) (auto intro: order_trans)

lemma cuts_concat: "cuts f S s rs t \<Longrightarrow> concat (map f rs) = stretch S s t"
proof (induction rs arbitrary: s)
  case (Cons r rs)
  then obtain m where "s \<le> m" "f r = stretch S s m" "cuts f S m rs t" by auto
  then show ?case using Cons.IH stretch_append cuts_le by (metis concat.simps(2) list.map(2))
qed simp

lemma stable_facts:
  assumes "pos \<le> till"
  shows "contiguous ls pos (stable ls pos till) till" and "list_all one_sided (stable ls pos till)"
    and "paired ls S pos till s m [] \<Longrightarrow> cuts rg_mine S s (stable ls pos till) m"
    and "paired ls S pos till s m [] \<Longrightarrow> cuts rg_theirs S s (stable ls pos till) m"
  using assms by (auto simp: stable_def Let_def one_sided_def offset_def stretch_def)

text \<open>One side of the walk: the hunks of that side, in front of the region, in it and behind it.\<close>

lemma split_side:
  assumes p: "paired B S pos n s t (filter P (grp @ rest))" and "pos \<le> st" and "st \<le> to"
    and "\<forall>h \<in> set grp. st \<le> hk_start h \<and> hk_end h \<le> to" and "\<forall>h \<in> set rest. to \<le> hk_start h" and "to \<le> n"
  shows "\<exists>u v. paired B S pos st s u [] \<and> paired B S st to u v (filter P grp) \<and> paired B S to n v t (filter P rest)"
proof -
  obtain v where v: "paired B S pos to s v (filter P grp)" "paired B S to n v t (filter P rest)"
    using paired_cut [of B S pos n s t "filter P grp" "filter P rest" to] assms by auto
  then obtain u where "paired B S pos st s u []" "paired B S st to u v (filter P grp)"
    using paired_cut [of B S pos to s v "[]" "filter P grp" st] assms by auto
  with v show ?thesis by blast
qed

lemma region_of_text:
  "rg_mine (region_of ls st to grp) = span_text ls st to (filter hk_mine grp)"
  "rg_theirs (region_of ls st to grp) = span_text ls st to (filter (\<lambda>h. \<not> hk_mine h) grp)"
  by (simp_all add: region_of_def Let_def)

lemma region_one_sided: "one_sided (region_of ls st to grp)"
proof (cases "filter hk_mine grp = [] \<or> filter (\<lambda>h. \<not> hk_mine h) grp = []")
  case True
  then show ?thesis by (auto simp: region_of_def one_sided_def Let_def)
qed (auto simp: region_of_def one_sided_def Let_def)

lemma walk_regions_spec:
  assumes "sorted (map hk_start hs)" and "paired B M pos n s t (filter hk_mine hs)"
    and "paired B T pos n s' t' (filter (\<lambda>h. \<not> hk_mine h) hs)" and "n = length B"
  shows "contiguous B pos (walk_regions B pos hs) n \<and> list_all one_sided (walk_regions B pos hs) \<and>
     cuts rg_mine M s (walk_regions B pos hs) t \<and> cuts rg_theirs T s' (walk_regions B pos hs) t'"
  using assms
proof (induction B pos hs arbitrary: s s' rule: walk_regions.induct)
  case (1 B pos)
  then show ?case using stable_facts [of pos n B] by simp
next
  case (2 B pos first hs)
  obtain grp to rest where g: "gather first (hk_end first) hs = (grp, to, rest)" by (metis prod_cases3)
  let ?g = "first # grp" let ?st = "hk_start first"
  have hs: "hs = grp @ rest" by (rule gather_rest [OF g])
  have b: "hk_end first \<le> to" "\<forall>h \<in> set grp. hk_end h \<le> to" "\<forall>h \<in> set rest. to \<le> hk_start h"
    "to = hk_end first \<or> (\<exists>h \<in> set grp. to = hk_end h)"
    using gather_bounds [OF g] "2.prems"(1) by auto
  have mem: "pos \<le> hk_start h \<and> hk_start h \<le> hk_end h \<and> hk_end h \<le> n" if "h \<in> set (first # hs)" for h
    using laid_mem [OF paired_laid [OF "2.prems"(2)], of h] laid_mem [OF paired_laid [OF "2.prems"(3)], of h] that
    by (cases "hk_mine h") auto
  have st: "pos \<le> ?st" "?st \<le> to" "to \<le> n" using mem hs b by force+
  have starts: "\<forall>h \<in> set ?g. ?st \<le> hk_start h \<and> hk_end h \<le> to" using "2.prems"(1) hs b by auto
  have eq: "first # hs = ?g @ rest" using hs by simp
  obtain u v where mine: "paired B M pos ?st s u []" "paired B M ?st to u v (filter hk_mine ?g)"
    "paired B M to n v t (filter hk_mine rest)"
    using split_side [OF "2.prems"(2) [unfolded eq] st(1,2) starts b(3) st(3)] by blast
  obtain u' v' where theirs: "paired B T pos ?st s' u' []" "paired B T ?st to u' v' (filter (\<lambda>h. \<not> hk_mine h) ?g)"
    "paired B T to n v' t' (filter (\<lambda>h. \<not> hk_mine h) rest)"
    using split_side [OF "2.prems"(3) [unfolded eq] st(1,2) starts b(3) st(3)] by blast
  have "sorted (map hk_start rest)" using "2.prems"(1) hs by (simp add: sorted_append)
  note IH = "2.IH" [OF g [symmetric] refl refl refl this mine(3) theirs(3) "2.prems"(4)]
  have walk: "walk_regions B pos (first # hs) = stable B pos ?st @ [region_of B ?st to ?g] @ walk_regions B to rest"
    using g by (simp add: Let_def)
  have "contiguous B ?st [region_of B ?st to ?g] to"
    using st(2) by (simp add: region_of_def Let_def offset_def)
  then have "contiguous B pos (walk_regions B pos (first # hs)) n"
    unfolding walk using contiguous_append [OF stable_facts(1) [OF st(1)]] contiguous_append IH by blast
  moreover have "list_all one_sided (walk_regions B pos (first # hs))"
    unfolding walk using stable_facts(2) [OF st(1)] IH region_one_sided by simp
  moreover have "cuts rg_mine M u [region_of B ?st to ?g] v" "cuts rg_theirs T u' [region_of B ?st to ?g] v'"
    using paired_span [OF mine(2)] paired_span [OF theirs(2)] paired_le [OF mine(2)] paired_le [OF theirs(2)]
    by (simp_all add: region_of_text)
  then have "cuts rg_mine M s (walk_regions B pos (first # hs)) t" "cuts rg_theirs T s' (walk_regions B pos (first # hs)) t'"
    unfolding walk
    using cuts_append stable_facts(3) [OF st(1) mine(1)] stable_facts(4) [OF st(1) theirs(1)] IH by blast+
  ultimately show ?case by blast
qed

lemma regions_cut:
  assumes "diffs_well dmp" and "regions dmp base mine theirs = Some rs"
  shows "contiguous (splitLines base) 0 rs (length (splitLines base)) \<and> list_all one_sided rs \<and>
    cuts rg_mine (splitLines mine) 0 rs (length (splitLines mine)) \<and>
    cuts rg_theirs (splitLines theirs) 0 rs (length (splitLines theirs))"
proof -
  let ?B = "splitLines base" let ?n = "length ?B"
  obtain left right where lr: "side dmp base ?B mine True = Some left" "side dmp base ?B theirs False = Some right"
    "rs = walk_regions ?B 0 (in_order (left @ right))"
    using assms(2) by (auto simp: regions_def Let_def split: option.splits)
  note l = side_laid [OF assms(1) lr(1)] note r = side_laid [OF assms(1) lr(2)]
  have flags: "list_all hk_mine left" "list_all (\<lambda>h. \<not> hk_mine h) right" using l r by simp_all
  note o = in_order_sides [OF paired_laid [OF conjunct1 [OF l]] paired_laid [OF conjunct1 [OF r]] flags]
  show ?thesis
    unfolding lr(3) using l r by (intro walk_regions_spec) (simp_all only: o)
qed

lemma regions_spec:
  assumes "diffs_well dmp" and "regions dmp base mine theirs = Some rs"
  shows "contiguous (splitLines base) 0 rs (length (splitLines base)) \<and> list_all one_sided rs \<and>
    concat (map rg_base rs) = base \<and> concat (map rg_mine rs) = mine \<and> concat (map rg_theirs rs) = theirs"
  using regions_cut [OF assms] contiguous_base cuts_concat by fastforce

section \<open>Properties\<close>

text \<open>A diff that is right and not clever: what the two texts share at their ends is equal, the rest is
  replaced. It shows that what is relied on of the library can hold.\<close>

definition line_chars :: "jstring list \<Rightarrow> jstring list \<Rightarrow> jstring" where
  "line_chars table ls = map (\<lambda>l. of_nat (length (takeWhile (\<lambda>x. x \<noteq> l) table))) ls"

fun common :: "'a list \<Rightarrow> 'a list \<Rightarrow> nat" where
  "common (a # as) (b # bs) = (if a = b then Suc (common as bs) else 0)"
| "common _ _ = 0"

definition trim_diff :: "jstring \<Rightarrow> jstring \<Rightarrow> diff" where
  "trim_diff a b =
     (let p = common a b; a' = drop p a; b' = drop p b; s = common (rev a') (rev b') in
      [(Equal, take p a), (Delete, take (length a' - s) a'), (Insert, take (length b' - s) b'),
       (Equal, drop (length a' - s) a')])"

definition trim_dmp :: "unit dmp" where
  "trim_dmp = \<lparr>
     dm_linesToChars = (\<lambda>a b. let table = remdups (splitLines a @ splitLines b) in
        (line_chars table (splitLines a), line_chars table (splitLines b), length table)),
     dm_charsToLines = (\<lambda>a b d. [(Delete, a), (Insert, b)]),
     dm_main = (\<lambda>mode a b. trim_diff a b),
     dm_commonPrefix = common, dm_commonSuffix = (\<lambda>a b. common (rev a) (rev b)), dm_cleanup = (\<lambda>d. d),
     dm_patch_make = (\<lambda>a d. ()), dm_patch_apply = (\<lambda>p t. (t, []))\<rparr>"

lemma common_take: "take (common a b) a = take (common a b) b" and common_le: "common a b \<le> length a" "common a b \<le> length b"
  by (induction a b rule: common.induct) auto

lemma trim_diff_texts: "del_text (trim_diff a b) = a \<and> ins_text (trim_diff a b) = b"
proof -
  let ?p = "common a b" let ?a = "drop ?p a" let ?b = "drop ?p b" let ?s = "common (rev ?a) (rev ?b)"
  have "rev (take ?s (rev ?a)) = rev (take ?s (rev ?b))" by (rule arg_cong [OF common_take])
  then have "drop (length ?a - ?s) ?a = drop (length ?b - ?s) ?b" by (simp only: take_rev rev_rev_ident)
  moreover have "take ?p a = take ?p b" by (rule common_take)
  ultimately show ?thesis
    unfolding trim_diff_def Let_def del_text_def ins_text_def
    by (simp del: drop_drop length_drop) (metis append_take_drop_id)
qed

lemma position_inj:
  assumes "l \<in> set table" and "m \<in> set table"
    and "length (takeWhile (\<lambda>x. x \<noteq> l) table) = length (takeWhile (\<lambda>x. x \<noteq> m) table)"
  shows "l = m"
proof -
  have p: "length (takeWhile (\<lambda>x. x \<noteq> k) table) < length table \<and>
      table ! length (takeWhile (\<lambda>x. x \<noteq> k) table) = k" if "k \<in> set table" for k
  proof -
    have lt: "length (takeWhile (\<lambda>x. x \<noteq> k) table) < length table"
      using that by (induction table) auto
    then show ?thesis using nth_length_takeWhile [OF lt] by simp
  qed
  show ?thesis using p [OF assms(1)] p [OF assms(2)] assms(3) by metis
qed

lemma trim_dmp_well: "diffs_well trim_dmp"
proof -
  have "splitLines a ! i = splitLines b ! j"
    if n: "length (remdups (splitLines a @ splitLines b)) \<le> 65535"
      and i: "i < length (splitLines a)" and j: "j < length (splitLines b)"
      and eq: "line_chars (remdups (splitLines a @ splitLines b)) (splitLines a) ! i
          = line_chars (remdups (splitLines a @ splitLines b)) (splitLines b) ! j" for a b i j
  proof -
    let ?t = "remdups (splitLines a @ splitLines b)"
    let ?p = "\<lambda>l. length (takeWhile (\<lambda>x. x \<noteq> l) ?t)"
    let ?l = "splitLines a ! i" let ?m = "splitLines b ! j"
    have mem: "?l \<in> set ?t" "?m \<in> set ?t" using i j by auto
    have small: "unat (of_nat (?p k) :: jchar) = ?p k" for k
    proof -
      have "?p k \<le> 65535" using length_takeWhile_le n by (rule order_trans)
      then show ?thesis by (simp add: unsigned_of_nat take_bit_eq_mod)
    qed
    have "(of_nat (?p ?l) :: jchar) = of_nat (?p ?m)"
      by (rule eq [unfolded line_chars_def nth_map [OF i] nth_map [OF j]])
    then have "unat (of_nat (?p ?l) :: jchar) = unat (of_nat (?p ?m) :: jchar)" by (rule arg_cong)
    then have "?p ?l = ?p ?m" unfolding small .
    then show ?thesis using position_inj [OF mem] by blast
  qed
  then show ?thesis
    unfolding diffs_well_def by (auto simp: trim_dmp_def trim_diff_texts Let_def line_chars_def)
qed

text \<open>C8. The regions cover the note and lose nothing: they are consecutive stretches of the ancestor
  from its first line to its last, joined back together they are the ancestor, one device's text and the
  other's, and a region said to be changed by one device alone (or by none) holds the ancestor's own
  text for the other (for both).\<close>

theorem regions_cover:
  assumes "diffs_well dmp" and "regions dmp base mine theirs = Some rs"
  shows "contiguous (splitLines base) 0 rs (length (splitLines base)) \<and> list_all one_sided rs \<and>
    concat (map rg_base rs) = base \<and> concat (map rg_mine rs) = mine \<and> concat (map rg_theirs rs) = theirs"
  by (rule regions_spec [OF assms])

lemma regions_cover_witness:
  "\<exists>rs. regions trim_dmp (lit ''a'') (lit ''b'') (lit ''a'') = Some rs \<and> concat (map rg_mine rs) = lit ''b''"
proof -
  have "regions trim_dmp (lit ''a'') (lit ''b'') (lit ''a'') \<noteq> None"
    by (simp add: regions_def side_def trim_dmp_def splitLines_def line_chars_def bisectWork_def WORK_BUDGET_def Let_def)
  then obtain rs where "regions trim_dmp (lit ''a'') (lit ''b'') (lit ''a'') = Some rs" by blast
  with regions_cover [OF trim_dmp_well this] show ?thesis by blast
qed

end
