(* ===== verification/Merge.thy ===== *)
theory Merge
  imports Merge_Regions Paths Encoding "HOL-Library.List_Lexorder"
begin

text \<open>
  \<open>client/src/core/merge.ts\<close>: the three-way text merge. \<open>mergeCore\<close> is the character merge with its
  seven checks, \<open>mergeText\<close> runs it inside the regions both devices changed and nowhere else, and
  \<open>conflictCopyPath\<close> names the copy kept when a merge is refused. \<open>diff-match-patch\<close> is the parameter
  \<open>dmp\<close> of \<open>Merge_Regions\<close>; why a merge was refused is a value of \<open>refusal_why\<close>, the source's messages.
\<close>

section \<open>What one side changed\<close>

definition EXACT_DIFF_CEILING :: nat where
  "EXACT_DIFF_CEILING = 8 * 1024"

definition fitsExactDiff :: "jstring \<Rightarrow> jstring \<Rightarrow> jstring \<Rightarrow> bool" where
  "fitsExactDiff base mine theirs =
     (if length base > EXACT_DIFF_CEILING \<or> length mine > EXACT_DIFF_CEILING
         \<or> length theirs > EXACT_DIFF_CEILING then False else True)"

record change =
  sp_start :: nat
  sp_end :: nat
  sp_text :: jstring

abbreviation is_point :: "change \<Rightarrow> bool" where
  "is_point s \<equiv> sp_start s = sp_end s"

fun changes_from :: "nat \<Rightarrow> diff \<Rightarrow> change list" where
  "changes_from pos [] = []"
| "changes_from pos ((Equal, text) # d) = changes_from (pos + length text) d"
| "changes_from pos ((Delete, text) # d) =
     \<lparr>sp_start = pos, sp_end = pos + length text, sp_text = text\<rparr> # changes_from (pos + length text) d"
| "changes_from pos ((Insert, text) # d) =
     \<lparr>sp_start = pos, sp_end = pos, sp_text = text\<rparr> # changes_from pos d"

definition changedSpans :: "diff \<Rightarrow> change list" where
  "changedSpans d = changes_from 0 d"

section \<open>Refusals before anything is applied\<close>

text \<open>The first pair, in the order of the two nested loops, that answers.\<close>

fun first_pair :: "('a \<Rightarrow> 'b \<Rightarrow> 'c option) \<Rightarrow> 'a list \<Rightarrow> 'b list \<Rightarrow> 'c option" where
  "first_pair f [] ys = None"
| "first_pair f (x # xs) ys =
     (case filter (\<lambda>r. r \<noteq> None) (map (f x) ys) of r # _ \<Rightarrow> r | [] \<Rightarrow> first_pair f xs ys)"

definition collides :: "change \<Rightarrow> change \<Rightarrow> change option" where
  "collides l r =
     (if is_point l \<and> is_point r then None
      else if is_point l then (if sp_start r < sp_start l \<and> sp_start l < sp_end r then Some l else None)
      else if is_point r then (if sp_start l < sp_start r \<and> sp_start r < sp_end l then Some r else None)
      else if sp_start l < sp_end r \<and> sp_start r < sp_end l then Some l else None)"

definition conflictingSpans :: "change list \<Rightarrow> change list \<Rightarrow> change option" where
  "conflictingSpans mine theirs = first_pair collides mine theirs"

text \<open>
  Where a walk over deleted text comes to rest. The source hands these lists of deletions only, whose
  end lies behind their start, so the walk ends.
\<close>

function walk_after :: "nat \<Rightarrow> change list \<Rightarrow> nat" where
  "walk_after pos dels =
     (case find (\<lambda>s. sp_start s = pos \<and> sp_start s < sp_end s) dels of
        None \<Rightarrow> pos | Some d \<Rightarrow> walk_after (sp_end d) dels)"
  by pat_completeness auto
termination
proof (relation "measure (\<lambda>(pos, dels). length (filter (\<lambda>s. pos \<le> sp_start s) dels))", goal_cases)
  case (2 pos dels d)
  then have "d \<in> set dels \<and> sp_start d = pos \<and> pos < sp_end d"
    by (auto simp: find_Some_iff)
  then have d: "d \<in> set (filter (\<lambda>s. pos \<le> sp_start s) dels)" "\<not> sp_end d \<le> sp_start d" "pos < sp_end d"
    by auto
  have "length (filter (\<lambda>s. sp_end d \<le> sp_start s) (filter (\<lambda>s. pos \<le> sp_start s) dels))
      < length (filter (\<lambda>s. pos \<le> sp_start s) dels)"
    using d(1,2) by (intro length_filter_less [where x = d]) auto
  moreover have "filter (\<lambda>s. sp_end d \<le> sp_start s) (filter (\<lambda>s. pos \<le> sp_start s) dels)
      = filter (\<lambda>s. sp_end d \<le> sp_start s) dels"
    using d(3) by (auto intro: filter_cong)
  ultimately show ?case by simp
qed simp

function walk_before :: "nat \<Rightarrow> change list \<Rightarrow> nat" where
  "walk_before pos dels =
     (case find (\<lambda>s. sp_end s = pos \<and> sp_start s < sp_end s) dels of
        None \<Rightarrow> pos | Some d \<Rightarrow> walk_before (sp_start d) dels)"
  by pat_completeness auto
termination
  by (relation "measure fst") (auto simp: find_Some_iff)

declare walk_after.simps [simp del] walk_before.simps [simp del]

definition boundary :: "jstring \<Rightarrow> int \<Rightarrow> bool" where
  "boundary base i \<longleftrightarrow> i < 0 \<or> i \<ge> int (length base) \<or> base ! nat i = newline"

definition fused_at :: "jstring \<Rightarrow> change list \<Rightarrow> change list \<Rightarrow> change \<Rightarrow> bool" where
  "fused_at base own other p =
     (let ownDeletions = filter (\<lambda>s. sp_start s < sp_end s) own;
          allDeletions = ownDeletions @ filter (\<lambda>s. sp_start s < sp_end s) other;
          otherAdditions = filter is_point other
      in is_point p \<and>
         ((\<not> starts_with (sp_text p) [newline] \<and> boundary base (int (walk_before (sp_start p) ownDeletions) - 1) \<and>
           (let pos = walk_before (sp_start p) allDeletions in
            \<not> boundary base (int pos - 1) \<or>
            list_ex (\<lambda>q. pos \<le> sp_start q \<and> sp_start q \<le> sp_start p \<and> \<not> ends_with (sp_text q) [newline])
              otherAdditions)) \<or>
          (\<not> ends_with (sp_text p) [newline] \<and> boundary base (int (walk_after (sp_start p) ownDeletions)) \<and>
           (let pos = walk_after (sp_start p) allDeletions in
            \<not> boundary base (int pos) \<or>
            list_ex (\<lambda>q. sp_start p \<le> sp_start q \<and> sp_start q \<le> pos \<and> \<not> starts_with (sp_text q) [newline])
              otherAdditions))))"

definition fusedLine :: "jstring \<Rightarrow> change list \<Rightarrow> change list \<Rightarrow> change option" where
  "fusedLine base own other = find (fused_at base own other) own"

text \<open>What of the ancestor is left before a position: \<open>kept\<close>, without spaces and tabs.\<close>

definition kept :: "jstring \<Rightarrow> change list \<Rightarrow> nat \<Rightarrow> nat" where
  "kept base deletions i =
     length (filter (\<lambda>j. \<not> (list_ex (\<lambda>d. sp_start d \<le> j \<and> j < sp_end d) deletions
                            \<or> base ! j = 32 \<or> base ! j = 9)) [0..<min i (length base)])"

definition spliced_pair :: "jstring \<Rightarrow> change list \<Rightarrow> change \<Rightarrow> change \<Rightarrow> change option" where
  "spliced_pair base deletions l r =
     (let (fst', snd') = (if sp_start l \<le> sp_start r then (l, r) else (r, l));
          apart = (\<lambda>x y. ends_with (sp_text x) [newline] \<or> starts_with (sp_text y) [newline])
      in if apart fst' snd' \<and> apart snd' fst' then None
         else if sp_start fst' = sp_start snd' then
           (if list_ex (\<lambda>d. sp_start d \<le> sp_start fst' \<and> sp_end d \<ge> sp_start fst') deletions then Some fst' else None)
         else if kept base deletions (sp_start snd') > kept base deletions (sp_start fst') then None
         else if list_ex (\<lambda>d. sp_start d \<le> sp_start snd' \<and> sp_end d \<ge> sp_start fst' \<and> newline \<in> set (sp_text d)) deletions
         then Some fst' else None)"

definition splicedAdditions :: "jstring \<Rightarrow> change list \<Rightarrow> change list \<Rightarrow> change option" where
  "splicedAdditions base mine theirs =
     (let mineAdds = filter is_point mine; theirAdds = filter is_point theirs;
          deletions = filter (\<lambda>s. sp_start s < sp_end s) (mine @ theirs)
      in if mineAdds = [] \<or> theirAdds = [] then None
         else if deletions = [] then None
         else first_pair (spliced_pair base deletions) mineAdds theirAdds)"

section \<open>Checks of the outcome\<close>

definition applyOneWay :: "'p dmp \<Rightarrow> jstring \<Rightarrow> diff \<Rightarrow> jstring \<Rightarrow> jstring \<times> nat \<times> nat" where
  "applyOneWay dmp base d onto =
     (let (text, applied) = dm_patch_apply dmp (dm_patch_make dmp base d) onto
      in (text, length (filter Not applied), length applied))"

fun place :: "nat \<Rightarrow> diff \<Rightarrow> jstring list" where
  "place pos [] = []"
| "place pos ((Equal, text) # d) = place (pos + length (splitLines text)) d"
| "place pos ((Delete, text) # d) =
     (let ls = splitLines text in
      map (\<lambda>(i, l). lit ''-'' @ decimal (pos + i) @ [32] @ l) (zip [0..<length ls] ls) @ place (pos + length ls) d)"
| "place pos ((Insert, text) # d) =
     map (\<lambda>l. lit ''+'' @ decimal pos @ [32] @ l) (splitLines text) @ place pos d"

text \<open>JavaScript sorts strings by their code units, which is the lexicographic order of the lists.\<close>

definition placements :: "'p dmp \<Rightarrow> jstring \<Rightarrow> jstring \<Rightarrow> jstring list" where
  "placements dmp base result =
     (let (chars1, chars2, _) = dm_linesToChars dmp base result
      in sort (place 0 (dm_charsToLines dmp base result (dm_main dmp Lines chars1 chars2))))"

definition samePlacement :: "'p dmp \<Rightarrow> jstring \<Rightarrow> jstring \<Rightarrow> jstring \<Rightarrow> bool" where
  "samePlacement dmp base a b = (if a = b then True else placements dmp base a = placements dmp base b)"

definition missingInsertions :: "diff \<Rightarrow> jstring \<Rightarrow> jstring option" where
  "missingInsertions d result = map_option snd (find (\<lambda>x. fst x = Insert \<and> \<not> contains result (snd x)) d)"

text \<open>\<open>text.split(/\s+/)\<close>.\<close>

function (sequential) split_ws :: "jstring \<Rightarrow> jstring list" where
  "split_ws [] = [[]]"
| "split_ws (c # s) =
     (if js_space c then [] # split_ws (dropWhile js_space s)
      else (c # hd (split_ws s)) # tl (split_ws s))"
  by pat_completeness auto
termination
  by (relation "measure length") (auto simp: le_imp_less_Suc length_dropWhile_le)

definition inventedWord :: "jstring \<Rightarrow> jstring \<Rightarrow> jstring \<Rightarrow> jstring \<Rightarrow> jstring option" where
  "inventedWord base mine theirs merged =
     (let known = concat (map split_ws [base, mine, theirs])
      in find (\<lambda>w. w \<noteq> [] \<and> w \<notin> set known) (split_ws merged))"

section \<open>The merges\<close>

datatype refusal_why =
    Same_text nat nat
  | Runs_into nat
  | Run_together nat
  | Not_placed nat nat
  | Either_order
  | Lost_edit jstring
  | Invented jstring
  | Not_valid
  | Runs_into_next nat

datatype outcome =
    Take jstring
  | Merged jstring
  | Conflict refusal_why

definition clean_diff :: "'p dmp \<Rightarrow> bool \<Rightarrow> jstring \<Rightarrow> jstring \<Rightarrow> diff" where
  "clean_diff dmp exact base side' =
     (let d = dm_main dmp (if exact then Exact else Expired) base side'
      in if length d > 2 then dm_cleanup dmp d else d)"

definition mergeCore ::
  "'p dmp \<Rightarrow> jstring \<Rightarrow> jstring \<Rightarrow> jstring \<Rightarrow> (jstring \<Rightarrow> bool) \<Rightarrow> nat \<Rightarrow> outcome" where
  "mergeCore dmp base mine theirs stillValid pos =
     (if mine = theirs then Take mine
      else if base = mine then Take theirs
      else if base = theirs then Take mine
      else
        (let exact = fitsExactDiff base mine theirs;
             d = clean_diff dmp exact base mine;
             theirDiff = clean_diff dmp exact base theirs;
             mineSpans = changedSpans d; theirSpans = changedSpans theirDiff
         in case conflictingSpans mineSpans theirSpans of
              Some c \<Rightarrow> Conflict (Same_text (pos + sp_start c) (pos + sp_end c))
            | None \<Rightarrow>
         (case (case fusedLine base mineSpans theirSpans of
                  Some f \<Rightarrow> Some f | None \<Rightarrow> fusedLine base theirSpans mineSpans) of
              Some f \<Rightarrow> Conflict (Runs_into (pos + sp_start f))
            | None \<Rightarrow>
         (case splicedAdditions base mineSpans theirSpans of
              Some s \<Rightarrow> Conflict (Run_together (pos + sp_start s))
            | None \<Rightarrow>
              (let (forward, f_failed, f_total) = applyOneWay dmp base d theirs;
                   (reverse, r_failed, r_total) = applyOneWay dmp base theirDiff mine
               in if f_failed > 0 \<or> r_failed > 0 then
                    Conflict (Not_placed (max f_failed r_failed) (max f_total r_total))
                  else if \<not> samePlacement dmp base forward reverse then Conflict Either_order
                  else case missingInsertions d forward of
                    Some text \<Rightarrow> Conflict (Lost_edit text)
                  | None \<Rightarrow> (case inventedWord base mine theirs forward of
                      Some w \<Rightarrow> Conflict (Invented (take 40 w))
                    | None \<Rightarrow> if \<not> stillValid forward then Conflict Not_valid else Merged forward))))))"

definition mergeTextCharacters ::
  "'p dmp \<Rightarrow> jstring \<Rightarrow> jstring \<Rightarrow> jstring \<Rightarrow> (jstring \<Rightarrow> bool) \<Rightarrow> outcome" where
  "mergeTextCharacters dmp base mine theirs stillValid = mergeCore dmp base mine theirs stillValid 0"

text \<open>The piece of the result one region gives, or why there is none.\<close>

definition region_piece :: "'p dmp \<Rightarrow> region \<Rightarrow> refusal_why + jstring" where
  "region_piece dmp r =
     (case rg_changed r of
        Neither \<Rightarrow> Inr (rg_base r)
      | Mine \<Rightarrow> Inr (rg_mine r)
      | Theirs \<Rightarrow> Inr (rg_theirs r)
      | Both \<Rightarrow>
          if rg_base r = [] \<and> rg_mine r = rg_theirs r then Inr (rg_mine r @ rg_theirs r)
          else (case mergeCore dmp (rg_base r) (rg_mine r) (rg_theirs r) (\<lambda>_. True) (rg_at r) of
                  Conflict why \<Rightarrow> Inl why | Take t \<Rightarrow> Inr t | Merged t \<Rightarrow> Inr t))"

fun region_pieces :: "'p dmp \<Rightarrow> region list \<Rightarrow> refusal_why + jstring list" where
  "region_pieces dmp [] = Inr []"
| "region_pieces dmp (r # rs) =
     try_then (region_piece dmp r) (\<lambda>p. try_then (region_pieces dmp rs) (\<lambda>ps. Inr (p # ps)))"

text \<open>The loop from the last piece to the first: a piece that does not end a line, in front of one that
  is not empty.\<close>

fun seam_fault :: "bool \<Rightarrow> (region \<times> jstring) list \<Rightarrow> region option" where
  "seam_fault seen [] = None"
| "seam_fault seen ((r, piece) # rest) =
     (if piece = [] then seam_fault seen rest
      else if seen \<and> \<not> ends_with piece [newline] then Some r
      else seam_fault True rest)"

definition mergeText ::
  "'p dmp \<Rightarrow> jstring \<Rightarrow> jstring \<Rightarrow> jstring \<Rightarrow> (jstring \<Rightarrow> bool) \<Rightarrow> outcome" where
  "mergeText dmp base mine theirs stillValid =
     (if mine = theirs then Take mine
      else if base = mine then Take theirs
      else if base = theirs then Take mine
      else case regions dmp base mine theirs of
        None \<Rightarrow> mergeTextCharacters dmp base mine theirs stillValid
      | Some parts \<Rightarrow>
          (case region_pieces dmp parts of
             Inl why \<Rightarrow> Conflict why
           | Inr pieces \<Rightarrow>
               (case seam_fault False (rev (zip parts pieces)) of
                  Some r \<Rightarrow> Conflict (Runs_into_next (rg_at r + length (rg_base r)))
                | None \<Rightarrow>
                    let text = concat pieces
                    in if \<not> stillValid text then Conflict Not_valid else Merged text)))"

section \<open>The conflict copy\<close>

fun collapse_dashes :: "jstring \<Rightarrow> jstring" where
  "collapse_dashes (a # b # s) =
     (if a = 45 \<and> b = 45 then collapse_dashes (b # s) else a # collapse_dashes (b # s))"
| "collapse_dashes s = s"

definition trim_mark :: "jchar \<Rightarrow> bool" where
  "trim_mark c \<longleftrightarrow> c = dot \<or> c = 45 \<or> js_space c"

definition sanitiseDevice :: "jstring \<Rightarrow> jstring" where
  "sanitiseDevice device =
     (let dashed = map (\<lambda>c. if c \<in> set (lit ''-/:*?'') \<union> {34, 60, 62, 92, 124} \<or> js_space c then 45 else c) device;
          collapsed = collapse_dashes dashed;
          trimmed = rev (dropWhile trim_mark (rev (dropWhile trim_mark collapsed)));
          cleaned = take 32 trimmed
      in if cleaned = [] then lit ''device'' else cleaned)"

record date =
  dt_year :: nat
  dt_month :: nat
  dt_day :: nat
  dt_hours :: nat
  dt_minutes :: nat

definition pad :: "nat \<Rightarrow> nat \<Rightarrow> jstring" where
  "pad width n = replicate (width - length (decimal n)) 48 @ decimal n"

definition conflictCopyPath :: "jstring \<Rightarrow> jstring \<Rightarrow> date \<Rightarrow> jstring" where
  "conflictCopyPath path device d =
     (let (stem, ext) = splitName path;
          stamp = decimal (dt_year d) @ pad 2 (dt_month d + 1) @ pad 2 (dt_day d) @ pad 2 (dt_hours d) @ pad 2 (dt_minutes d)
      in stem @ lit '' (Conflicted copy '' @ sanitiseDevice device @ [32] @ stamp @ lit '')'' @ ext)"

section \<open>Words\<close>

definition words :: "jstring \<Rightarrow> jstring set" where
  "words t = set (split_ws t) - {[]}"

lemma split_ws_not_Nil [simp]: "split_ws t \<noteq> []"
  by (cases t) auto

lemma split_ws_drop_space: "words (dropWhile js_space s) = words s"
proof (cases s)
  case (Cons c s')
  then show ?thesis by (auto simp: words_def)
qed (simp add: words_def)

lemma newline_space [simp]: "js_space newline"
  by (simp add: js_space_def)

lemma words_hd_tl: "words t = insert (hd (split_ws t)) (set (tl (split_ws t))) - {[]}"
  unfolding words_def by (metis list.collapse list.simps(15) split_ws_not_Nil)

lemma split_ws_append:
  assumes c: "js_space c"
  shows "hd (split_ws (a @ c # b)) = hd (split_ws a) \<and>
    set (tl (split_ws (a @ c # b))) - {[]} = (set (tl (split_ws a)) - {[]}) \<union> words b"
proof (induction a rule: split_ws.induct)
  case 1
  then show ?case using c split_ws_drop_space [of b] by (simp add: words_def)
next
  case (2 x s)
  show ?case
  proof (cases "js_space x")
    case True
    show ?thesis
    proof (cases "list_all js_space s")
      case all: True
      have "dropWhile js_space (s @ c # b) = dropWhile js_space b" "dropWhile js_space s = []"
        using all c by (simp_all add: list_all_iff dropWhile_append)
      then have "split_ws ((x # s) @ c # b) = [] # split_ws (dropWhile js_space b)" "split_ws (x # s) = [[], []]"
        using True by (simp_all only: append_Cons split_ws.simps if_True)
      then show ?thesis using split_ws_drop_space [of b] by (simp only: list.sel) (simp add: words_def)
    next
      case False
      let ?d = "dropWhile js_space s"
      have "dropWhile js_space (s @ c # b) = ?d @ c # b"
        using False by (auto simp: list_all_iff dropWhile_append1)
      then have "set (tl (split_ws ((x # s) @ c # b))) - {[]} = words (?d @ c # b)"
        using True by (simp add: words_def)
      also have "\<dots> = words ?d \<union> words b" using "2.IH"(1) [OF True] unfolding words_hd_tl by auto
      finally show ?thesis using True by (simp add: words_def)
    qed
  next
    case False
    then show ?thesis using "2.IH"(2) [OF False] by simp
  qed
qed

lemma words_append: "js_space c \<Longrightarrow> words (a @ c # b) = words a \<union> words b"
  using split_ws_append [of c a b] unfolding words_hd_tl [of "a @ c # b"] words_hd_tl [of a] by auto

lemma words_Nil [simp]: "words [] = {}"
  by (simp add: words_def)

text \<open>Pieces of which each but the last non-empty one ends a line.\<close>

fun line_pieces :: "jstring list \<Rightarrow> bool" where
  "line_pieces [] = True"
| "line_pieces (p # ps) = ((p = [] \<or> concat ps = [] \<or> last p = newline) \<and> line_pieces ps)"

lemma words_concat: "line_pieces ps \<Longrightarrow> words (concat ps) = \<Union> (set (map words ps))"
proof (induction ps)
  case (Cons p ps)
  have IH: "words (concat ps) = \<Union> (set (map words ps))" using Cons by simp
  consider "p = []" | "concat ps = []" | "p \<noteq> []" "concat ps \<noteq> []" by blast
  then have "words (p @ concat ps) = words p \<union> words (concat ps)"
  proof cases
    case 3
    then have "last p = newline" using Cons.prems unfolding line_pieces.simps by blast
    then have p: "p = butlast p @ [newline]" using append_butlast_last_id [OF 3(1)] by simp
    have "words (p @ concat ps) = words (butlast p) \<union> words (concat ps)"
      using words_append [OF newline_space, of "butlast p" "concat ps"] p by (metis append.assoc append_Cons append_Nil)
    moreover have "words p = words (butlast p)"
      using words_append [OF newline_space, of "butlast p" "[]"] p by simp
    ultimately show ?thesis by simp
  qed (simp_all only: append_Nil append_Nil2 words_Nil Un_empty_left Un_empty_right)
  then show ?case using IH by simp
qed simp

section \<open>Seams\<close>

lemma splitLines_ends:
  assumes "i + 1 < length (splitLines x)"
  shows "splitLines x ! i \<noteq> [] \<and> last (splitLines x ! i) = newline"
proof -
  let ?parts = "split_on newline x"
  have "i < length (butlast ?parts)" using assms by (auto simp: splitLines_def Let_def split: if_splits)
  then show ?thesis by (simp add: splitLines_def Let_def nth_append)
qed

lemma stretch_ends:
  assumes "s < m" and "m < length (splitLines x)"
  shows "last (stretch (splitLines x) s m) = newline"
proof -
  have "slice (splitLines x) s m = slice (splitLines x) s (m - 1) @ [splitLines x ! (m - 1)]"
    using slice_append [of s "m - 1" m "splitLines x"] assms
    by (simp add: slice_def take_Suc_conv_app_nth [of 0])
  then show ?thesis using splitLines_ends [of "m - 1" x] assms by (simp add: stretch_def)
qed

lemma cuts_line_pieces: "cuts f (splitLines x) s rs (length (splitLines x)) \<Longrightarrow> line_pieces (map f rs)"
proof (induction rs arbitrary: s)
  case (Cons r rs)
  let ?n = "length (splitLines x)"
  obtain m where m: "s \<le> m" "f r = stretch (splitLines x) s m" "cuts f (splitLines x) m rs ?n"
    using Cons.prems by auto
  have rest: "concat (map f rs) = stretch (splitLines x) m ?n" by (rule cuts_concat [OF m(3)])
  have "m \<le> ?n" by (rule cuts_le [OF m(3)])
  then consider "s = m" | "m = ?n" | "s < m" "m < ?n" using m(1) by linarith
  then have "f r = [] \<or> concat (map f rs) = [] \<or> last (f r) = newline"
    by cases (use m(2) rest stretch_ends in auto)
  then show ?case using Cons.IH [OF m(3)] by simp
qed simp

lemma contiguous_cuts: "contiguous ls a rs c \<Longrightarrow> cuts rg_base ls a rs c"
  by (induction rs arbitrary: a) auto

lemma seam_fault_snoc:
  "seam_fault seen (ys @ [(r, p)]) =
     (case seam_fault seen ys of Some e \<Rightarrow> Some e
      | None \<Rightarrow> if p \<noteq> [] \<and> (seen \<or> concat (map snd ys) \<noteq> []) \<and> \<not> ends_with p [newline] then Some r else None)"
  by (induction seen ys rule: seam_fault.induct) auto

lemma ends_with_newline: "p \<noteq> [] \<Longrightarrow> ends_with p [newline] \<longleftrightarrow> last p = newline"
  by (auto simp: ends_with_iff) (metis append_butlast_last_id)

lemma seam_line_pieces: "seam_fault False (rev zs) = None \<Longrightarrow> line_pieces (map snd zs)"
proof (induction zs)
  case (Cons z zs)
  obtain r p where z: "z = (r, p)" by (cases z)
  have s: "seam_fault False (rev zs) = None" "\<not> (p \<noteq> [] \<and> concat (map snd (rev zs)) \<noteq> [] \<and> \<not> ends_with p [newline])"
    using Cons.prems by (auto simp: z seam_fault_snoc split: option.splits if_splits)
  have "concat (map snd (rev zs)) = [] \<longleftrightarrow> concat (map snd zs) = []" by auto
  then have "p = [] \<or> concat (map snd zs) = [] \<or> last p = newline" using s(2) ends_with_newline by blast
  then show ?case using Cons.IH [OF s(1)] z by simp
qed simp

section \<open>What a merge holds\<close>

definition known_words :: "jstring \<Rightarrow> jstring \<Rightarrow> jstring \<Rightarrow> jstring set" where
  "known_words base mine theirs = words base \<union> words mine \<union> words theirs"

lemma inventedWord_None: "inventedWord base mine theirs t = None \<Longrightarrow> words t \<subseteq> known_words base mine theirs"
  by (auto simp: inventedWord_def known_words_def words_def find_None_iff)

lemma mergeCore_words:
  assumes "mergeCore dmp base mine theirs valid pos = Take t \<or> mergeCore dmp base mine theirs valid pos = Merged t"
  shows "words t \<subseteq> known_words base mine theirs"
proof -
  have "t = mine \<or> t = theirs \<or> inventedWord base mine theirs t = None"
    using assms by (auto simp: mergeCore_def Let_def split: if_splits option.splits prod.splits)
  moreover have "words mine \<subseteq> known_words base mine theirs" "words theirs \<subseteq> known_words base mine theirs"
    by (auto simp: known_words_def)
  ultimately show ?thesis using inventedWord_None by blast
qed

text \<open>Both devices added the same text at one point, without a line end.\<close>

definition unended_twin :: "region \<Rightarrow> bool" where
  "unended_twin r \<longleftrightarrow> rg_changed r = Both \<and> rg_base r = [] \<and> rg_mine r = rg_theirs r \<and>
     rg_mine r \<noteq> [] \<and> \<not> ends_with (rg_mine r) [newline]"

lemma region_piece_words:
  assumes "region_piece dmp r = Inr p" and "\<not> unended_twin r"
  shows "words p \<subseteq> known_words (rg_base r) (rg_mine r) (rg_theirs r)"
proof (cases "rg_changed r = Both")
  case True
  show ?thesis
  proof (cases "rg_base r = [] \<and> rg_mine r = rg_theirs r")
    case twin: True
    then have p: "p = rg_mine r @ rg_mine r" using assms(1) True by (simp add: region_piece_def)
    have "line_pieces [rg_mine r, rg_mine r]"
      using assms(2) True twin ends_with_newline [of "rg_mine r"] by (auto simp: unended_twin_def)
    then have "words (concat [rg_mine r, rg_mine r]) = words (rg_mine r)" by (simp only: words_concat) auto
    then show ?thesis using p by (auto simp: known_words_def)
  next
    case False
    then have "mergeCore dmp (rg_base r) (rg_mine r) (rg_theirs r) (\<lambda>_. True) (rg_at r) = Take p \<or>
        mergeCore dmp (rg_base r) (rg_mine r) (rg_theirs r) (\<lambda>_. True) (rg_at r) = Merged p"
      using assms(1) True by (auto simp: region_piece_def split: outcome.splits)
    then show ?thesis by (rule mergeCore_words)
  qed
qed (use assms(1) in \<open>auto simp: region_piece_def known_words_def split: changed_by.splits\<close>)

lemma region_pieces_all:
  "region_pieces dmp rs = Inr ps \<Longrightarrow> length ps = length rs \<and> list_all2 (\<lambda>r p. region_piece dmp r = Inr p) rs ps"
  by (induction rs arbitrary: ps) auto

lemma mergeText_words:
  assumes "diffs_well dmp" and "mergeText dmp base mine theirs valid = Merged t"
    and twins: "\<forall>rs. regions dmp base mine theirs = Some rs \<longrightarrow> \<not> list_ex unended_twin rs"
  shows "words t \<subseteq> known_words base mine theirs"
proof (cases "regions dmp base mine theirs")
  case None
  then have "mergeCore dmp base mine theirs valid 0 = Merged t"
    using assms(2) unfolding mergeText_def mergeTextCharacters_def by (simp split: if_splits)
  then show ?thesis by (intro mergeCore_words) (rule disjI2)
next
  case (Some rs)
  obtain ps where ps: "region_pieces dmp rs = Inr ps" "seam_fault False (rev (zip rs ps)) = None" "t = concat ps"
    using assms(2) unfolding mergeText_def Let_def Some option.case
    by (simp split: if_splits sum.splits option.splits)
  note all = region_pieces_all [OF ps(1)]
  have "map snd (zip rs ps) = ps" using all by simp
  with seam_line_pieces [OF ps(2)] have "line_pieces ps" by (rule subst [rotated])
  then have "words t = \<Union> (set (map words ps))" unfolding ps(3) by (rule words_concat)
  moreover have "words p \<subseteq> known_words base mine theirs" if mem: "p \<in> set ps" for p
  proof -
    obtain i where i: "i < length ps" "p = ps ! i" using mem unfolding in_set_conv_nth by blast
    let ?r = "rs ! i"
    have r: "?r \<in> set rs" using i(1) conjunct1 [OF all] by (simp only: nth_mem)
    have "region_piece dmp ?r = Inr p"
      unfolding i(2) by (rule list_all2_nthD2 [OF conjunct2 [OF all] i(1)])
    moreover have "\<not> unended_twin ?r" using twins Some r by (auto simp: list_ex_iff)
    ultimately have p: "words p \<subseteq> known_words (rg_base ?r) (rg_mine ?r) (rg_theirs ?r)" by (rule region_piece_words)
    note cut = regions_cut [OF assms(1) Some]
    have w: "words (f ?r) \<subseteq> words (concat (map f rs))" if lp: "line_pieces (map f rs)" for f :: "region \<Rightarrow> jstring"
      unfolding words_concat [OF lp] using r by auto
    note spec = regions_spec [OF assms(1) Some]
    have "line_pieces (map rg_base rs)" using cut contiguous_cuts by (blast intro: cuts_line_pieces)
    then have 1: "words (rg_base ?r) \<subseteq> words base" using w [of rg_base] spec by simp
    have "line_pieces (map rg_mine rs)" using cut by (blast intro: cuts_line_pieces)
    then have 2: "words (rg_mine ?r) \<subseteq> words mine" using w [of rg_mine] spec by simp
    have "line_pieces (map rg_theirs rs)" using cut by (blast intro: cuts_line_pieces)
    then have 3: "words (rg_theirs ?r) \<subseteq> words theirs" using w [of rg_theirs] spec by simp
    show ?thesis using 1 2 3 p unfolding known_words_def by blast
  qed
  ultimately show ?thesis by auto
qed

text \<open>What a region gives that at most one device changed.\<close>

definition chosen :: "region \<Rightarrow> jstring" where
  "chosen r = (case rg_changed r of Neither \<Rightarrow> rg_base r | Mine \<Rightarrow> rg_mine r | Theirs \<Rightarrow> rg_theirs r | Both \<Rightarrow> [])"

lemma chosen_pieces:
  "list_all (\<lambda>r. rg_changed r \<noteq> Both) rs \<Longrightarrow> region_pieces dmp rs = Inr (map chosen rs)"
  by (induction rs) (auto simp: region_piece_def chosen_def split: changed_by.splits)

lemma line_pieces_seam: "line_pieces (map snd zs) \<Longrightarrow> seam_fault False (rev zs) = None"
proof (induction zs)
  case (Cons z zs)
  obtain r p where z: "z = (r, p)" by (cases z)
  have "concat (map snd (rev zs)) = [] \<longleftrightarrow> concat (map snd zs) = []" by auto
  then have "\<not> (p \<noteq> [] \<and> concat (map snd (rev zs)) \<noteq> [] \<and> \<not> ends_with p [newline])"
    using Cons.prems z ends_with_newline [of p] by auto
  then show ?case using Cons z by (simp add: seam_fault_snoc)
qed simp

lemma first_pair_None: "first_pair f xs ys = None \<longleftrightarrow> (\<forall>x \<in> set xs. \<forall>y \<in> set ys. f x y = None)"
proof (induction xs)
  case (Cons x xs)
  show ?case
  proof (cases "filter (\<lambda>r. r \<noteq> None) (map (f x) ys)")
    case Nil
    then show ?thesis using Cons by (simp add: filter_empty_conv)
  next
    case (Cons r rest)
    then have "r \<in> set (filter (\<lambda>r. r \<noteq> None) (map (f x) ys))" by simp
    then show ?thesis using Cons by auto
  qed
qed simp

text \<open>Two changes that can both be honoured: neither reaches inside what the other took away.\<close>

definition compatible :: "change \<Rightarrow> change \<Rightarrow> bool" where
  "compatible l r \<longleftrightarrow>
     (if is_point l \<and> is_point r then True
      else if is_point l then sp_start l \<le> sp_start r \<or> sp_end r \<le> sp_start l
      else if is_point r then sp_start r \<le> sp_start l \<or> sp_end l \<le> sp_start r
      else sp_end l \<le> sp_start r \<or> sp_end r \<le> sp_start l)"

lemma collides_None: "collides l r = None \<longleftrightarrow> compatible l r"
  by (auto simp: collides_def compatible_def)

lemma mergeCore_Merged:
  assumes "mergeCore dmp base mine theirs valid pos = Merged t"
  defines "d \<equiv> clean_diff dmp (fitsExactDiff base mine theirs) base mine"
    and "e \<equiv> clean_diff dmp (fitsExactDiff base mine theirs) base theirs"
  shows "valid t \<and> t = fst (applyOneWay dmp base d theirs) \<and>
    fst (snd (applyOneWay dmp base d theirs)) = 0 \<and> fst (snd (applyOneWay dmp base e mine)) = 0 \<and>
    samePlacement dmp base t (fst (applyOneWay dmp base e mine)) \<and>
    conflictingSpans (changedSpans d) (changedSpans e) = None \<and> missingInsertions d t = None \<and>
    inventedWord base mine theirs t = None"
  using assms(1) unfolding mergeCore_def Let_def d_def [symmetric] e_def [symmetric]
  by (auto split: if_splits option.splits prod.splits)

section \<open>Properties\<close>

text \<open>C9. A merge invents no word: every word of a merged note is a word of the last synced version or of
  one device's. This holds whatever the diff library places where, of the whole note and not only of
  the regions the character merge looked at, as long as no two devices added the same text without a
  line end at one place.\<close>

theorem merge_invents_no_word:
  assumes "diffs_well dmp" and "mergeText dmp base mine theirs valid = Merged t"
    and "case regions dmp base mine theirs of None \<Rightarrow> True | Some rs \<Rightarrow> \<not> list_ex unended_twin rs"
  shows "words t \<subseteq> words base \<union> words mine \<union> words theirs"
  using mergeText_words [OF assms(1,2)] assms(3) by (auto simp: known_words_def split: option.splits)

lemma three_line_regions:
  "regions trim_dmp [97,10,98,10,99,10] [120,10,98,10,99,10] [97,10,98,10,121,10] =
  Some [\<lparr>rg_changed = Mine, rg_base = [97,10], rg_mine = [120,10], rg_theirs = [97,10], rg_at = 0, rg_firstLine = 0, rg_lastLine = 1\<rparr>,
    \<lparr>rg_changed = Neither, rg_base = [98,10], rg_mine = [98,10], rg_theirs = [98,10], rg_at = 2, rg_firstLine = 1, rg_lastLine = 2\<rparr>,
    \<lparr>rg_changed = Theirs, rg_base = [99,10], rg_mine = [99,10], rg_theirs = [121,10], rg_at = 4, rg_firstLine = 2, rg_lastLine = 3\<rparr>]"
  by (simp add: regions_def side_def trim_dmp_def splitLines_def line_chars_def bisectWork_def WORK_BUDGET_def
      Let_def trim_diff_def side_step_def close_hunk_def stretch_def Prelude.slice_def in_order_def stable_def
      region_of_def offset_def)

lemma three_line_merge:
  "mergeText trim_dmp [97,10,98,10,99,10] [120,10,98,10,99,10] [97,10,98,10,121,10] (\<lambda>_. True)
     = Merged [120,10,98,10,121,10]"
  by (simp add: mergeText_def three_line_regions region_piece_def ends_with_def Let_def)

lemma merge_invents_no_word_witness:
  "words [120,10,98,10,121,10] \<subseteq>
     words [97,10,98,10,99,10] \<union> words [120,10,98,10,99,10] \<union> words [97,10,98,10,121,10]"
  by (rule merge_invents_no_word [OF trim_dmp_well three_line_merge])
    (simp add: three_line_regions unended_twin_def)

text \<open>C10. Edits in different places merge exactly. When no region was changed by both devices, the result
  is the regions in order, each copied from the device that changed it, and the merge is refused only
  where a copied piece would run into the next line or the file is no longer valid.\<close>

theorem separate_edits_are_copied:
  assumes "regions dmp base mine theirs = Some rs" and "list_all (\<lambda>r. rg_changed r \<noteq> Both) rs"
    and "mine \<noteq> theirs" and "base \<noteq> mine" and "base \<noteq> theirs"
  shows "mergeText dmp base mine theirs valid = Merged t \<longleftrightarrow>
    t = concat (map chosen rs) \<and> line_pieces (map chosen rs) \<and> valid t"
proof -
  have m: "map snd (zip rs (map chosen rs)) = map chosen rs" by simp
  have "seam_fault False (rev (zip rs (map chosen rs))) = None \<longleftrightarrow> line_pieces (map chosen rs)"
    using line_pieces_seam [of "zip rs (map chosen rs)"] seam_line_pieces [of "zip rs (map chosen rs)"]
    unfolding m by blast
  then show ?thesis
    using assms chosen_pieces [OF assms(2), of dmp] by (auto simp: mergeText_def Let_def split: option.splits)
qed

lemma separate_edits_are_copied_witness:
  "mergeText trim_dmp [97,10,98,10,99,10] [120,10,98,10,99,10] [97,10,98,10,121,10] (\<lambda>_. True)
     = Merged [120,10,98,10,121,10]"
  by (subst separate_edits_are_copied [OF three_line_regions]) (simp_all add: chosen_def)


text \<open>A library that knows one merge: \<open>a b\<close> with a word added in front on one device and behind on the other.\<close>

definition one_dmp :: "unit dmp" where
  "one_dmp = trim_dmp\<lparr>
     dm_main := (\<lambda>mode a b. if b = [97,32,98,32,97] then [(Equal, [97,32,98]), (Insert, [32,97])]
                            else [(Insert, [98,32]), (Equal, [97,32,98])]),
     dm_patch_apply := (\<lambda>p t. ([98,32,97,32,98,32,97], [True]))\<rparr>"

lemma one_merge:
  "mergeTextCharacters one_dmp [97,32,98] [97,32,98,32,97] [98,32,97,32,98] (\<lambda>_. True) = Merged [98,32,97,32,98,32,97]"
  by (simp add: mergeTextCharacters_def mergeCore_def one_dmp_def clean_diff_def changedSpans_def conflictingSpans_def
      collides_def fusedLine_def fused_at_def walk_after.simps walk_before.simps boundary_def splicedAdditions_def
      applyOneWay_def samePlacement_def missingInsertions_def inventedWord_def starts_with_def ends_with_def
      js_space_def fitsExactDiff_def EXACT_DIFF_CEILING_def Let_def)


text \<open>Two devices that add the same text without a line end at the same place of a note, one of them
  having edited it elsewhere too, get it glued to itself: the note ends in a word nobody wrote. The
  diffs are the shortest ones, which is what the library gives.\<close>

theorem same_addition_is_glued:
  assumes "dm_linesToChars dmp [120,10,97,10] [121,10,97,10,98] = ([1,2], [3,2,4], 4)"
    and "dm_linesToChars dmp [120,10,97,10] [120,10,97,10,98] = ([1,2], [1,2,3], 3)"
    and "dm_main dmp Lines [1,2] [3,2,4] = [(Delete, [1]), (Insert, [3]), (Equal, [2]), (Insert, [4])]"
    and "dm_main dmp Lines [1,2] [1,2,3] = [(Equal, [1,2]), (Insert, [3])]"
  shows "mergeText dmp [120,10,97,10] [121,10,97,10,98] [120,10,97,10,98] (\<lambda>_. True)
      = Merged [121,10,97,10,98,98] \<and>
    [98,98] \<in> words [121,10,97,10,98,98] - (words [120,10,97,10] \<union> words [121,10,97,10,98] \<union> words [120,10,97,10,98])"
proof -
  have work: "bisectWork dmp a b \<le> length a * length b" for a b
  proof -
    have "m * n \<le> int (length a) * int (length b)" if "m \<le> int (length a)" "n \<le> int (length b)" "0 < m" "0 < n" for m n
      using that by (intro mult_mono) simp_all
    then show ?thesis by (auto simp: bisectWork_def Let_def nat_le_iff)
  qed
  have small: "\<not> bisectWork dmp [1,2] [3,2,4] > WORK_BUDGET" "\<not> bisectWork dmp [1,2] [1,2,3] > WORK_BUDGET"
    using work [of "[1,2]" "[3,2,4]"] work [of "[1,2]" "[1,2,3]"] by (simp_all add: WORK_BUDGET_def)
  have "regions dmp [120,10,97,10] [121,10,97,10,98] [120,10,97,10,98] =
    Some [\<lparr>rg_changed = Mine, rg_base = [120,10], rg_mine = [121,10], rg_theirs = [120,10], rg_at = 0, rg_firstLine = 0, rg_lastLine = 1\<rparr>,
      \<lparr>rg_changed = Neither, rg_base = [97,10], rg_mine = [97,10], rg_theirs = [97,10], rg_at = 2, rg_firstLine = 1, rg_lastLine = 2\<rparr>,
      \<lparr>rg_changed = Both, rg_base = [], rg_mine = [98], rg_theirs = [98], rg_at = 4, rg_firstLine = 2, rg_lastLine = 2\<rparr>]"
    using small
    by (simp add: regions_def side_def assms splitLines_def Let_def side_step_def close_hunk_def stretch_def
        Prelude.slice_def in_order_def stable_def region_of_def offset_def)
  then have "mergeText dmp [120,10,97,10] [121,10,97,10,98] [120,10,97,10,98] (\<lambda>_. True) = Merged [121,10,97,10,98,98]"
    by (simp add: mergeText_def region_piece_def ends_with_def Let_def)
  moreover have "[98,98] \<in> words [121,10,97,10,98,98] - (words [120,10,97,10] \<union> words [121,10,97,10,98] \<union> words [120,10,97,10,98])"
    by (simp add: words_def js_space_def)
  ultimately show ?thesis by blast
qed

lemma same_addition_is_glued_witness:
  "\<exists>dmp :: unit dmp. mergeText dmp [120,10,97,10] [121,10,97,10,98] [120,10,97,10,98] (\<lambda>_. True)
     = Merged [121,10,97,10,98,98]"
proof -
  let ?dmp = "trim_dmp\<lparr>
     dm_linesToChars := (\<lambda>a b. if b = [121,10,97,10,98] then ([1,2], [3,2,4], 4) else ([1,2], [1,2,3], 3)),
     dm_main := (\<lambda>mode a b. if b = [3,2,4] then [(Delete, [1]), (Insert, [3]), (Equal, [2]), (Insert, [4])]
                            else [(Equal, [1,2]), (Insert, [3])])\<rparr>"
  show ?thesis using same_addition_is_glued [of ?dmp] by (auto simp del: split_paired_Ex)
qed

lemma collapse_dashes_set: "set (collapse_dashes s) \<subseteq> set s"
  by (induction s rule: collapse_dashes.induct) auto

lemma trim_end: "prefix (rev (dropWhile P (rev xs))) xs"
  by (metis prefix_def rev_append rev_rev_ident takeWhile_dropWhile_id)

text \<open>The name of a conflict copy is safe in a file name whatever the device is called: one to
  thirty-two characters, no white space, none of the characters a platform objects to, and no leading
  dot that would hide the copy.\<close>

theorem sanitiseDevice_safe:
  "sanitiseDevice device \<noteq> [] \<and> length (sanitiseDevice device) \<le> 32 \<and>
   hd (sanitiseDevice device) \<noteq> dot \<and> hd (sanitiseDevice device) \<noteq> 45 \<and>
   list_all (\<lambda>c. \<not> js_space c \<and> c \<notin> {47, 92, 58, 42, 63, 34, 60, 62, 124}) (sanitiseDevice device)"
proof -
  define ok where "ok c \<longleftrightarrow> \<not> js_space c \<and> c \<notin> {47, 92, 58, 42, 63, 34, 60, 62, 124}" for c :: jchar
  define dashed where "dashed = map (\<lambda>c. if c \<in> set (lit ''-/:*?'') \<union> {34, 60, 62, 92, 124} \<or> js_space c then 45 else c) device"
  define opened where "opened = dropWhile trim_mark (collapse_dashes dashed)"
  define trimmed where "trimmed = rev (dropWhile trim_mark (rev opened))"
  have dash: "ok 45" by (simp add: ok_def js_space_def)
  then have "list_all ok dashed" by (auto simp: dashed_def list_all_iff ok_def)
  moreover have pre: "prefix trimmed opened" unfolding trimmed_def by (rule trim_end)
  moreover have "set opened \<subseteq> set dashed"
    using collapse_dashes_set [of dashed] set_dropWhileD unfolding opened_def by fastforce
  ultimately have ok: "list_all ok trimmed" using set_mono_prefix [OF pre] by (auto simp: list_all_iff)
  have hd: "\<not> trim_mark (hd trimmed)" if "trimmed \<noteq> []"
  proof -
    have "opened \<noteq> []" "hd opened = hd trimmed" using pre that by (auto simp: prefix_def)
    then show ?thesis using hd_dropWhile [of trim_mark "collapse_dashes dashed"] unfolding opened_def by simp
  qed
  have eq: "sanitiseDevice device = (if take 32 trimmed = [] then lit ''device'' else take 32 trimmed)"
    by (simp add: sanitiseDevice_def Let_def trimmed_def opened_def dashed_def)
  show ?thesis
  proof (cases "trimmed = []")
    case True
    then show ?thesis by (simp add: eq js_space_def)
  next
    case False
    then have "hd (take 32 trimmed) = hd trimmed" by simp
    then show ?thesis
      using False hd ok by (auto simp: eq trim_mark_def ok_def list_all_iff dest: in_set_takeD)
  qed
qed

end
