(* ===== verification/Yaml.thy ===== *)
theory Yaml
  imports Encoding
begin

text \<open>
  \<open>client/src/core/yaml.ts\<close>: the structural check a merged \<open>.base\<close> or \<open>.yaml\<close> file has to pass. A quote
  that is open is \<open>Some\<close> its character, the empty string of the source is \<open>None\<close>; the open levels are a
  list with the innermost first.
\<close>

section \<open>Lines\<close>

abbreviation double_quote :: jchar where "double_quote \<equiv> 34"
abbreviation single_quote :: jchar where "single_quote \<equiv> 39"
abbreviation hash_mark :: jchar where "hash_mark \<equiv> 35"
abbreviation backslash :: jchar where "backslash \<equiv> 92"
abbreviation colon :: jchar where "colon \<equiv> 58"
abbreviation space :: jchar where "space \<equiv> 32"

definition is_quote :: "jchar \<Rightarrow> bool" where
  "is_quote c \<longleftrightarrow> c = double_quote \<or> c = single_quote"

text \<open>At the start of the text or behind white space, where a \<open>#\<close> starts a comment.\<close>

definition behind_space :: "jchar option \<Rightarrow> bool" where
  "behind_space prev = (case prev of None \<Rightarrow> True | Some c \<Rightarrow> js_space c)"

text \<open>\<open>carryOver\<close>: what a line leaves open. \<open>prev\<close> is the character before the one looked at.\<close>

fun carry :: "jchar option \<Rightarrow> jstring \<Rightarrow> nat \<Rightarrow> jchar option \<Rightarrow> nat \<times> jchar option" where
  "carry prev [] flow quote = (flow, quote)"
| "carry prev (ch # s) flow (Some q) =
     (if ch = backslash \<and> q = double_quote then
        (case s of [] \<Rightarrow> (flow, Some q) | d # s' \<Rightarrow> carry (Some d) s' flow (Some q))
      else if ch = q then carry (Some ch) s flow None
      else carry (Some ch) s flow (Some q))"
| "carry prev (ch # s) flow None =
     (if is_quote ch then carry (Some ch) s flow (Some ch)
      else if ch = 91 \<or> ch = 123 then carry (Some ch) s (flow + 1) None
      else if ch = 93 \<or> ch = 125 then carry (Some ch) s (flow - 1) None
      else if ch = hash_mark \<and> flow = 0 \<and> behind_space prev then (flow, None)
      else carry (Some ch) s flow None)"

definition carryOver :: "jstring \<Rightarrow> nat \<Rightarrow> jchar option \<Rightarrow> nat \<times> jchar option" where
  "carryOver t flow openQuote = carry None t flow openQuote"

section \<open>Levels\<close>

type_synonym level = "nat \<times> jstring list"

datatype where_to = Here | Continued | Nowhere

fun pop_deeper :: "nat \<Rightarrow> level list \<Rightarrow> level list" where
  "pop_deeper indent (l # m # ls) = (if indent < fst l then pop_deeper indent (m # ls) else l # m # ls)"
| "pop_deeper indent ls = ls"

definition settle_level :: "level list \<Rightarrow> nat \<Rightarrow> bool \<Rightarrow> where_to \<times> level list" where
  "settle_level opened indent mayOpen =
     (if opened = [] \<or> indent > fst (hd opened) then
        (if \<not> mayOpen \<and> opened \<noteq> [] then (Continued, opened) else (Here, (indent, []) # opened))
      else
        (let ls = pop_deeper indent opened
         in (if indent = fst (hd ls) then Here else Nowhere, ls)))"

section \<open>Keys and values\<close>

text \<open>The loop of \<open>keyOf\<close>: where it stopped and the quote still open, or None where it returns at once.\<close>

fun key_scan :: "nat \<Rightarrow> jchar option \<Rightarrow> jstring \<Rightarrow> (nat \<times> jchar option) option" where
  "key_scan pos quote [] = Some (pos, quote)"
| "key_scan pos (Some q) (ch # s) =
     (if ch = backslash \<and> q = double_quote then
        (case s of [] \<Rightarrow> Some (pos + 2, Some q) | _ # s' \<Rightarrow> key_scan (pos + 2) (Some q) s')
      else if ch = q then key_scan (pos + 1) None s
      else key_scan (pos + 1) (Some q) s)"
| "key_scan pos None (ch # s) =
     (if is_quote ch then (if pos \<noteq> 0 then None else key_scan (pos + 1) (Some ch) s)
      else if ch = colon \<and> (s = [] \<or> hd s = space) then Some (pos, None)
      else if ch = 91 \<or> ch = 123 \<or> ch = hash_mark then None
      else key_scan (pos + 1) None s)"

definition keyOf :: "jstring \<Rightarrow> jstring option" where
  "keyOf body =
     (case key_scan 0 None body of
        None \<Rightarrow> None
      | Some (pos, quote) \<Rightarrow>
          if quote \<noteq> None then None
          else if pos \<ge> length body then None
          else
            (let key = js_trim (take pos body) in
             if key = [] then None
             else
               (let wrapped = (starts_with key [double_quote] \<and> ends_with key [double_quote])
                      \<or> (starts_with key [single_quote] \<and> ends_with key [single_quote])
                in Some (if wrapped \<and> length key \<ge> 2 then butlast (tl key) else key))))"

fun strip_from :: "jchar option \<Rightarrow> jchar option \<Rightarrow> jstring \<Rightarrow> jstring" where
  "strip_from prev quote [] = []"
| "strip_from prev (Some q) (ch # s) =
     (if ch = backslash \<and> q = double_quote then
        (case s of [] \<Rightarrow> [ch] | d # s' \<Rightarrow> ch # d # strip_from (Some d) (Some q) s')
      else if ch = q then ch # strip_from (Some ch) None s
      else ch # strip_from (Some ch) (Some q) s)"
| "strip_from prev None (ch # s) =
     (if is_quote ch then ch # strip_from (Some ch) (Some ch) s
      else if ch = hash_mark \<and> behind_space prev then []
      else ch # strip_from (Some ch) None s)"

definition stripComment :: "jstring \<Rightarrow> jstring" where
  "stripComment t = strip_from None None t"

text \<open>An anchor or a tag in front, with the white space behind it.\<close>

definition undecorated :: "jstring \<Rightarrow> jstring option" where
  "undecorated value =
     (case value of
        [] \<Rightarrow> None
      | c # s \<Rightarrow>
          if c = 38 \<and> s \<noteq> [] \<and> \<not> js_space (hd s) \<or> c = 33
          then Some (dropWhile js_space (dropWhile (\<lambda>x. \<not> js_space x) s)) else None)"

definition undecorate :: "jstring \<Rightarrow> jstring" where
  "undecorate value =
     (case undecorated value of None \<Rightarrow> value
      | Some v \<Rightarrow> (case undecorated (js_trim v) of None \<Rightarrow> js_trim v | Some v' \<Rightarrow> js_trim v'))"

text \<open>What follows the first colon and space.\<close>

fun after_colon :: "jstring \<Rightarrow> jstring option" where
  "after_colon (c # d # s) = (if c = colon \<and> d = space then Some s else after_colon (d # s))"
| "after_colon _ = None"

definition valueOf :: "jstring \<Rightarrow> jstring" where
  "valueOf body =
     (let after = (case after_colon body of Some s \<Rightarrow> s
                   | None \<Rightarrow> if ends_with body [colon] then [] else body)
      in undecorate (js_trim (stripComment after)))"

definition is_sign :: "jchar \<Rightarrow> bool" where
  "is_sign c \<longleftrightarrow> c = 43 \<or> c = 45"

definition opensBlockScalar :: "jstring \<Rightarrow> bool" where
  "opensBlockScalar body =
     (case valueOf body of
        c # s \<Rightarrow> (c = 124 \<or> c = 62) \<and>
          ((s \<noteq> [] \<and> is_sign (hd s) \<and> list_all is_digit (tl s)) \<or>
           list_all is_digit s \<or> (s \<noteq> [] \<and> list_all is_digit (butlast s) \<and> is_sign (last s)))
      | [] \<Rightarrow> False)"

section \<open>The check\<close>

record yaml_state =
  ym_open :: "level list"
  ym_scalarAt :: "nat option"
  ym_mayOpen :: bool
  ym_flow :: nat
  ym_quote :: "jchar option"

definition yaml_start :: yaml_state where
  "yaml_start = \<lparr>ym_open = [], ym_scalarAt = None, ym_mayOpen = True, ym_flow = 0, ym_quote = None\<rparr>"

definition blank_lead :: "jchar \<Rightarrow> bool" where
  "blank_lead c \<longleftrightarrow> c = space \<or> c = 9"

definition strip_cr :: "jstring \<Rightarrow> jstring" where
  "strip_cr raw = (if ends_with raw [13] then butlast raw else raw)"

text \<open>The length of \<open>-\<close> and the white space behind it, where the body starts a sequence entry.\<close>

definition dash_length :: "jstring \<Rightarrow> nat option" where
  "dash_length body =
     (case body of
        c # s \<Rightarrow> if c = 45 \<and> (s = [] \<or> js_space (hd s)) then Some (1 + length (takeWhile js_space s)) else None
      | [] \<Rightarrow> None)"

definition add_key :: "jstring \<Rightarrow> level list \<Rightarrow> level list" where
  "add_key key ls = (case ls of [] \<Rightarrow> [] | (i, keys) # rest \<Rightarrow> (i, key # keys) # rest)"

text \<open>A sequence entry, after its dash.\<close>

definition yaml_entry :: "nat \<Rightarrow> nat \<Rightarrow> jstring \<Rightarrow> yaml_state \<Rightarrow> yaml_state option" where
  "yaml_entry indent n rest st =
     (case settle_level (ym_open st) indent (ym_mayOpen st) of
        (Nowhere, _) \<Rightarrow> None
      | (_, ls) \<Rightarrow>
          if rest = [] \<or> starts_with rest [hash_mark] then Some (st\<lparr>ym_open := ls, ym_mayOpen := True\<rparr>)
          else
            (let (flow, quote) = carryOver rest 0 None; inner = indent + n; key = keyOf rest
             in Some (st\<lparr>ym_open := (inner, case key of Some k \<Rightarrow> [k] | None \<Rightarrow> []) # ls,
                  ym_flow := flow, ym_quote := quote,
                  ym_scalarAt := (if opensBlockScalar rest then Some inner else ym_scalarAt st),
                  ym_mayOpen := (key \<noteq> None \<and> valueOf rest = [])\<rparr>)))"

text \<open>A line that is neither a comment, a marker nor a sequence entry.\<close>

definition yaml_member :: "nat \<Rightarrow> jstring \<Rightarrow> yaml_state \<Rightarrow> yaml_state option" where
  "yaml_member indent body st =
     (case settle_level (ym_open st) indent (ym_mayOpen st) of
        (Nowhere, _) \<Rightarrow> None
      | (Continued, ls) \<Rightarrow>
          if keyOf body \<noteq> None then None
          else (let (flow, quote) = carryOver body 0 None
                in Some (st\<lparr>ym_open := ls, ym_flow := flow, ym_quote := quote\<rparr>))
      | (Here, ls) \<Rightarrow>
          (let (flow, quote) = carryOver body 0 None;
               st' = st\<lparr>ym_open := ls, ym_flow := flow, ym_quote := quote\<rparr>
           in case keyOf body of
             None \<Rightarrow> Some (st'\<lparr>ym_mayOpen := False\<rparr>)
           | Some key \<Rightarrow>
               if key \<in> set (snd (hd ls)) then None
               else Some (st'\<lparr>ym_open := add_key key ls,
                    ym_scalarAt := (if opensBlockScalar body then Some indent else ym_scalarAt st),
                    ym_mayOpen := (valueOf body = [])\<rparr>)))"

text \<open>One line: None where the document is refused.\<close>

definition yaml_line :: "jstring \<Rightarrow> yaml_state \<Rightarrow> yaml_state option" where
  "yaml_line raw st0 =
     (let line = strip_cr raw in
      if js_trim line = [] then Some st0
      else
        (let lead = takeWhile blank_lead line; indent = length lead; body = drop indent line;
             inside = (case ym_scalarAt st0 of Some n \<Rightarrow> indent > n | None \<Rightarrow> False);
             st = (if inside then st0 else st0\<lparr>ym_scalarAt := None\<rparr>)
         in if inside then Some st0
            else if ym_flow st > 0 \<or> ym_quote st \<noteq> None then
              (let (flow, quote) = carryOver line (ym_flow st) (ym_quote st)
               in Some (st\<lparr>ym_flow := flow, ym_quote := quote\<rparr>))
            else if 9 \<in> set lead then None
            else if starts_with body [hash_mark] then Some st
            else if body = lit ''---'' \<or> body = lit ''...'' \<or> starts_with body (lit ''--- '') then
              Some (st\<lparr>ym_open := [], ym_mayOpen := True\<rparr>)
            else (case dash_length body of
                Some n \<Rightarrow> yaml_entry indent n (drop n body) st
              | None \<Rightarrow> yaml_member indent body st)))"

fun yaml_lines :: "jstring list \<Rightarrow> yaml_state \<Rightarrow> yaml_state option" where
  "yaml_lines [] st = Some st"
| "yaml_lines (l # ls) st = (case yaml_line l st of None \<Rightarrow> None | Some st' \<Rightarrow> yaml_lines ls st')"

definition parsesAsYaml :: "jstring \<Rightarrow> bool" where
  "parsesAsYaml t = (yaml_lines (split_on newline t) yaml_start \<noteq> None)"

section \<open>The open levels\<close>

text \<open>Indentations grow inwards and no level has seen a key twice.\<close>

definition levels_ok :: "level list \<Rightarrow> bool" where
  "levels_ok ls \<longleftrightarrow> sorted_wrt (>) (map fst ls) \<and> list_all (\<lambda>l. distinct (snd l)) ls"

lemma levels_Cons: "levels_ok (l # ls) \<longleftrightarrow> (\<forall>m \<in> set ls. fst m < fst l) \<and> distinct (snd l) \<and> levels_ok ls"
  by (auto simp: levels_ok_def)

lemma levels_Nil [simp]: "levels_ok []"
  by (simp add: levels_ok_def)

lemma pop_deeper_ok: "levels_ok ls \<Longrightarrow> levels_ok (pop_deeper indent ls)"
  by (induction indent ls rule: pop_deeper.induct) (auto simp: levels_Cons)

lemma pop_deeper_Nil: "pop_deeper indent ls = [] \<longleftrightarrow> ls = []"
  by (induction indent ls rule: pop_deeper.induct) auto

lemma settle_level_ok:
  assumes "levels_ok opened" and "settle_level opened indent mayOpen = (w, ls)"
  shows "levels_ok ls \<and> ls \<noteq> [] \<and> (w \<noteq> Nowhere \<longrightarrow> fst (hd ls) \<le> indent)"
proof (cases "opened = [] \<or> indent > fst (hd opened)")
  case True
  have "\<forall>m \<in> set opened. fst m < indent"
    using True assms(1) by (cases opened) (auto simp: levels_Cons)
  moreover from this have "opened \<noteq> [] \<Longrightarrow> fst (hd opened) \<le> indent" by (simp add: less_imp_le)
  ultimately show ?thesis using True assms by (auto simp: settle_level_def levels_Cons split: if_splits)
next
  case False
  then show ?thesis
    using assms pop_deeper_ok [of opened indent] pop_deeper_Nil [of indent opened]
    by (auto simp: settle_level_def Let_def split: if_splits)
qed

lemma add_key_ok: "levels_ok ls \<Longrightarrow> key \<notin> set (snd (hd ls)) \<Longrightarrow> levels_ok (add_key key ls)"
  by (cases ls) (auto simp: add_key_def levels_Cons split: prod.splits)

lemma inner_ok:
  assumes "levels_ok ls" and "ls \<noteq> []" and "fst (hd ls) \<le> indent" and "0 < n" and "distinct ks"
  shows "levels_ok ((indent + n, ks) # ls)"
  using assms by (cases ls) (auto simp: levels_Cons)

lemma dash_length_pos: "dash_length body = Some n \<Longrightarrow> 0 < n"
  by (auto simp: dash_length_def split: list.splits if_splits)

lemma yaml_entry_ok:
  assumes "levels_ok (ym_open st)" and "0 < n" and "yaml_entry indent n rest st = Some st'"
  shows "levels_ok (ym_open st')"
proof -
  obtain w ls where s: "settle_level (ym_open st) indent (ym_mayOpen st) = (w, ls)" by fastforce
  note ok = settle_level_ok [OF assms(1) s]
  have w: "w \<noteq> Nowhere" using assms(3) s by (auto simp: yaml_entry_def)
  then have inner: "levels_ok ((indent + n, ks) # ls)" if "distinct ks" for ks
    using inner_ok [of ls indent n ks] ok assms(2) that by blast
  show ?thesis
  proof (cases "rest = [] \<or> starts_with rest [hash_mark]")
    case True
    then show ?thesis using assms(3) s w ok by (cases w) (auto simp: yaml_entry_def)
  next
    case False
    then have "ym_open st' = (indent + n, case keyOf rest of Some k \<Rightarrow> [k] | None \<Rightarrow> []) # ls"
      using assms(3) s w by (cases w) (auto simp: yaml_entry_def Let_def split: prod.splits)
    then show ?thesis using inner by (simp split: option.splits)
  qed
qed

lemma yaml_member_ok:
  assumes "levels_ok (ym_open st)" and "yaml_member indent body st = Some st'"
  shows "levels_ok (ym_open st')"
proof -
  obtain w ls where s: "settle_level (ym_open st) indent (ym_mayOpen st) = (w, ls)" by fastforce
  note ok = settle_level_ok [OF assms(1) s]
  show ?thesis
    using assms(2) s ok add_key_ok
    by (cases w) (auto simp: yaml_member_def Let_def split: if_splits option.splits prod.splits)
qed

lemma yaml_line_ok:
  assumes "levels_ok (ym_open st)" and "yaml_line raw st = Some st'"
  shows "levels_ok (ym_open st')"
  using assms
  by (auto simp: yaml_line_def Let_def split: if_splits option.splits prod.splits
      dest: dash_length_pos yaml_entry_ok [rotated 2] yaml_member_ok [rotated])

lemma yaml_lines_ok: "levels_ok (ym_open st) \<Longrightarrow> yaml_lines ls st = Some st' \<Longrightarrow> levels_ok (ym_open st')"
  by (induction ls arbitrary: st) (auto split: option.splits intro: yaml_line_ok)

section \<open>Flat mappings\<close>

definition plain :: "jchar \<Rightarrow> bool" where
  "plain c \<longleftrightarrow> 48 \<le> c \<and> c \<le> 57 \<or> 65 \<le> c \<and> c \<le> 90 \<or> 97 \<le> c \<and> c \<le> 122"

definition plain_word :: "jstring \<Rightarrow> bool" where
  "plain_word w \<longleftrightarrow> w \<noteq> [] \<and> list_all plain w"

lemma plain_not:
  assumes "plain c"
  shows "\<not> js_space c" "\<not> is_quote c" "c \<noteq> colon" "c \<noteq> 91" "c \<noteq> 123" "c \<noteq> 93" "c \<noteq> 125" "c \<noteq> hash_mark" "c \<noteq> 45"
    "c \<noteq> 46" "c \<noteq> 38" "c \<noteq> 33" "c \<noteq> 124" "c \<noteq> 62" "c \<noteq> 13" "\<not> blank_lead c" "c \<noteq> space" "c \<noteq> newline" "c \<noteq> 9"
proof -
  have le: "c \<le> 122"
    using assms by (auto simp: plain_def intro: order_trans)
  have "\<not> 0x2000 \<le> c" by (auto dest: order_trans [OF _ le])
  then show "\<not> js_space c" using assms by (auto simp: js_space_def plain_def)
qed (use assms in \<open>auto simp: plain_def is_quote_def blank_lead_def\<close>)

lemma colon_not_quote [simp]: "\<not> is_quote colon"
  by (simp add: is_quote_def)

lemma plain_scan: "list_all plain w \<Longrightarrow> key_scan pos None (w @ colon # space # v) = Some (pos + length w, None)"
  by (induction w arbitrary: pos) (auto simp: plain_not)

lemma plain_trim: "list_all plain w \<Longrightarrow> js_trim w = w"
proof -
  assume p: "list_all plain w"
  have id: "dropWhile js_space xs = xs" if "list_all plain xs" for xs
    using that by (cases xs) (auto simp: plain_not)
  have "list_all plain (rev w)" using p by simp
  then show ?thesis using p id by (simp add: js_trim_def)
qed

lemma plain_key: "plain_word w \<Longrightarrow> keyOf (w @ colon # space # v) = Some w"
proof -
  assume w: "plain_word w"
  then obtain c s where cs: "w = c # s" "plain c" by (cases w) (auto simp: plain_word_def)
  then have "\<not> starts_with w [double_quote]" "\<not> starts_with w [single_quote]"
    using plain_not(2) [OF cs(2)] by (auto simp: starts_with_def is_quote_def)
  then show ?thesis
    using w plain_trim [of w] plain_scan [of w 0 v] by (simp add: keyOf_def plain_word_def Let_def)
qed

lemma plain_after: "list_all plain w \<Longrightarrow> after_colon (w @ colon # space # v) = Some v"
proof (induction w)
  case (Cons c w)
  then show ?case using plain_not(3) [of c] by (cases w) auto
qed simp

lemma plain_strip: "list_all plain v \<Longrightarrow> strip_from prev None v = v"
  by (induction v arbitrary: prev) (auto simp: plain_not)

lemma plain_carry: "list_all plain v \<Longrightarrow> carry prev (v @ t) 0 None = carry (if v = [] then prev else Some (last v)) t 0 None"
  by (induction v arbitrary: prev) (auto simp: plain_not)

lemma plain_value: "plain_word w \<Longrightarrow> plain_word v \<Longrightarrow> valueOf (w @ colon # space # v) = v"
proof -
  assume w: "plain_word w" "plain_word v"
  then obtain c s where v: "v = c # s" "plain c" by (cases v) (auto simp: plain_word_def)
  have "undecorate v = v" using v plain_not(11,12) [OF v(2)] by (simp add: undecorate_def undecorated_def)
  then show ?thesis
    using w plain_after [of w v] plain_strip [of v None] plain_trim [of v]
    by (simp add: valueOf_def stripComment_def plain_word_def Let_def)
qed

lemma plain_carryOver:
  assumes "plain_word w" and "plain_word v"
  shows "carryOver (w @ colon # space # v) 0 None = (0, None)"
proof -
  have "carry p (colon # space # v) 0 None = (0, None)" for p
    using plain_carry [of v "Some space" "[]"] assms(2) by (simp add: is_quote_def plain_word_def)
  then show ?thesis using plain_carry [of w None "colon # space # v"] assms(1) by (simp add: carryOver_def plain_word_def)
qed

definition flat_line :: "jstring \<times> jstring \<Rightarrow> jstring" where
  "flat_line kv = fst kv @ colon # space # snd kv"

definition after_keys :: "jstring list \<Rightarrow> yaml_state" where
  "after_keys ks = yaml_start\<lparr>ym_open := (if ks = [] then [] else [(0, ks)]), ym_mayOpen := (ks = [])\<rparr>"

lemma plain_line:
  assumes k: "plain_word k" and v: "plain_word v"
  shows "yaml_line (flat_line (k, v)) (after_keys ks) = (if k \<in> set ks then None else Some (after_keys (k # ks)))"
proof -
  let ?l = "k @ colon # space # v"
  obtain c s where ks: "k = c # s" "plain c" using k by (cases k) (auto simp: plain_word_def)
  note c = plain_not [OF ks(2)]
  have "last ?l \<noteq> 13"
    using v plain_not(15) [of "last v"] by (simp add: plain_word_def list_all_iff)
  then have cr: "strip_cr ?l = ?l" unfolding strip_cr_def ends_with_iff by (metis last_snoc)
  have lead: "takeWhile blank_lead ?l = []" using ks c by simp
  have trim: "js_trim ?l \<noteq> []" using ks c by (simp add: js_trim_def dropWhile_append)
  have marks: "\<not> starts_with ?l [hash_mark]" "?l \<noteq> lit ''---''" "?l \<noteq> lit ''...''" "\<not> starts_with ?l (lit ''--- '')"
    "dash_length ?l = None"
    using ks c by (auto simp: starts_with_def dash_length_def)
  have not_scalar: "\<not> opensBlockScalar ?l"
    using plain_value [OF k v] v plain_not(13,14) [of "hd v"]
    by (cases v) (auto simp: opensBlockScalar_def plain_word_def)
  have set: "settle_level (ym_open (after_keys ks)) 0 (ym_mayOpen (after_keys ks)) = (Here, [(0, ks)])"
    by (auto simp: settle_level_def after_keys_def yaml_start_def)
  have "yaml_line ?l (after_keys ks) = yaml_member 0 ?l (after_keys ks)"
    using cr lead trim marks by (simp add: yaml_line_def after_keys_def yaml_start_def Let_def del: lit_Cons)
  also have "\<dots> = (if k \<in> set ks then None else Some (after_keys (k # ks)))"
    using set plain_key [OF k, of v] plain_value [OF k v] plain_carryOver [OF k v] not_scalar v
    by (auto simp: yaml_member_def add_key_def after_keys_def yaml_start_def plain_word_def Let_def)
  finally show ?thesis by (simp add: flat_line_def)
qed

lemma plain_lines:
  "list_all (\<lambda>(k, v). plain_word k \<and> plain_word v) kvs \<Longrightarrow> distinct ks \<Longrightarrow>
     yaml_lines (map flat_line kvs) (after_keys ks) \<noteq> None \<longleftrightarrow> distinct (rev ks @ map fst kvs)"
proof (induction kvs arbitrary: ks)
  case (Cons kv kvs)
  obtain k v where kv: "kv = (k, v)" by (cases kv)
  then have "yaml_line (flat_line kv) (after_keys ks) = (if k \<in> set ks then None else Some (after_keys (k # ks)))"
    using Cons.prems plain_line by simp
  then show ?case using Cons.IH [of "k # ks"] Cons.prems kv by auto
qed simp

section \<open>Properties\<close>

text \<open>In a document that passes, no block has a key twice and the blocks that are open lie inside each
  other: at every line the check keeps indentations that grow strictly inwards, and in each of them
  distinct keys.\<close>

theorem yaml_levels:
  assumes "yaml_lines ls yaml_start = Some st"
  shows "sorted_wrt (>) (map fst (ym_open st)) \<and> list_all (\<lambda>l. distinct (snd l)) (ym_open st)"
  using yaml_lines_ok [OF _ assms] by (simp add: levels_ok_def yaml_start_def)

lemma yaml_levels_witness:
  "\<exists>st. yaml_lines [flat_line ([97], [98])] yaml_start = Some st \<and> list_all (\<lambda>l. distinct (snd l)) (ym_open st)"
proof -
  have "yaml_lines [flat_line ([97], [98])] (after_keys []) = Some (after_keys [[97]])"
    using plain_line [of "[97]" "[98]" "[]"] by (simp add: plain_word_def plain_def)
  moreover have "after_keys [] = yaml_start" by (simp add: after_keys_def yaml_start_def)
  ultimately have "yaml_lines [flat_line ([97], [98])] yaml_start = Some (after_keys [[97]])" by metis
  from this yaml_levels [OF this] show ?thesis by blast
qed

text \<open>C26. A flat mapping of plain words passes the check exactly when it names no key twice, which is what a
  merge that kept both devices' additions does to it.\<close>

theorem flat_yaml_exact:
  assumes "list_all (\<lambda>(k, v). plain_word k \<and> plain_word v) kvs" and "kvs \<noteq> []"
  shows "parsesAsYaml (join_with [newline] (map flat_line kvs)) \<longleftrightarrow> distinct (map fst kvs)"
proof -
  have word: "newline \<notin> set w" if "plain_word w" for w
    using that plain_not(18) by (auto simp: plain_word_def list_all_iff)
  have "newline \<notin> set l" if "l \<in> set (map flat_line kvs)" for l
    using that assms(1) word by (auto simp: flat_line_def list_all_iff)
  then have "split_on newline (join_with [newline] (map flat_line kvs)) = map flat_line kvs"
    using assms(2) by (intro split_on_join) auto
  moreover have "yaml_start = after_keys []" by (simp add: after_keys_def yaml_start_def)
  ultimately show ?thesis using plain_lines [OF assms(1), of "[]"] by (simp add: parsesAsYaml_def)
qed

lemma flat_yaml_exact_witness:
  "\<not> parsesAsYaml (join_with [newline] (map flat_line [([97], [98]), ([97], [99])]))"
  by (subst flat_yaml_exact) (simp_all add: plain_word_def plain_def)

end
