(* ===== verification/Displaced.thy ===== *)
theory Displaced
  imports Wire
begin

text \<open>
  \<open>client/src/core/displaced.ts\<close>: the record of the versions a device took off a name and could not put
  back. The log is an append-only text both shells write and read. What the shell's file operations do
  is the environment's: an append may land in part and may throw or return all the same, a read may
  throw, and \<open>stillThere\<close> may not be able to say. \<open>rewrite\<close> is only there where it replaces the whole
  log or nothing.
\<close>

section \<open>Records\<close>

text \<open>A time is a number as JSON holds it.\<close>

record displaced =
  di_at :: jstring
  di_from :: jstring
  di_why :: jstring
  di_when :: json

fun is_number :: "json \<Rightarrow> bool" where
  "is_number (JNum n) = True"
| "is_number (JReal t) = True"
| "is_number _ = False"

definition displaced_json :: "displaced \<Rightarrow> json" where
  "displaced_json d = JObj [(lit ''at'', JStr (di_at d)), (lit ''from'', JStr (di_from d)),
     (lit ''why'', JStr (di_why d)), (lit ''when'', di_when d)]"

definition displaced_line :: "displaced \<Rightarrow> jstring" where
  "displaced_line d = stringify (displaced_json d)"

definition string_field :: "json \<Rightarrow> string \<Rightarrow> string \<Rightarrow> jstring" where
  "string_field raw key dflt = (case field raw (lit key) of Some (JStr s) \<Rightarrow> s | _ \<Rightarrow> lit dflt)"

definition parseLine :: "jstring \<Rightarrow> displaced option" where
  "parseLine line =
     (case parse_json line of None \<Rightarrow> None
      | Some raw \<Rightarrow>
          (case field raw (lit ''at'') of
             Some (JStr a) \<Rightarrow>
               if a = [] then None
               else Some \<lparr>di_at = a, di_from = string_field raw ''from'' ''an unknown note'',
                      di_why = string_field raw ''why'' ''it could not be placed'',
                      di_when = (case field raw (lit ''when'') of
                          Some w \<Rightarrow> if is_number w then w else JNum 0 | None \<Rightarrow> JNum 0)\<rparr>
           | _ \<Rightarrow> None))"

section \<open>The log and what reading it gives\<close>

datatype incomplete = Unreadable_log | Unreadable_line | Not_written displaced | Not_read_back displaced

text \<open>The records of a log, and whether a line of it could not be read.\<close>

fun parse_lines :: "jstring list \<Rightarrow> displaced list \<times> bool" where
  "parse_lines [] = ([], False)"
| "parse_lines (line # lines) =
     (let (out, torn) = parse_lines lines
      in if js_trim line = [] then (out, torn)
         else (case parseLine line of Some d \<Rightarrow> (d # out, torn) | None \<Rightarrow> (out, True)))"

definition parse_log :: "bool \<Rightarrow> jstring option \<Rightarrow> displaced list \<times> incomplete option" where
  "parse_log readable text =
     (if \<not> readable then ([], Some Unreadable_log)
      else (case text of None \<Rightarrow> ([], None)
        | Some t \<Rightarrow>
            if t = [] then ([], None)
            else (let (out, torn) = parse_lines (split_on newline t)
                  in (out, if torn then Some Unreadable_line else None))))"

record ledger =
  dl_log :: "jstring option"
  dl_missing :: "incomplete option"

section \<open>Recording\<close>

text \<open>What an append did: how many characters landed, and whether it threw.\<close>

definition append_log :: "nat \<Rightarrow> jstring \<Rightarrow> jstring option \<Rightarrow> jstring option" where
  "append_log landed line text =
     (if landed = 0 \<and> text = None then None
      else Some ((case text of Some t \<Rightarrow> t | None \<Rightarrow> []) @ take landed line))"

definition readableNow :: "bool \<Rightarrow> jstring option \<Rightarrow> jstring \<Rightarrow> bool" where
  "readableNow readable text line =
     (if \<not> readable then False
      else (case text of None \<Rightarrow> False
        | Some t \<Rightarrow> list_ex (\<lambda>l. js_trim l = line) (split_on newline t)))"

definition record_displaced :: "nat \<Rightarrow> bool \<Rightarrow> bool \<Rightarrow> displaced \<Rightarrow> ledger \<Rightarrow> bool \<times> ledger" where
  "record_displaced landed threw readable d lg =
     (let line = displaced_line d;
          lg' = lg\<lparr>dl_log := append_log landed (newline # line @ [newline]) (dl_log lg)\<rparr>
      in if threw then (False, lg'\<lparr>dl_missing := Some (Not_written d)\<rparr>)
         else if \<not> readableNow readable (dl_log lg') line then
           (False, lg'\<lparr>dl_missing := Some (Not_read_back d)\<rparr>)
         else (True, lg'))"

section \<open>What is waiting\<close>

definition COMPACT_AT :: nat where
  "COMPACT_AT = 32"

text \<open>\<open>newest\<close>: the last record of each path, where its first one stood.\<close>

definition newest_of :: "displaced list \<Rightarrow> displaced list" where
  "newest_of records = map snd (foldl (\<lambda>m d. AList.update (di_at d) d m) [] records)"

text \<open>\<open>stillThere\<close>, an answer that fails counting as there.\<close>

definition still_waiting :: "(jstring \<Rightarrow> bool option) \<Rightarrow> displaced \<Rightarrow> bool" where
  "still_waiting there d = (case there (di_at d) of Some b \<Rightarrow> b | None \<Rightarrow> True)"

definition when_value :: "displaced \<Rightarrow> rat" where
  "when_value d = (case number_in (Some (di_when d)) of Some q \<Rightarrow> q | None \<Rightarrow> 0)"

text \<open>\<open>compact\<close>, where the shell can (\<open>Some\<close>), and whether the rewrite went through.\<close>

definition compact :: "bool option \<Rightarrow> displaced list \<Rightarrow> ledger \<Rightarrow> ledger" where
  "compact rewrites live lg =
     (case rewrites of
        Some True \<Rightarrow> lg\<lparr>dl_log := Some (concat (map (\<lambda>d. displaced_line d @ [newline]) live))\<rparr>
      | _ \<Rightarrow> lg)"

record inventory =
  iv_waiting :: "displaced list"
  iv_complete :: bool
  iv_why :: "incomplete option"

definition inventory_of ::
  "bool \<Rightarrow> bool \<Rightarrow> bool option \<Rightarrow> (jstring \<Rightarrow> bool option) \<Rightarrow> ledger \<Rightarrow> inventory \<times> ledger" where
  "inventory_of tidy readable rewrites there lg =
     (let (records, unread) = parse_log readable (dl_log lg);
          newest = newest_of records;
          live = filter (still_waiting there) newest;
          dead = length newest - length live;
          lg' = (if tidy \<and> (length records - length live \<ge> COMPACT_AT \<or> dead > 0 \<and> live = [])
                 then compact rewrites live lg else lg);
          why = (case unread of Some w \<Rightarrow> Some w | None \<Rightarrow> dl_missing lg)
      in (\<lparr>iv_waiting = sort_key when_value live, iv_complete = (why = None), iv_why = why\<rparr>, lg'))"

text \<open>\<open>waiting\<close>: the list alone.\<close>

definition waiting_of ::
  "bool \<Rightarrow> bool \<Rightarrow> bool option \<Rightarrow> (jstring \<Rightarrow> bool option) \<Rightarrow> ledger \<Rightarrow> displaced list \<times> ledger" where
  "waiting_of tidy readable rewrites there lg =
     (let (iv, lg') = inventory_of tidy readable rewrites there lg in (iv_waiting iv, lg'))"

section \<open>A vault's life\<close>

text \<open>
  What can happen to a log between two moments: versions recorded, with whatever the disk made of it; the
  list asked for; the process starting over, which forgets what it knew to be missing. Whenever the
  list is asked for, nothing says that a version at a path in \<open>kept\<close> is gone.
\<close>

definition displaced_ok :: "displaced \<Rightarrow> bool" where
  "displaced_ok d \<longleftrightarrow> di_at d \<noteq> [] \<and> is_number (di_when d) \<and> json_ok (di_when d)"

inductive ledger_step :: "jstring set \<Rightarrow> ledger \<Rightarrow> ledger \<Rightarrow> bool" for kept where
  recorded: "displaced_ok d \<Longrightarrow> record_displaced landed threw readable d lg = (ok, lg') \<Longrightarrow> ledger_step kept lg lg'"
| asked: "\<forall>a \<in> kept. there a \<noteq> Some False \<Longrightarrow>
     inventory_of tidy readable rewrites there lg = (iv, lg') \<Longrightarrow> ledger_step kept lg lg'"
| restarted: "ledger_step kept lg (lg\<lparr>dl_missing := None\<rparr>)"

inductive_cases ledger_stepE: "ledger_step kept lg lg'"

definition empty_ledger :: ledger where
  "empty_ledger = \<lparr>dl_log = None, dl_missing = None\<rparr>"

section \<open>Lines and records\<close>

lemma json_ok_displaced: "displaced_ok d \<Longrightarrow> json_ok (displaced_json d)"
  by (auto simp: displaced_ok_def displaced_json_def)

lemma parseLine_record: "displaced_ok d \<Longrightarrow> parseLine (displaced_line d) = Some d"
  using parse_stringify [OF json_ok_displaced, of d]
  by (simp add: parseLine_def displaced_line_def displaced_json_def displaced_ok_def field_def string_field_def)

lemma displaced_line_clean: "displaced_ok d \<Longrightarrow> newline \<notin> set (displaced_line d)"
  unfolding displaced_line_def by (rule printable_no [OF printable_stringify [OF json_ok_displaced]]) simp_all

lemma displaced_line_ends: "\<exists>s. displaced_line d = 123 # s @ [125]"
  unfolding displaced_line_def displaced_json_def stringify_obj by blast

lemma js_space_not [simp]: "\<not> js_space 123" "\<not> js_space 125"
  by (simp_all add: js_space_def)

lemma trim_record: "js_trim (displaced_line d) = displaced_line d"
  using displaced_line_ends [of d] by (auto simp: js_trim_def)

lemma js_space_numeral: "js_space c \<Longrightarrow> \<not> numeral_char c"
proof -
  have "c \<le> 57 \<or> c = 101 \<or> c = 69" if "numeral_char c"
    using that by (auto simp: numeral_char_def is_digit_def)
  moreover have "\<not> (0x2000 \<le> c)" if "c \<le> 57" using that by (auto dest: order_trans)
  ultimately show "js_space c \<Longrightarrow> \<not> numeral_char c"
    by (auto simp: js_space_def numeral_char_def is_digit_def)
qed

text \<open>What is trimmed off the end of a line.\<close>

lemma trim_split:
  assumes "l \<noteq> []" and "\<not> js_space (hd l)"
  obtains w where "l = js_trim l @ w" and "list_all js_space w"
proof
  have d: "dropWhile js_space l = l" using assms by (cases l) auto
  show "l = js_trim l @ rev (takeWhile js_space (rev l))"
    using rev_append [of "takeWhile js_space (rev l)" "dropWhile js_space (rev l)"]
    by (simp add: js_trim_def d)
  show "list_all js_space (rev (takeWhile js_space (rev l)))"
    by (auto simp: list_all_iff dest: set_takeWhileD)
qed

text \<open>A line is a printed record or, after a torn append, the beginning of one.\<close>

definition good_line :: "jstring \<Rightarrow> bool" where
  "good_line l \<longleftrightarrow> (\<exists>e. displaced_ok e \<and> prefix l (displaced_line e))"

definition good_log :: "jstring option \<Rightarrow> bool" where
  "good_log text \<longleftrightarrow> (\<forall>t. text = Some t \<longrightarrow> (\<forall>l \<in> set (split_on newline t). good_line l))"

lemma printed_unique:
  assumes "displaced_ok d" "displaced_ok e" "displaced_line e = displaced_line d @ c # s" "js_space c"
  shows False
proof -
  let ?n = "json_cost (displaced_json d) + json_cost (displaced_json e)"
  have "parse_value ?n (displaced_line d @ c # s) = Some (displaced_json d, c # s)"
    using reads_back_all [OF json_ok_displaced [OF assms(1)]] js_space_numeral [OF assms(4)]
    by (simp add: reads_back_def displaced_line_def ends_numeral_def)
  moreover have "parse_value ?n (displaced_line e @ []) = Some (displaced_json e, [])"
    using reads_back_all [OF json_ok_displaced [OF assms(2)]]
    unfolding reads_back_def displaced_line_def by (metis ends_numeral_simps(1) le_add2)
  ultimately show False using assms(3) by simp
qed

lemma good_line_trim:
  assumes "good_line l" and "displaced_ok d" and "js_trim l = displaced_line d"
  shows "l = displaced_line d"
proof -
  obtain e q where e: "displaced_ok e" "displaced_line e = l @ q"
    using assms(1) by (auto simp: good_line_def prefix_def)
  have "l \<noteq> []" using assms(3) displaced_line_ends [of d] by (auto simp: js_trim_def)
  moreover from this have "hd l = 123" using e(2) displaced_line_ends [of e] by (cases l) auto
  ultimately obtain w where w: "l = displaced_line d @ w" "list_all js_space w"
    using trim_split [of l] assms(3) by auto
  show ?thesis
  proof (cases w)
    case (Cons c s)
    then show ?thesis using printed_unique [OF assms(2) e(1), of c "s @ q"] w e(2) by simp
  qed (use w in simp)
qed

section \<open>Logs\<close>

lemma split_on_snoc:
  "split_on c (xs @ c # ys) = split_on c xs @ split_on c ys"
  by (rule split_on_append)

lemma append_lines:
  assumes "newline \<notin> set line"
  shows "\<exists>more. set (split_on newline (t @ take n (newline # line @ [newline]))) = set (split_on newline t) \<union> more \<and>
     (\<forall>l \<in> more. prefix l line)"
proof (cases n)
  case 0
  then show ?thesis by (intro exI [of _ "{}"]) simp
next
  case (Suc m)
  have "t @ take n (newline # line @ [newline]) = t @ newline # take m (line @ [newline])" by (simp add: Suc)
  moreover have "split_on newline (take m (line @ [newline])) =
      (if m \<le> length line then [take m line] else [line, []])"
  proof (cases "m \<le> length line")
    case True
    have "newline \<notin> set (take m line)" using assms in_set_takeD by fast
    then show ?thesis using True by (simp add: split_on_clean)
  next
    case False
    then show ?thesis using split_on_line [OF assms, of "[]"] by simp
  qed
  ultimately have "set (split_on newline (t @ take n (newline # line @ [newline]))) =
      set (split_on newline t) \<union> set (if m \<le> length line then [take m line] else [line, []])"
    by (simp only: split_on_append set_append)
  moreover have "\<forall>l \<in> set (if m \<le> length line then [take m line] else [line, []]). prefix l line"
    by (auto simp: take_is_prefix)
  ultimately show ?thesis by blast
qed

lemma good_line_Nil: "good_line []"
  unfolding good_line_def displaced_ok_def
  by (intro exI [of _ "\<lparr>di_at = [0], di_from = [], di_why = [], di_when = JNum 0\<rparr>"]) simp

text \<open>The lines a log has, and that an append only adds to them.\<close>

definition lines_of :: "jstring option \<Rightarrow> jstring set" where
  "lines_of src = (case src of None \<Rightarrow> {} | Some t \<Rightarrow> set (split_on newline t))"

lemma good_log_lines: "good_log src \<longleftrightarrow> (\<forall>l \<in> lines_of src. good_line l)"
  by (cases src) (auto simp: good_log_def lines_of_def)

lemma append_log_lines:
  assumes "newline \<notin> set line"
  obtains more where "lines_of (append_log n (newline # line @ [newline]) src) = lines_of src \<union> more"
    and "\<forall>l \<in> more. prefix l line"
proof (cases src)
  case None
  from append_lines [OF assms, of "[]" n] obtain more where
    "set (split_on newline (take n (newline # line @ [newline]))) = {[]} \<union> more" "\<forall>l \<in> more. prefix l line"
    by auto
  then show ?thesis
    using that [of "{}"] that [of "insert [] more"] None
    by (cases "n = 0") (auto simp: append_log_def lines_of_def)
next
  case (Some t)
  from append_lines [OF assms, of t n] obtain more where
    "set (split_on newline (t @ take n (newline # line @ [newline]))) = set (split_on newline t) \<union> more"
    "\<forall>l \<in> more. prefix l line" by auto
  then show ?thesis using that Some by (auto simp: append_log_def lines_of_def)
qed

lemma compact_lines:
  assumes "\<forall>d \<in> set live. displaced_ok d"
  shows "set (split_on newline (concat (map (\<lambda>d. displaced_line d @ [newline]) live))) = insert [] (displaced_line ` set live)"
  using assms
  by (induction live) (auto simp: split_on_line displaced_line_clean)

text \<open>The records of a log are what its lines say.\<close>

definition records_of :: "jstring option \<Rightarrow> displaced set" where
  "records_of src = {d. \<exists>l \<in> lines_of src. js_trim l \<noteq> [] \<and> parseLine l = Some d}"

lemma parse_lines_set: "set (fst (parse_lines ls)) = {d. \<exists>l \<in> set ls. js_trim l \<noteq> [] \<and> parseLine l = Some d}"
  by (induction ls) (auto split: prod.splits option.splits)

lemma parse_log_set: "set (fst (parse_log True src)) = records_of src"
proof (cases src)
  case (Some t)
  have "js_trim [] = []" by (simp add: js_trim_def)
  then show ?thesis
    by (simp add: Some parse_log_def records_of_def lines_of_def parse_lines_set Let_def case_prod_beta)
qed (simp add: parse_log_def records_of_def lines_of_def)

lemma field_ok: "json_ok v \<Longrightarrow> field v k = Some w \<Longrightarrow> json_ok w"
  by (cases v) (auto simp: field_def list_all_iff dest: map_of_SomeD)

lemma parseLine_ok: "parseLine l = Some d \<Longrightarrow> displaced_ok d"
  by (auto simp: parseLine_def displaced_ok_def intro: field_ok [OF parse_json_ok]
      split: option.splits json.splits if_splits)

lemma records_ok: "d \<in> records_of src \<Longrightarrow> displaced_ok d"
  by (auto simp: records_of_def parseLine_ok)

lemma update_newest: "set (AList.update k d m) \<subseteq> insert (k, d) (set m)"
  by (induction m) auto

lemma newest_fold:
  fixes m :: "(jstring \<times> displaced) list"
  assumes "\<forall>(k, v) \<in> set m. k = di_at v"
  shows "snd ` set (foldl (\<lambda>m d. AList.update (di_at d) d m) m ds) \<subseteq> set ds \<union> snd ` set m \<and>
   di_at ` snd ` set (foldl (\<lambda>m d. AList.update (di_at d) d m) m ds) = di_at ` set ds \<union> di_at ` snd ` set m"
  using assms
proof (induction ds arbitrary: m)
  case (Cons d ds)
  let ?m = "AList.update (di_at d) d m"
  have keyed: "di_at ` snd ` set m' = fst ` set m'" if "\<forall>(k, v) \<in> set m'. k = di_at v" for m' :: "(jstring \<times> displaced) list"
    using that by (force simp: image_iff)
  have inv: "\<forall>(k, v) \<in> set ?m. k = di_at v"
    using Cons.prems update_newest [of "di_at d" d m] by blast
  have "di_at ` snd ` set ?m = insert (di_at d) (di_at ` snd ` set m)"
    by (simp only: keyed [OF inv] keyed [OF Cons.prems] AList.dom_update) simp
  moreover have "snd ` set ?m \<subseteq> insert d (snd ` set m)"
    using image_mono [OF update_newest, of snd "di_at d" d m] by simp
  ultimately show ?case
    using Cons.IH [OF inv] unfolding foldl_Cons list.set(2) by (intro conjI) (blast, simp)
qed simp

lemma newest_of_set:
  "set (newest_of ds) \<subseteq> set ds" "di_at ` set (newest_of ds) = di_at ` set ds"
  using newest_fold [of "[]" ds] by (simp_all add: newest_of_def)


section \<open>What a step keeps\<close>

lemma record_log:
  "record_displaced landed threw readable d lg = (ok, lg') \<Longrightarrow>
     dl_log lg' = append_log landed (newline # displaced_line d @ [newline]) (dl_log lg)"
  by (auto simp: record_displaced_def Let_def split: if_splits)

lemma inventory_log:
  assumes "inventory_of tidy readable rewrites there lg = (iv, lg')"
  shows "dl_log lg' = dl_log lg \<or>
    (\<exists>live. live = filter (still_waiting there) (newest_of (fst (parse_log readable (dl_log lg)))) \<and>
       dl_log lg' = Some (concat (map (\<lambda>d. displaced_line d @ [newline]) live)) \<and>
       (readable \<or> live = [] \<and> newest_of (fst (parse_log readable (dl_log lg))) = []))"
proof (cases readable)
  case True
  with assms show ?thesis
    by (auto simp: inventory_of_def compact_def Let_def case_prod_beta split: if_splits option.splits bool.splits)
next
  case False
  have "newest_of [] = []" by (simp add: newest_of_def)
  with False assms show ?thesis
    by (auto simp: inventory_of_def compact_def Let_def parse_log_def COMPACT_AT_def split: if_splits)
qed

definition listed :: "jstring \<Rightarrow> jstring option \<Rightarrow> bool" where
  "listed a src \<longleftrightarrow> a \<in> di_at ` records_of src"

lemma live_records:
  "set (filter (still_waiting there) (newest_of (fst (parse_log True src)))) \<subseteq> records_of src"
  using newest_of_set(1) [of "fst (parse_log True src)"] parse_log_set [of src] by auto

lemma live_listed:
  assumes "listed a src" and "there a \<noteq> Some False"
  shows "a \<in> di_at ` set (filter (still_waiting there) (newest_of (fst (parse_log True src))))"
proof -
  have "a \<in> di_at ` set (newest_of (fst (parse_log True src)))"
    using assms(1) newest_of_set(2) [of "fst (parse_log True src)"] parse_log_set [of src] by (simp add: listed_def)
  then show ?thesis using assms(2) by (auto simp: still_waiting_def split: option.splits)
qed

lemma compacted_records:
  assumes "\<forall>d \<in> set live. displaced_ok d"
  shows "records_of (Some (concat (map (\<lambda>d. displaced_line d @ [newline]) live))) = set live"
proof -
  have "js_trim (displaced_line d) \<noteq> []" for d using trim_record [of d] displaced_line_ends [of d] by auto
  then show ?thesis
    using assms parseLine_record compact_lines [OF assms]
    by (auto simp: records_of_def lines_of_def js_trim_def)
qed

lemma step_keeps_lines:
  assumes "ledger_step kept lg lg'" and "good_log (dl_log lg)"
  shows "good_log (dl_log lg')"
  using assms(1)
proof cases
  case (recorded d landed threw readable ok)
  obtain more where "lines_of (dl_log lg') = lines_of (dl_log lg) \<union> more" "\<forall>l \<in> more. prefix l (displaced_line d)"
    using append_log_lines [OF displaced_line_clean [OF recorded(1)], of landed "dl_log lg"]
    unfolding record_log [OF recorded(2), symmetric] by blast
  with assms(2) recorded(1) show ?thesis by (auto simp: good_log_lines good_line_def)
next
  case (asked there tidy readable rw iv)
  show ?thesis
  proof (cases "dl_log lg' = dl_log lg")
    case False
    then obtain live where live: "dl_log lg' = Some (concat (map (\<lambda>d. displaced_line d @ [newline]) live))"
      "\<forall>d \<in> set live. displaced_ok d"
      using inventory_log [OF asked(2)] live_records [of there "dl_log lg"] records_ok by fastforce
    then have "lines_of (dl_log lg') = insert [] (displaced_line ` set live)"
      by (simp add: lines_of_def compact_lines)
    moreover have "good_line (displaced_line d)" if "d \<in> set live" for d
      using that live(2) by (auto simp: good_line_def)
    ultimately show ?thesis using good_line_Nil by (auto simp: good_log_lines)
  qed (use assms(2) in simp)
qed (use assms(2) in simp)

lemma step_keeps_listed:
  assumes "ledger_step kept lg lg'" and "listed a (dl_log lg)" and "a \<in> kept"
  shows "listed a (dl_log lg')"
  using assms(1)
proof cases
  case (recorded d landed threw readable ok)
  obtain more where "lines_of (dl_log lg') = lines_of (dl_log lg) \<union> more"
    using append_log_lines [OF displaced_line_clean [OF recorded(1)], of landed "dl_log lg"]
    unfolding record_log [OF recorded(2), symmetric] by blast
  with assms(2) show ?thesis by (auto simp: listed_def records_of_def)
next
  case (asked there tidy readable rw iv)
  show ?thesis
  proof (cases "dl_log lg' = dl_log lg")
    case False
    have some: "newest_of (fst (parse_log True (dl_log lg))) \<noteq> []"
      using live_listed [OF assms(2), of "\<lambda>_. None"] by auto
    from False inventory_log [OF asked(2)] obtain live where
      live: "live = filter (still_waiting there) (newest_of (fst (parse_log readable (dl_log lg))))"
        "dl_log lg' = Some (concat (map (\<lambda>d. displaced_line d @ [newline]) live))" by blast
    show ?thesis
    proof (cases readable)
      case True
      then have "set live \<subseteq> records_of (dl_log lg)" using live_records [of there "dl_log lg"] live(1) by simp
      then have "\<forall>d \<in> set live. displaced_ok d" using records_ok by blast
      then show ?thesis
        using live live_listed [OF assms(2)] asked(1) assms(3) True by (auto simp: listed_def compacted_records)
    next
      case unread: False
      then have "dl_log lg' = dl_log lg"
        using asked(2) by (auto simp: inventory_of_def parse_log_def newest_of_def COMPACT_AT_def Let_def)
      with False show ?thesis ..
    qed
  qed (use assms(2) in simp)
qed (use assms(2) in simp)

lemma steps_keep_lines:
  "(ledger_step kept)\<^sup>*\<^sup>* lg lg' \<Longrightarrow> good_log (dl_log lg) \<Longrightarrow> good_log (dl_log lg')"
  by (induction rule: rtranclp_induct) (auto intro: step_keeps_lines)

lemma steps_keep_listed:
  "(ledger_step kept)\<^sup>*\<^sup>* lg lg' \<Longrightarrow> listed a (dl_log lg) \<Longrightarrow> a \<in> kept \<Longrightarrow> listed a (dl_log lg')"
  by (induction rule: rtranclp_induct) (auto intro: step_keeps_listed)

lemma record_true_listed:
  assumes "good_log (dl_log lg)" and "displaced_ok d"
    and "record_displaced landed threw readable d lg = (True, lg')"
  shows "listed (di_at d) (dl_log lg')"
proof -
  have good: "good_log (dl_log lg')"
    using step_keeps_lines [OF ledger_step.recorded [OF assms(2,3), of "{}"] assms(1)] .
  obtain t l where l: "dl_log lg' = Some t" "l \<in> set (split_on newline t)" "js_trim l = displaced_line d"
    using assms(3) by (auto simp: record_displaced_def readableNow_def list_ex_iff Let_def split: if_splits option.splits)
  then have "l = displaced_line d" using good good_line_trim [OF _ assms(2)] by (auto simp: good_log_def)
  then have "d \<in> records_of (dl_log lg')"
  proof -
    assume "l = displaced_line d"
    then have "js_trim l \<noteq> []" "parseLine l = Some d"
      using l(3) displaced_line_ends [of d] parseLine_record [OF assms(2)] by auto
    moreover have "l \<in> lines_of (dl_log lg')" using l by (simp add: lines_of_def)
    ultimately show ?thesis unfolding records_of_def by blast
  qed
  then show ?thesis by (auto simp: listed_def)
qed

section \<open>Properties\<close>

text \<open>C27. A version whose record was reported written is found again. Once \<open>record\<close> answered true, and for as
  long as nothing says the bytes are gone from where they were put, every later inventory that can read
  the log lists that place: through appends that landed in part or threw, through later records of the
  same and of other notes, through the log being tidied, and through restarts.\<close>

theorem recorded_stays_listed:
  assumes "(ledger_step {})\<^sup>*\<^sup>* empty_ledger lg" and "displaced_ok d"
    and "record_displaced landed threw readable d lg = (True, lg1)"
    and "(ledger_step {di_at d})\<^sup>*\<^sup>* lg1 lg2" and "there (di_at d) \<noteq> Some False"
  shows "\<exists>r \<in> set (iv_waiting (fst (inventory_of tidy True rewrites there lg2))). di_at r = di_at d"
proof -
  have "good_log (dl_log lg)"
    using steps_keep_lines [OF assms(1)] by (simp add: good_log_def empty_ledger_def)
  then have "listed (di_at d) (dl_log lg2)"
    using steps_keep_listed [OF assms(4) record_true_listed [OF _ assms(2,3)]] by simp
  from live_listed [of "di_at d" _ there, OF this assms(5)] show ?thesis
    by (auto simp: inventory_of_def Let_def case_prod_beta)
qed

lemma recorded_stays_listed_witness:
  "\<exists>d r. r \<in> set (iv_waiting (fst (inventory_of True True None (\<lambda>_. None)
      (snd (record_displaced (length (displaced_line d) + 2) False True d empty_ledger))))) \<and> di_at r = di_at d \<and> di_at d = [97]"
proof -
  let ?d = "\<lparr>di_at = [97], di_from = [98], di_why = [], di_when = JNum 5\<rparr>"
  let ?n = "length (displaced_line ?d) + 2"
  let ?lg = "snd (record_displaced ?n False True ?d empty_ledger)"
  have split: "split_on newline (displaced_line ?d @ [newline]) = [displaced_line ?d, []]"
    using split_on_line [OF displaced_line_clean, of ?d "[]"] by (simp add: displaced_ok_def)
  have "record_displaced ?n False True ?d empty_ledger = (True, ?lg)"
    using split trim_record [of ?d]
    by (simp add: record_displaced_def readableNow_def append_log_def empty_ledger_def Let_def)
  from recorded_stays_listed [OF rtranclp.rtrancl_refl _ this rtranclp.rtrancl_refl, of "\<lambda>_. None" True None]
  have "\<exists>r \<in> set (iv_waiting (fst (inventory_of True True None (\<lambda>_. None) ?lg))). di_at r = di_at ?d"
    by (simp add: displaced_ok_def)
  then obtain r where "r \<in> set (iv_waiting (fst (inventory_of True True None (\<lambda>_. None) ?lg))) \<and> di_at r = di_at ?d \<and> di_at ?d = [97]"
    by auto
  then show ?thesis by blast
qed

end
