(* ===== verification/Engine_State.thy ===== *)
theory Engine_State
  imports Wire Index_State Paths
begin

text \<open>
  The state of \<open>client/src/core/engine.ts\<close> and the bookkeeping on it: the reports of a pass and how two are
  added, what a failure does to a path, what is forgotten, what a rename moves; and \<open>outcome.ts\<close>, the
  conclusion drawn from a report.

  A \<open>Map\<close> is the list of its pairs in insertion order (\<open>AList.update\<close>, \<open>AList.delete\<close>) and a \<open>Set\<close> the list
  of its members. A report is passed in and returned. What is only written to the console is left out.
\<close>

section \<open>Maps and sets\<close>

lemmas js_map_simps = AList.update_conv' AList.delete_conv'

definition set_add :: "'a \<Rightarrow> 'a list \<Rightarrow> 'a list" where
  "set_add x s = (if x \<in> set s then s else s @ [x])"

lemma set_set_add [simp]: "set (set_add x s) = insert x (set s)"
  by (auto simp: set_add_def)

text \<open>\<open>new Set(xs)\<close>, read back in order.\<close>

definition distinct_of :: "'a list \<Rightarrow> 'a list" where
  "distinct_of xs = rev (foldl (\<lambda>s x. if x \<in> set s then s else x # s) [] xs)"

section \<open>Reports\<close>

record in_the_way =
  iw_path :: jstring
  iw_blockedBy :: jstring
  iw_why :: "jstring option"

record phases =
  ph_list :: rat
  ph_decide :: rat
  ph_transfer :: rat
  ph_save :: rat
  ph_journalCompare :: rat
  ph_filesystem :: "(jstring \<times> rat \<times> nat) list"
  ph_rounds :: nat

record sync_report =
  sr_uploaded :: nat
  sr_downloaded :: nat
  sr_merged :: nat
  sr_conflicted :: nat
  sr_deletedLocally :: nat
  sr_deletedRemotely :: nat
  sr_restored :: nat
  sr_foldersCreated :: nat
  sr_unchanged :: nat
  sr_waiting :: nat
  sr_nextUploadAt :: "int option"
  sr_appliedCursor :: "int option"
  sr_retrying :: nat
  sr_skipped :: nat
  sr_skippedPaths :: "jstring list"
  sr_retryingPaths :: "jstring list"
  sr_ignored :: nat
  sr_heldBack :: nat
  sr_heldBackPaths :: "jstring list"
  sr_blocked :: nat
  sr_inTheWay :: "in_the_way list"
  sr_needsAttention :: "(jstring \<times> jstring) list"
  sr_phases :: "phases option"
  sr_chunksSent :: nat
  sr_bytesSent :: nat
  sr_reusedChunks :: nat

definition emptyReport :: sync_report where
  "emptyReport = \<lparr>sr_uploaded = 0, sr_downloaded = 0, sr_merged = 0, sr_conflicted = 0,
     sr_deletedLocally = 0, sr_deletedRemotely = 0, sr_restored = 0, sr_foldersCreated = 0,
     sr_unchanged = 0, sr_waiting = 0, sr_nextUploadAt = None, sr_appliedCursor = None,
     sr_retrying = 0, sr_skipped = 0, sr_skippedPaths = [], sr_retryingPaths = [], sr_ignored = 0,
     sr_heldBack = 0, sr_heldBackPaths = [], sr_blocked = 0, sr_inTheWay = [], sr_needsAttention = [],
     sr_phases = None, sr_chunksSent = 0, sr_bytesSent = 0, sr_reusedChunks = 0\<rparr>"

definition LISTED_PATHS :: nat where
  "LISTED_PATHS = 5"

definition noteSkipped :: "jstring \<Rightarrow> sync_report \<Rightarrow> sync_report" where
  "noteSkipped path r = r\<lparr>sr_skipped := sr_skipped r + 1, sr_skippedPaths := sr_skippedPaths r @ [path]\<rparr>"

definition noteRetrying :: "jstring \<Rightarrow> sync_report \<Rightarrow> sync_report" where
  "noteRetrying path r =
     r\<lparr>sr_retrying := sr_retrying r + 1, sr_retryingPaths := sr_retryingPaths r @ [path]\<rparr>"

definition heldBack :: "jstring \<Rightarrow> sync_report \<Rightarrow> sync_report" where
  "heldBack path r =
     r\<lparr>sr_heldBack := sr_heldBack r + 1,
       sr_heldBackPaths := sr_heldBackPaths r @ (if length (sr_heldBackPaths r) < LISTED_PATHS then [path] else [])\<rparr>"

text \<open>\<open>Math.min(report.nextUploadAt ?? Infinity, at)\<close>.\<close>

definition sooner :: "int \<Rightarrow> sync_report \<Rightarrow> sync_report" where
  "sooner t r = r\<lparr>sr_nextUploadAt := Some (case sr_nextUploadAt r of None \<Rightarrow> t | Some u \<Rightarrow> min u t)\<rparr>"

definition block_path :: "jstring \<Rightarrow> jstring \<Rightarrow> jstring option \<Rightarrow> sync_report \<Rightarrow> sync_report" where
  "block_path path by sentence r =
     r\<lparr>sr_blocked := sr_blocked r + 1,
       sr_inTheWay := sr_inTheWay r @ (if length (sr_inTheWay r) < LISTED_PATHS
         then [\<lparr>iw_path = path, iw_blockedBy = by, iw_why = sentence\<rparr>] else [])\<rparr>"

definition blankPhases :: phases where
  "blankPhases = \<lparr>ph_list = 0, ph_decide = 0, ph_transfer = 0, ph_save = 0, ph_journalCompare = 0,
     ph_filesystem = [], ph_rounds = 1\<rparr>"

definition add_filesystem :: "(jstring \<times> rat \<times> nat) list \<Rightarrow> (jstring \<times> rat \<times> nat) list \<Rightarrow> (jstring \<times> rat \<times> nat) list" where
  "add_filesystem m side = foldl (\<lambda>m (op, ms, calls).
     (case map_of m op of None \<Rightarrow> AList.update op (ms, calls) m
      | Some (ms', calls') \<Rightarrow> AList.update op (ms' + ms, calls' + calls) m)) m side"

definition addPhases :: "phases option \<Rightarrow> phases option \<Rightarrow> phases" where
  "addPhases a b =
     (let left = (case a of Some p \<Rightarrow> p | None \<Rightarrow> blankPhases);
          right = (case b of Some p \<Rightarrow> p | None \<Rightarrow> blankPhases)
      in \<lparr>ph_list = ph_list left + ph_list right, ph_decide = ph_decide left + ph_decide right,
          ph_transfer = ph_transfer left + ph_transfer right, ph_save = ph_save left + ph_save right,
          ph_journalCompare = ph_journalCompare left + ph_journalCompare right,
          ph_filesystem = add_filesystem (add_filesystem [] (ph_filesystem left)) (ph_filesystem right),
          ph_rounds = (if a = None then 0 else ph_rounds left) + ph_rounds right\<rparr>)"

text \<open>Two passes of one sync: what happened is added, how the vault looks is the later pass's word.\<close>

definition combinePasses :: "sync_report \<Rightarrow> sync_report \<Rightarrow> sync_report" where
  "combinePasses a b = \<lparr>sr_uploaded = sr_uploaded a + sr_uploaded b,
     sr_downloaded = sr_downloaded a + sr_downloaded b, sr_merged = sr_merged a + sr_merged b,
     sr_conflicted = sr_conflicted a + sr_conflicted b,
     sr_deletedLocally = sr_deletedLocally a + sr_deletedLocally b,
     sr_deletedRemotely = sr_deletedRemotely a + sr_deletedRemotely b,
     sr_restored = sr_restored a + sr_restored b,
     sr_foldersCreated = sr_foldersCreated a + sr_foldersCreated b,
     sr_unchanged = sr_unchanged b, sr_waiting = sr_waiting b, sr_nextUploadAt = sr_nextUploadAt b,
     sr_appliedCursor = sr_appliedCursor b, sr_retrying = sr_retrying b, sr_skipped = sr_skipped b,
     sr_skippedPaths = sr_skippedPaths b, sr_retryingPaths = sr_retryingPaths b,
     sr_ignored = sr_ignored b, sr_heldBack = sr_heldBack b, sr_heldBackPaths = sr_heldBackPaths b,
     sr_blocked = sr_blocked b, sr_inTheWay = sr_inTheWay b, sr_needsAttention = sr_needsAttention b,
     sr_phases = (if sr_phases a \<noteq> None \<or> sr_phases b \<noteq> None
                  then Some (addPhases (sr_phases a) (sr_phases b)) else None),
     sr_chunksSent = sr_chunksSent a + sr_chunksSent b, sr_bytesSent = sr_bytesSent a + sr_bytesSent b,
     sr_reusedChunks = sr_reusedChunks a + sr_reusedChunks b\<rparr>"

section \<open>What a pass came to\<close>

datatype pass_outcome =
    Offline jstring
  | Pass_failed jstring
  | Retrying "jstring list"
  | Refused_paths "jstring list"
  | Recovery_unknown jstring
  | Recovery_needed "jstring list"
  | Conflicted nat
  | Synced

record failure =
  fl_offline :: bool
  fl_why :: jstring

record recovery =
  rc_complete :: bool
  rc_why :: "jstring option"
  rc_waiting :: "jstring list"

definition outcomeOf ::
  "sync_report option \<Rightarrow> failure option \<Rightarrow> recovery option \<Rightarrow> jstring list \<Rightarrow> pass_outcome" where
  "outcomeOf report failure rec stranded =
     (case failure of
        Some f \<Rightarrow> if fl_offline f then Offline (fl_why f) else Pass_failed (fl_why f)
      | None \<Rightarrow>
          (case report of
             None \<Rightarrow> Pass_failed (lit ''the pass did not report a result'')
           | Some r \<Rightarrow>
               if sr_retrying r > 0 then Retrying (sr_retryingPaths r)
               else if sr_skipped r > 0 \<or> sr_blocked r > 0
               then Refused_paths (sr_skippedPaths r @ map iw_path (sr_inTheWay r))
               else if (case rec of Some c \<Rightarrow> \<not> rc_complete c | None \<Rightarrow> False)
               then Recovery_unknown (case rec of Some c \<Rightarrow> (case rc_why c of Some w \<Rightarrow> w
                      | None \<Rightarrow> lit ''what is waiting to be recovered could not be established'') | None \<Rightarrow> [])
               else (let hidden = distinct_of (stranded @ (case rec of Some c \<Rightarrow> rc_waiting c | None \<Rightarrow> []))
                     in if hidden \<noteq> [] then Recovery_needed hidden
                        else if sr_conflicted r > 0 then Conflicted (sr_conflicted r)
                        else Synced)))"

definition exitCodeOf :: "pass_outcome \<Rightarrow> nat" where
  "exitCodeOf o' = (case o' of Conflicted _ \<Rightarrow> 0 | Synced \<Rightarrow> 0 | _ \<Rightarrow> 1)"

section \<open>The engine\<close>

text \<open>The server's word about a path, with the spelling and the heads it has where they differ.\<close>

record remote = remote_state +
  rm_wire :: "jstring option"
  rm_heads :: "(jstring \<times> int) list option"

record retry =
  rt_count :: nat
  rt_error :: jstring
  rt_at :: int

record skip =
  sk_why :: jstring
  sk_fingerprint :: jstring

record engine =
  en_entries :: "(jstring \<times> index_entry) list"
  en_remote :: "(jstring \<times> remote) list"
  en_pending :: "jstring list"
  en_retries :: "(jstring \<times> retry) list"
  en_skipped :: "(jstring \<times> skip) list"
  en_refusedInbound :: "(jstring \<times> jstring) list"
  en_staleHeads :: "(jstring \<times> nat) list"
  en_asked :: "(jstring \<times> nat) list"
  en_ignoredPaths :: "(jstring \<times> jstring) list"
  en_blocked :: "jstring list"
  en_dirty :: "jstring list"
  en_unsealed :: "(jstring \<times> jstring) list"
  en_cursor :: int
  en_syncing :: bool
  en_again :: bool

definition fresh_engine :: engine where
  "fresh_engine = \<lparr>en_entries = [], en_remote = [], en_pending = [], en_retries = [], en_skipped = [],
     en_refusedInbound = [], en_staleHeads = [], en_asked = [], en_ignoredPaths = [], en_blocked = [],
     en_dirty = [], en_unsealed = [], en_cursor = 0, en_syncing = False, en_again = False\<rparr>"

definition entryFor :: "jstring \<Rightarrow> engine \<Rightarrow> index_entry" where
  "entryFor path en = (case map_of (en_entries en) path of Some e \<Rightarrow> e | None \<Rightarrow> newEntry path)"

definition serverHasOurs :: "jstring \<Rightarrow> engine \<Rightarrow> bool" where
  "serverHasOurs path en =
     (case map_of (en_entries en) path of
        None \<Rightarrow> False
      | Some e \<Rightarrow> \<not> ie_folder e \<and> ie_syncuid e > 0 \<and> ie_synchash e \<noteq> [] \<and> ie_synchash e = ie_hash e)"

text \<open>\<open>spellingHeads\<close>: the two fields it adds to a remote record.\<close>

definition spellingHeads :: "remote option \<Rightarrow> jstring \<Rightarrow> jstring \<Rightarrow> int \<Rightarrow> jstring option \<times> (jstring \<times> int) list option" where
  "spellingHeads prior path wire uid =
     (if wire = path \<and> (case prior of Some p \<Rightarrow> rm_heads p = None \<and> rm_wire p \<in> {None, Some []} | None \<Rightarrow> True)
      then (None, None)
      else (if wire \<noteq> path then Some wire else None,
        Some (AList.update wire uid
          (case prior of None \<Rightarrow> []
           | Some p \<Rightarrow> AList.update (case rm_wire p of Some w \<Rightarrow> w | None \<Rightarrow> path) (rs_uid p)
                        (case rm_heads p of Some h \<Rightarrow> h | None \<Rightarrow> [])))))"

text \<open>The record of a path the server now holds, under the spelling it arrived in.\<close>

definition remote_at :: "remote_state \<Rightarrow> jstring option \<times> (jstring \<times> int) list option \<Rightarrow> remote" where
  "remote_at r wh = remote_state.extend r \<lparr>rm_wire = fst wh, rm_heads = snd wh\<rparr>"

definition pathBase :: "remote option \<Rightarrow> jstring \<Rightarrow> int option \<Rightarrow> protocol_error + int" where
  "pathBase state path basedOn =
     (if (case (basedOn, state) of (Some b, Some s) \<Rightarrow> rs_uid s \<noteq> b | _ \<Rightarrow> False)
      then Inl (ProtocolError (lit ''stale'') None None)
      else if (case state of Some s \<Rightarrow> rm_wire s \<in> {None, Some []} | None \<Rightarrow> True)
      then Inr (case basedOn of Some b \<Rightarrow> b | None \<Rightarrow> 0)
      else Inr (case state of Some s \<Rightarrow> (case rm_heads s of Some h \<Rightarrow>
                  (case map_of h path of Some u \<Rightarrow> u | None \<Rightarrow> 0) | None \<Rightarrow> 0) | None \<Rightarrow> 0))"

text \<open>The version a held-back write answers, while it is the one the server has.\<close>

definition answeredVersion :: "int option \<Rightarrow> remote_state option \<Rightarrow> (int \<times> jstring) option" where
  "answeredVersion basedOn remote =
     (case (basedOn, remote) of (Some b, Some r) \<Rightarrow> if rs_uid r \<noteq> b then None else Some (b, rs_hash r) | _ \<Rightarrow> None)"

section \<open>Failures\<close>

record js_error =
  er_code :: "jstring option"
  er_connection :: bool
  er_message :: jstring

text \<open>\<open>new Error(message)\<close>.\<close>

definition plain_error :: "jstring \<Rightarrow> js_error" where
  "plain_error message = \<lparr>er_code = None, er_connection = False, er_message = message\<rparr>"

definition STALE_REFUSALS_BEFORE_BACKOFF :: nat where
  "STALE_REFUSALS_BEFORE_BACKOFF = 3"

definition RECONNECT_RETRY_MS :: int where
  "RECONNECT_RETRY_MS = 5000"

definition nextStepFor :: "jstring option \<Rightarrow> jstring" where
  "nextStepFor code =
     (if code = Some (lit ''toolarge'') then lit ''Make it smaller, or raise the server's -max-file and restart it.''
      else if code = Some (lit ''badname'') then
        lit ''Rename it to something this server will take, on the device that made it.''
      else if code = Some (lit ''neversync'') then
        lit ''Nothing syncs under that name here. Move it, or change what this device ignores.''
      else if code = Some (lit ''badentry'') then
        lit ''The device that wrote it sent something malformed; its logs say what.''
      else if code = Some (lit ''nochunk'') then
        lit ''The server no longer holds its content. Restore it from a backup, or write it again from a device that still has it.''
      else if code = Some (lit ''cursor'') then
        lit ''The server has lost history this device applied. Back the server up, then basalt rebase.''
      else [])"

definition fingerprintOf :: "index_entry option \<Rightarrow> jstring" where
  "fingerprintOf entry =
     (case entry of Some e \<Rightarrow> integer_text (ie_mtime e) @ 58 # integer_text (ie_size e) | None \<Rightarrow> lit ''gone'')"

definition PERMANENT :: "string list" where
  "PERMANENT = [''badentry'', ''badname'', ''toolarge'', ''neversync'']"

definition stale_message :: "jstring \<Rightarrow> nat \<Rightarrow> jstring" where
  "stale_message message refusals = message @ lit '' (refused as out of date '' @ decimal refusals
     @ lit '' times running, even after asking the server for this path's current version)''"

definition is_code :: "js_error \<Rightarrow> string \<Rightarrow> bool" where
  "is_code err c \<longleftrightarrow> er_code err = Some (lit c)"

text \<open>\<open>recordFailure\<close>. \<open>nfc\<close> is the standard library's \<open>normalize("NFC")\<close>, \<open>now\<close> the clock.\<close>

definition stale_refusals :: "jstring \<Rightarrow> engine \<Rightarrow> nat" where
  "stale_refusals path en =
     (case map_of (en_staleHeads en) path of Some n \<Rightarrow> n
      | None \<Rightarrow> (case map_of (en_asked en) path of Some n \<Rightarrow> n | None \<Rightarrow> 0)) + 1"

definition forget_prev :: "(jstring \<Rightarrow> jstring) \<Rightarrow> jstring \<Rightarrow> engine \<Rightarrow> engine" where
  "forget_prev nfc path en =
     (case map_of (en_entries en) path of
        Some e \<Rightarrow> if ie_prev e \<noteq> [] \<and> canonicalSpelling nfc (ie_prev e) \<noteq> path
                  then en\<lparr>en_entries := AList.update path (e\<lparr>ie_prev := []\<rparr>) (en_entries en)\<rparr> else en
      | None \<Rightarrow> en)"

definition retry_wait :: "nat \<Rightarrow> int" where
  "retry_wait n = min 300000 (5000 * 2 ^ n)"

text \<open>What is left when the failure is not one the server can be asked about.\<close>

definition fail_path :: "jstring \<Rightarrow> js_error \<Rightarrow> jstring \<Rightarrow> int \<Rightarrow> engine \<times> sync_report \<Rightarrow> engine \<times> sync_report" where
  "fail_path path err message now st =
     (let (en, report) = st in
      if er_connection err then (en, sooner (now + RECONNECT_RETRY_MS) (noteRetrying path report))
      else if is_code err ''ignored'' then
        (en\<lparr>en_ignoredPaths := AList.update path message (en_ignoredPaths en),
            en_pending := removeAll path (en_pending en)\<rparr>, report\<lparr>sr_ignored := sr_ignored report + 1\<rparr>)
      else if list_ex (is_code err) PERMANENT then
        (en\<lparr>en_skipped := AList.update path
              \<lparr>sk_why = js_trim (message @ 32 # nextStepFor (er_code err)),
               sk_fingerprint = fingerprintOf (map_of (en_entries en) path)\<rparr> (en_skipped en)\<rparr>,
         noteSkipped path report)
      else
        (let old = (case map_of (en_retries en) path of Some r \<Rightarrow> rt_count r | None \<Rightarrow> 0);
             at' = now + retry_wait (old + 1)
         in (en\<lparr>en_retries := AList.update path \<lparr>rt_count = old + 1, rt_error = message, rt_at = at'\<rparr> (en_retries en)\<rparr>,
             sooner at' (noteRetrying path report))))"

definition recordFailure ::
  "(jstring \<Rightarrow> jstring) \<Rightarrow> jstring \<Rightarrow> js_error \<Rightarrow> int \<Rightarrow> engine \<times> sync_report \<Rightarrow> engine \<times> sync_report" where
  "recordFailure nfc path err now st =
     (if is_code err ''stale'' then
        (let en = forget_prev nfc path (fst st); refusals = stale_refusals path en in
         if refusals \<le> STALE_REFUSALS_BEFORE_BACKOFF then
           (en\<lparr>en_staleHeads := AList.update path refusals (en_staleHeads en),
               en_retries := AList.delete path (en_retries en), en_again := True\<rparr>,
            (snd st)\<lparr>sr_waiting := sr_waiting (snd st) + 1\<rparr>)
         else fail_path path err (stale_message (er_message err) refusals) now
                (en\<lparr>en_staleHeads := AList.delete path (en_staleHeads en),
                    en_asked := AList.delete path (en_asked en)\<rparr>, snd st))
      else fail_path path err (er_message err) now st)"

section \<open>Forgetting\<close>

text \<open>\<open>prune\<close>, for what is on disk. The two caches it also bounds hold nothing but answers.\<close>

definition prunable_entry :: "jstring list \<Rightarrow> engine \<Rightarrow> jstring \<times> index_entry \<Rightarrow> bool" where
  "prunable_entry onDisk en pe =
     (let (path, e) = pe in
      path \<notin> set onDisk \<and>
      \<not> (case map_of (en_remote en) path of Some r \<Rightarrow> \<not> rs_deleted r | None \<Rightarrow> False) \<and>
      ie_synchash e = [] \<and> ie_hash e = [])"

definition prunable_remote :: "jstring list \<Rightarrow> engine \<Rightarrow> jstring \<times> remote \<Rightarrow> bool" where
  "prunable_remote onDisk en pr =
     (let (path, r) = pr in
      rs_deleted r \<and> path \<notin> set onDisk \<and> map_of (en_entries en) path = None \<and> path \<notin> set (en_pending en))"

definition drop_keys :: "'k list \<Rightarrow> ('k \<times> 'v) list \<Rightarrow> ('k \<times> 'v) list" where
  "drop_keys gone m = filter (\<lambda>(k, v). k \<notin> set gone) m"

definition prune_unsealed :: "engine \<Rightarrow> engine" where
  "prune_unsealed en =
     (if length (en_unsealed en) > length (en_entries en) + length (en_remote en) + length (en_pending en) then
        (let keep = map fst (en_entries en) @ map fst (en_remote en) @ en_pending en @ map fst (en_refusedInbound en)
         in en\<lparr>en_unsealed := filter (\<lambda>(sealed, plain). plain \<in> set keep) (en_unsealed en)\<rparr>)
      else en)"

definition prune :: "jstring list \<Rightarrow> engine \<Rightarrow> engine" where
  "prune onDisk en =
     (let en1 = en\<lparr>en_entries := filter (\<lambda>pe. \<not> prunable_entry onDisk en pe) (en_entries en)\<rparr>;
          gone = map fst (filter (prunable_remote onDisk en1) (en_remote en1))
      in prune_unsealed (en1\<lparr>en_remote := drop_keys gone (en_remote en1),
           en_staleHeads := drop_keys gone (en_staleHeads en1), en_asked := drop_keys gone (en_asked en1),
           en_refusedInbound := drop_keys gone (en_refusedInbound en1)\<rparr>))"

section \<open>Events\<close>

definition noteChanged :: "(jstring \<Rightarrow> jstring) \<Rightarrow> jstring \<Rightarrow> int \<Rightarrow> engine \<Rightarrow> engine" where
  "noteChanged nfc path now en =
     (let canonical = canonicalSpelling nfc path;
          en1 = en\<lparr>en_dirty := set_add canonical (en_dirty en),
            en_retries := (case map_of (en_retries en) canonical of
              Some r \<Rightarrow> AList.update canonical (r\<lparr>rt_at := min (rt_at r) now\<rparr>) (en_retries en)
            | None \<Rightarrow> en_retries en)\<rparr>
      in if en_syncing en1 then en1\<lparr>en_again := True\<rparr> else en1)"

definition moveEntry :: "jstring \<Rightarrow> jstring \<Rightarrow> engine \<Rightarrow> engine" where
  "moveEntry from to en =
     (case map_of (en_entries en) from of
        None \<Rightarrow> en
      | Some entry \<Rightarrow>
          (let target = map_of (en_entries en) to;
               moved = entry\<lparr>ie_synchash := (case target of Some t \<Rightarrow> ie_synchash t | None \<Rightarrow> []),
                             ie_syncuid := (case target of Some t \<Rightarrow> ie_syncuid t | None \<Rightarrow> 0)\<rparr>
           in en\<lparr>en_entries := AList.update to (renamed moved from to) (en_entries en)\<rparr>))"

definition move_key :: "'k \<Rightarrow> 'k \<Rightarrow> ('k \<times> 'v) list \<Rightarrow> ('k \<times> 'v) list" where
  "move_key from to m =
     (case map_of m from of None \<Rightarrow> m | Some v \<Rightarrow> AList.update to v (AList.delete from m))"

definition movePath :: "jstring \<Rightarrow> jstring \<Rightarrow> engine \<Rightarrow> engine" where
  "movePath from to en =
     (let en1 = moveEntry from to en
      in en1\<lparr>en_retries := move_key from to (en_retries en1), en_skipped := move_key from to (en_skipped en1)\<rparr>)"

definition noteRename :: "jstring \<Rightarrow> jstring \<Rightarrow> engine \<Rightarrow> engine" where
  "noteRename from to en =
     (if isNeverSynced to {} then en
      else
        (let en1 = movePath from to en; under = from @ [slash];
             known = distinct_of (map fst (en_entries en1) @ map fst (en_retries en1) @ map fst (en_skipped en1))
         in foldl (\<lambda>en path. if starts_with path under then movePath path (to @ drop (length from) path) en else en)
              en1 known))"

text \<open>The one list a person reads. \<open>refused\<close> is \<open>refusedInboundPath\<close> as a sentence.\<close>

definition attention_add :: "jstring \<times> jstring \<Rightarrow> (jstring \<times> jstring) list \<Rightarrow> (jstring \<times> jstring) list" where
  "attention_add line out = (if fst line \<in> fst ` set out then out else out @ [line])"

definition blocked_sentence :: "in_the_way \<Rightarrow> jstring" where
  "blocked_sentence b =
     (case iw_why b of
        None \<Rightarrow> 34 # iw_blockedBy b @ 34 # lit '' is a file here and a folder on another device. Rename one of them, on whichever device meant the other thing.''
      | Some w \<Rightarrow> w @ lit '' Rename one of them here; nothing syncs under that name until you do.'')"

definition attentionList :: "(jstring \<Rightarrow> jstring option) \<Rightarrow> sync_report \<Rightarrow> engine \<Rightarrow> (jstring \<times> jstring) list" where
  "attentionList refused report en =
     (let blocked = foldl (\<lambda>out b. attention_add (iw_path b, blocked_sentence b) out) [] (sr_inTheWay report)
      in foldl (\<lambda>out path.
           (case (case map_of (en_skipped en) path of Some s \<Rightarrow> Some (sk_why s)
                  | None \<Rightarrow> (case map_of (en_refusedInbound en) path of Some w \<Rightarrow> Some w | None \<Rightarrow> refused path)) of
              None \<Rightarrow> out | Some w \<Rightarrow> attention_add (path, w) out)) blocked (sr_skippedPaths report))"

section \<open>Pruning\<close>

definition remote_of :: "jstring \<Rightarrow> engine \<Rightarrow> remote_state option" where
  "remote_of path en = map_option remote_state.truncate (map_of (en_remote en) path)"

lemma truncate_remote [simp]:
  "rs_uid (remote_state.truncate r) = rs_uid r" "rs_folder (remote_state.truncate r) = rs_folder r"
  "rs_deleted (remote_state.truncate r) = rs_deleted r" "rs_mtime (remote_state.truncate r) = rs_mtime r"
  "rs_size (remote_state.truncate r) = rs_size r" "rs_hash (remote_state.truncate r) = rs_hash r"
  by (simp_all add: remote_state.truncate_def)

lemma map_of_filter_key:
  "map_of (filter (\<lambda>(k, v). P k) m) k = (if P k then map_of m k else None)"
  by (induction m) auto

lemma map_of_filter_distinct:
  "distinct (map fst m) \<Longrightarrow>
     map_of (filter P m) k = (case map_of m k of Some v \<Rightarrow> if P (k, v) then Some v else None | None \<Rightarrow> None)"
proof (induction m)
  case (Cons kv m)
  have "map_of (filter P m) (fst kv) = None"
    using Cons.prems by (auto simp: map_of_eq_None_iff)
  with Cons show ?case by (cases kv) (auto split: option.splits)
qed simp

definition distinct_maps :: "engine \<Rightarrow> bool" where
  "distinct_maps en \<longleftrightarrow> distinct (map fst (en_entries en)) \<and> distinct (map fst (en_remote en))"

lemma unsealed_same [simp]:
  "en_entries (prune_unsealed en) = en_entries en" "en_remote (prune_unsealed en) = en_remote en"
  "en_pending (prune_unsealed en) = en_pending en"
  by (simp_all add: prune_unsealed_def Let_def)

lemma pruned_entry:
  assumes "distinct_maps en"
  shows "map_of (en_entries (prune onDisk en)) p =
    (case map_of (en_entries en) p of
       Some e \<Rightarrow> if prunable_entry onDisk en (p, e) then None else Some e | None \<Rightarrow> None)"
  using assms map_of_filter_distinct [of "en_entries en" "\<lambda>pe. \<not> prunable_entry onDisk en pe" p]
  by (auto simp: prune_def Let_def distinct_maps_def split: option.splits)

lemma pruned_remote:
  assumes "distinct_maps en"
  shows "map_of (en_remote (prune onDisk en)) p =
    (case map_of (en_remote en) p of
       Some r \<Rightarrow> if rs_deleted r \<and> p \<notin> set onDisk \<and> map_of (en_entries (prune onDisk en)) p = None \<and>
            p \<notin> set (en_pending en) then None else Some r
     | None \<Rightarrow> None)"
proof -
  let ?en1 = "en\<lparr>en_entries := filter (\<lambda>pe. \<not> prunable_entry onDisk en pe) (en_entries en)\<rparr>"
  let ?gone = "map fst (filter (prunable_remote onDisk ?en1) (en_remote en))"
  have "p \<in> set ?gone \<longleftrightarrow> (\<exists>r. map_of (en_remote en) p = Some r \<and> prunable_remote onDisk ?en1 (p, r))"
    using assms by (force simp: distinct_maps_def image_iff map_of_eq_Some_iff)
  moreover have "en_entries (prune onDisk en) = en_entries ?en1"
    by (simp add: prune_def Let_def)
  moreover have "en_remote (prune onDisk en) = drop_keys ?gone (en_remote en)"
    by (simp add: prune_def Let_def)
  ultimately show ?thesis
    by (auto simp: drop_keys_def map_of_filter_key prunable_remote_def split: option.splits)
qed

text \<open>A path with nothing on disk and nothing alive on the server is left alone, whatever is remembered.\<close>

lemma decide_gone:
  assumes "case remote of Some r \<Rightarrow> rs_deleted r | None \<Rightarrow> True"
  shows "\<exists>s. decide None remote index m = Do_nothing s"
  using assms by (cases remote) (auto simp: decide_defs)

section \<open>Properties\<close>

text \<open>C28. Forgetting changes no decision. Whatever a pass drops from the index and from the server's word,
  every path is decided about as before, a path on disk keeps everything, a version still to be fetched
  keeps its record, and nothing that carries a common ancestor is dropped.\<close>

theorem prune_changes_no_decision:
  assumes "distinct_maps en" and "p \<notin> set onDisk \<Longrightarrow> local = None"
  shows "verdict_of (decide local (remote_of p (prune onDisk en)) (entryFor p (prune onDisk en)) m)
      = verdict_of (decide local (remote_of p en) (entryFor p en) m) \<and>
    (p \<in> set onDisk \<longrightarrow> map_of (en_entries (prune onDisk en)) p = map_of (en_entries en) p \<and>
       map_of (en_remote (prune onDisk en)) p = map_of (en_remote en) p) \<and>
    (p \<in> set (en_pending en) \<longrightarrow> map_of (en_remote (prune onDisk en)) p = map_of (en_remote en) p) \<and>
    (ie_synchash (entryFor p en) \<noteq> [] \<longrightarrow> entryFor p (prune onDisk en) = entryFor p en)"
proof -
  note e = pruned_entry [OF assms(1), of onDisk p] and r = pruned_remote [OF assms(1), of onDisk p]
  have keeps: "map_of (en_entries (prune onDisk en)) p = map_of (en_entries en) p \<and>
      map_of (en_remote (prune onDisk en)) p = map_of (en_remote en) p" if "p \<in> set onDisk"
    using that e r by (simp add: prunable_entry_def split: option.splits)
  have "verdict_of (decide local (remote_of p (prune onDisk en)) (entryFor p (prune onDisk en)) m)
      = verdict_of (decide local (remote_of p en) (entryFor p en) m)"
  proof (cases "p \<in> set onDisk")
    case True
    then show ?thesis using keeps by (simp add: remote_of_def entryFor_def)
  next
    case False
    note local = assms(2) [OF False]
    show ?thesis
    proof (cases "case remote_of p en of Some r \<Rightarrow> rs_deleted r | None \<Rightarrow> True")
      case True
      then have "case remote_of p (prune onDisk en) of Some r \<Rightarrow> rs_deleted r | None \<Rightarrow> True"
        using r by (auto simp: remote_of_def split: option.splits if_splits)
      then show ?thesis using decide_gone True local by (metis verdict_of.simps(1))
    next
      case alive: False
      then have "map_of (en_entries (prune onDisk en)) p = map_of (en_entries en) p"
        "map_of (en_remote (prune onDisk en)) p = map_of (en_remote en) p"
        using e r by (auto simp: remote_of_def prunable_entry_def split: option.splits)
      then show ?thesis by (simp add: remote_of_def entryFor_def)
    qed
  qed
  moreover have "map_of (en_remote (prune onDisk en)) p = map_of (en_remote en) p" if "p \<in> set (en_pending en)"
    using that r by (simp split: option.splits)
  moreover have "entryFor p (prune onDisk en) = entryFor p en" if "ie_synchash (entryFor p en) \<noteq> []"
    using that e by (auto simp: entryFor_def prunable_entry_def newEntry_def split: option.splits)
  ultimately show ?thesis using keeps by blast
qed

lemma prune_changes_no_decision_witness:
  "let r = \<lparr>rs_uid = 4, rs_folder = False, rs_deleted = True, rs_mtime = 0, rs_size = 0, rs_hash = [],
            rm_wire = None, rm_heads = None\<rparr>;
       en = fresh_engine\<lparr>en_remote := [([97], r)]\<rparr>
   in en_remote (prune [] en) = [] \<and>
      verdict_of (decide None (remote_of [97] (prune [] en)) (entryFor [97] (prune [] en)) True)
        = verdict_of (decide None (remote_of [97] en) (entryFor [97] en) True)"
proof -
  let ?r = "\<lparr>rs_uid = 4, rs_folder = False, rs_deleted = True, rs_mtime = 0, rs_size = 0, rs_hash = [],
            rm_wire = None, rm_heads = None\<rparr>"
  let ?en = "fresh_engine\<lparr>en_remote := [([97], ?r)]\<rparr>"
  have "en_remote (prune [] ?en) = []"
    by (auto simp: prune_def fresh_engine_def prunable_remote_def drop_keys_def prune_unsealed_def Let_def)
  moreover have "distinct_maps ?en" by (simp add: distinct_maps_def fresh_engine_def)
  ultimately show ?thesis
    using prune_changes_no_decision [of ?en "[97]" "[]" None True] by (simp add: Let_def)
qed

end
