(* ===== verification/Engine_Index.thy ===== *)
theory Engine_Index
  imports Engine_State Journal_Durability
begin

text \<open>
  How the engine of \<open>client/src/core/engine.ts\<close> writes its index and starts from it: \<open>packed\<close> and
  \<open>unpacked\<close>, \<open>save\<close> and \<open>start\<close>. The store is the one of the journal; what is shown is that a device
  restarts as it was saved, and when it cannot.
\<close>

section \<open>Packing\<close>

definition entry_obj :: "index_entry \<Rightarrow> obj" where
  "entry_obj e = [(lit ''path'', JStr (ie_path e)), (lit ''prev'', JStr (ie_prev e)), (lit ''folder'', JBool (ie_folder e)),
     (lit ''ctime'', JNum (ie_ctime e)), (lit ''mtime'', JNum (ie_mtime e)), (lit ''size'', JNum (ie_size e)),
     (lit ''hash'', JStr (ie_hash e)), (lit ''chunks'', JArr (map JStr (ie_chunks e))),
     (lit ''synchash'', JStr (ie_synchash e)), (lit ''syncuid'', JNum (ie_syncuid e)),
     (lit ''synctime'', JNum (ie_synctime e))]
     @ (case ie_changeId e of Some c \<Rightarrow> [(lit ''changeId'', JStr c)] | None \<Rightarrow> [])"

definition packed :: "index_entry \<Rightarrow> obj" where
  "packed e =
     (let out = entry_obj e;
          out1 = (if ie_hash e = contentId (ie_chunks e) then AList.delete (lit ''hash'') out else out)
      in if ie_synchash e = ie_hash e then AList.delete (lit ''synchash'') out1 else out1)"

text \<open>A field of a record that was checked, or its default where it is absent.\<close>

definition text_field :: "json \<Rightarrow> string \<Rightarrow> jstring \<Rightarrow> jstring" where
  "text_field raw f dflt = (case field raw (lit f) of Some (JStr s) \<Rightarrow> s | _ \<Rightarrow> dflt)"

definition int_field :: "json \<Rightarrow> string \<Rightarrow> int \<Rightarrow> int" where
  "int_field raw f dflt =
     (case field raw (lit f) of Some v \<Rightarrow> (case count_of v of Some n \<Rightarrow> n | None \<Rightarrow> dflt) | None \<Rightarrow> dflt)"

definition bool_field :: "json \<Rightarrow> string \<Rightarrow> bool \<Rightarrow> bool" where
  "bool_field raw f dflt = (case field raw (lit f) of Some (JBool b) \<Rightarrow> b | _ \<Rightarrow> dflt)"

definition unpacked :: "jstring \<Rightarrow> json \<Rightarrow> index_entry" where
  "unpacked path raw =
     (let n = newEntry path;
          chunks = (case field raw (lit ''chunks'') of Some (JArr vs) \<Rightarrow> map text_of vs | _ \<Rightarrow> ie_chunks n);
          e = \<lparr>ie_path = text_field raw ''path'' (ie_path n), ie_prev = text_field raw ''prev'' (ie_prev n),
               ie_folder = bool_field raw ''folder'' (ie_folder n), ie_ctime = int_field raw ''ctime'' (ie_ctime n),
               ie_mtime = int_field raw ''mtime'' (ie_mtime n), ie_size = int_field raw ''size'' (ie_size n),
               ie_changeId = (case field raw (lit ''changeId'') of Some (JStr c) \<Rightarrow> Some c | _ \<Rightarrow> None),
               ie_hash = text_field raw ''hash'' (ie_hash n), ie_chunks = chunks,
               ie_synchash = text_field raw ''synchash'' (ie_synchash n),
               ie_syncuid = int_field raw ''syncuid'' (ie_syncuid n),
               ie_synctime = int_field raw ''synctime'' (ie_synctime n)\<rparr>;
          e1 = (if field raw (lit ''hash'') = None then e\<lparr>ie_hash := contentId (ie_chunks e)\<rparr> else e)
      in if field raw (lit ''synchash'') = None then e1\<lparr>ie_synchash := ie_hash e1\<rparr> else e1)"

section \<open>Saving\<close>

definition heads_obj :: "(jstring \<times> int) list \<Rightarrow> obj" where
  "heads_obj h = map (\<lambda>(p, u). (p, JNum u)) h"

definition remote_obj :: "remote \<Rightarrow> obj" where
  "remote_obj r = [(lit ''uid'', JNum (rs_uid r)), (lit ''folder'', JBool (rs_folder r)),
     (lit ''deleted'', JBool (rs_deleted r)), (lit ''mtime'', JNum (rs_mtime r)), (lit ''size'', JNum (rs_size r)),
     (lit ''hash'', JStr (rs_hash r))]
     @ (case rm_wire r of Some w \<Rightarrow> [(lit ''wire'', JStr w)] | None \<Rightarrow> [])
     @ (case rm_heads r of Some h \<Rightarrow> [(lit ''heads'', JObj (heads_obj h))] | None \<Rightarrow> [])"

definition remote_from :: "json \<Rightarrow> remote" where
  "remote_from raw =
     \<lparr>rs_uid = int_field raw ''uid'' 0, rs_folder = bool_field raw ''folder'' False,
      rs_deleted = bool_field raw ''deleted'' False, rs_mtime = int_field raw ''mtime'' 0,
      rs_size = int_field raw ''size'' 0, rs_hash = text_field raw ''hash'' [],
      rm_wire = (case field raw (lit ''wire'') of Some (JStr w) \<Rightarrow> Some w | _ \<Rightarrow> None),
      rm_heads = (case field raw (lit ''heads'') of
          Some (JObj kvs) \<Rightarrow> Some (map (\<lambda>(p, v). (p, case count_of v of Some n \<Rightarrow> n | None \<Rightarrow> 0)) kvs)
        | _ \<Rightarrow> None)\<rparr>"

text \<open>\<open>save\<close>: the state handed to the store.\<close>

definition save_state :: "engine \<Rightarrow> stored_state" where
  "save_state en = \<lparr>ss_cursor = en_cursor en,
     ss_entries = map (\<lambda>(p, e). (p, JObj (packed e))) (en_entries en),
     ss_remote = map (\<lambda>(p, r). (p, JObj (remote_obj r))) (en_remote en),
     ss_pending = en_pending en\<rparr>"

section \<open>Starting\<close>

text \<open>The maps \<open>start\<close> fills from a state that passed its checks.\<close>

definition load_state :: "stored_state \<Rightarrow> engine \<Rightarrow> engine" where
  "load_state s en = en\<lparr>en_cursor := ss_cursor s,
     en_entries := foldl (\<lambda>m (p, raw). AList.update p (unpacked p raw) m) (en_entries en) (ss_entries s),
     en_remote := foldl (\<lambda>m (p, raw). AList.update p (remote_from raw) m) (en_remote en) (ss_remote s),
     en_pending := foldl (\<lambda>ps p. set_add p ps) (en_pending en) (ss_pending s)\<rparr>"

datatype start_error = Bad_index refusal | Session_refused protocol_error

text \<open>\<open>hello\<close> answers with the server's cursor or refuses.\<close>

definition start :: "(int \<Rightarrow> protocol_error + int) \<Rightarrow> json option \<Rightarrow> engine \<Rightarrow> start_error + engine" where
  "start hello stored en =
     (case validateStoredState stored of
        Inl e \<Rightarrow> Inl (Bad_index e)
      | Inr s \<Rightarrow>
          (let en1 = (case s of Some st \<Rightarrow> load_state st en | None \<Rightarrow> en)
           in case hello (en_cursor en1) of
                Inl e \<Rightarrow> Inl (Session_refused e)
              | Inr serverCursor \<Rightarrow>
                  (case refuseIfBehind serverCursor (en_cursor en1) of
                     Some e \<Rightarrow> Inl (Session_refused e)
                   | None \<Rightarrow> Inr en1)))"

section \<open>What can be saved\<close>

definition is_count :: "int \<Rightarrow> bool" where
  "is_count n \<longleftrightarrow> 0 \<le> n \<and> n \<le> MAX_SAFE"

definition entry_saveable :: "jstring \<times> index_entry \<Rightarrow> bool" where
  "entry_saveable pe \<longleftrightarrow> (case pe of (p, e) \<Rightarrow> is_path p \<and> ie_path e = p \<and> is_count (ie_ctime e) \<and>
     is_count (ie_mtime e) \<and> is_count (ie_size e) \<and> is_count (ie_syncuid e) \<and> is_count (ie_synctime e) \<and>
     list_all is_chunk_name (ie_chunks e))"

definition remote_saveable :: "jstring \<times> remote \<Rightarrow> bool" where
  "remote_saveable pr \<longleftrightarrow> (case pr of (p, r) \<Rightarrow> is_path p \<and> is_count (rs_uid r) \<and> rs_uid r \<noteq> 0 \<and>
     is_count (rs_mtime r) \<and> is_count (rs_size r) \<and>
     (case rm_heads r of None \<Rightarrow> True | Some h \<Rightarrow> distinct (map fst h) \<and> list_all (\<lambda>(q, u). is_path q \<and> is_count u) h))"

definition saveable :: "engine \<Rightarrow> bool" where
  "saveable en \<longleftrightarrow> is_count (en_cursor en) \<and> distinct_maps en \<and> distinct (en_pending en) \<and>
     list_all entry_saveable (en_entries en) \<and> list_all remote_saveable (en_remote en) \<and>
     (\<forall>p \<in> set (en_pending en). map_of (en_remote en) p \<noteq> None)"

section \<open>Records read back\<close>

lemma packed_field:
  "field (JObj (packed e)) k =
     (if k = lit ''hash'' \<and> ie_hash e = contentId (ie_chunks e) then None
      else if k = lit ''synchash'' \<and> ie_synchash e = ie_hash e then None
      else map_of (entry_obj e) k)"
  by (auto simp: packed_def field_def AList.delete_conv' Let_def simp del: lit_Cons lit_Nil)

lemma entry_field:
  "map_of (entry_obj e) (lit ''path'') = Some (JStr (ie_path e))"
  "map_of (entry_obj e) (lit ''prev'') = Some (JStr (ie_prev e))"
  "map_of (entry_obj e) (lit ''folder'') = Some (JBool (ie_folder e))"
  "map_of (entry_obj e) (lit ''ctime'') = Some (JNum (ie_ctime e))"
  "map_of (entry_obj e) (lit ''mtime'') = Some (JNum (ie_mtime e))"
  "map_of (entry_obj e) (lit ''size'') = Some (JNum (ie_size e))"
  "map_of (entry_obj e) (lit ''hash'') = Some (JStr (ie_hash e))"
  "map_of (entry_obj e) (lit ''chunks'') = Some (JArr (map JStr (ie_chunks e)))"
  "map_of (entry_obj e) (lit ''synchash'') = Some (JStr (ie_synchash e))"
  "map_of (entry_obj e) (lit ''syncuid'') = Some (JNum (ie_syncuid e))"
  "map_of (entry_obj e) (lit ''synctime'') = Some (JNum (ie_synctime e))"
  "map_of (entry_obj e) (lit ''changeId'') = map_option JStr (ie_changeId e)"
  by (simp_all add: entry_obj_def split: option.splits)

lemma lit_neq:
  "lit ''path'' \<noteq> lit ''hash''" "lit ''path'' \<noteq> lit ''synchash''" "lit ''prev'' \<noteq> lit ''hash''" "lit ''prev'' \<noteq> lit ''synchash''"
  "lit ''folder'' \<noteq> lit ''hash''" "lit ''folder'' \<noteq> lit ''synchash''" "lit ''ctime'' \<noteq> lit ''hash''" "lit ''ctime'' \<noteq> lit ''synchash''"
  "lit ''mtime'' \<noteq> lit ''hash''" "lit ''mtime'' \<noteq> lit ''synchash''" "lit ''size'' \<noteq> lit ''hash''" "lit ''size'' \<noteq> lit ''synchash''"
  "lit ''chunks'' \<noteq> lit ''hash''" "lit ''chunks'' \<noteq> lit ''synchash''" "lit ''syncuid'' \<noteq> lit ''hash''" "lit ''syncuid'' \<noteq> lit ''synchash''"
  "lit ''synctime'' \<noteq> lit ''hash''" "lit ''synctime'' \<noteq> lit ''synchash''" "lit ''changeId'' \<noteq> lit ''hash''" "lit ''changeId'' \<noteq> lit ''synchash''"
  "lit ''synchash'' \<noteq> lit ''hash''" "lit ''hash'' \<noteq> lit ''synchash''"
  by simp_all

lemmas packed_fields = packed_field entry_field lit_neq

lemma count_of_JNum [simp]: "count_of (JNum n) = (if is_count n then Some n else None)"
  by (simp add: count_of_def is_count_def)

lemma texts [simp]: "map (text_of \<circ> JStr) xs = xs"
  by (induction xs) simp_all

lemma unpacked_packed:
  assumes "entry_saveable (p, e)"
  shows "unpacked p (JObj (packed e)) = e"
  using assms
  by (cases e) (simp add: unpacked_def entry_saveable_def text_field_def int_field_def bool_field_def packed_fields
      newEntry_def Let_def del: lit_Cons lit_Nil split: option.splits)

lemma chunk_names_all: "list_all isChunkName (map JStr names) \<longleftrightarrow> list_all is_chunk_name names"
  by (auto simp: list_all_iff isChunkName_def)

text \<open>A synced entry's \<open>synchash\<close> is left out where it is the content hash, so the last check never sees one.\<close>

lemma packed_never_synced_without_chunks: "\<not> synced_without_chunks (JObj (packed e))"
  by (simp add: synced_without_chunks_def packed_fields del: lit_Cons lit_Nil split: option.splits json.splits)

lemma checkEntry_packed:
  assumes "entry_saveable (p, e)"
  shows "checkEntry (p, JObj (packed e)) = None"
  using assms
  by (simp add: checkEntry_def entry_saveable_def isObject_def isCount_def is_string_def is_boolean_def packed_fields
      packed_never_synced_without_chunks chunk_names_all Let_def del: lit_Cons lit_Nil split: option.splits)

lemma remote_field:
  "field (JObj (remote_obj r)) (lit ''uid'') = Some (JNum (rs_uid r))"
  "field (JObj (remote_obj r)) (lit ''folder'') = Some (JBool (rs_folder r))"
  "field (JObj (remote_obj r)) (lit ''deleted'') = Some (JBool (rs_deleted r))"
  "field (JObj (remote_obj r)) (lit ''mtime'') = Some (JNum (rs_mtime r))"
  "field (JObj (remote_obj r)) (lit ''size'') = Some (JNum (rs_size r))"
  "field (JObj (remote_obj r)) (lit ''hash'') = Some (JStr (rs_hash r))"
  "field (JObj (remote_obj r)) (lit ''wire'') = map_option JStr (rm_wire r)"
  "field (JObj (remote_obj r)) (lit ''heads'') = map_option (\<lambda>h. JObj (heads_obj h)) (rm_heads r)"
  by (simp_all add: remote_obj_def field_def split: option.splits)

lemma checkRemote_obj:
  assumes "remote_saveable (p, r)"
  shows "checkRemote (p, JObj (remote_obj r)) = None"
  using assms
  by (auto simp: checkRemote_def remote_saveable_def isObject_def isCount_def is_string_def is_boolean_def remote_field
      heads_obj_def list_all_iff Let_def simp del: lit_Cons lit_Nil split: option.splits)

lemma heads_back:
  "list_all (\<lambda>(q, u). is_path q \<and> is_count u) h \<Longrightarrow>
     map (\<lambda>(p, v). (p, case count_of v of Some n \<Rightarrow> n | None \<Rightarrow> 0)) (heads_obj h) = h"
  by (induction h) (auto simp: heads_obj_def)

lemma remote_from_obj:
  assumes "remote_saveable (p, r)"
  shows "remote_from (JObj (remote_obj r)) = r"
  using assms
  by (cases r) (auto simp: remote_from_def remote_saveable_def int_field_def bool_field_def text_field_def remote_field
      heads_back simp del: lit_Cons lit_Nil split: option.splits)

section \<open>States read back\<close>

lemma keys_map_snd [simp]: "map (fst \<circ> (\<lambda>(p, e). (p, f e))) m = map fst m"
  by (induction m) auto

lemma map_of_map_snd: "map_of (map (\<lambda>(p, e). (p, f e)) m) p = map_option f (map_of m p)"
  by (induction m) auto

lemma obj_ok_entry: "obj_ok (packed e)"
proof -
  have "obj_ok (entry_obj e)"
    by (auto simp: obj_ok_def entry_obj_def list_all_iff split: option.splits)
  moreover have "obj_ok (AList.delete k m)" if "obj_ok m" for k m
    using that AList.distinct_delete [of m k] by (auto simp: obj_ok_def list_all_iff AList.delete_eq)
  ultimately show ?thesis by (simp add: packed_def Let_def)
qed

lemma obj_ok_remote:
  assumes "remote_saveable (p, r)"
  shows "obj_ok (remote_obj r)"
proof -
  have "json_ok (JObj (heads_obj h))" if "rm_heads r = Some h" for h
  proof -
    have "map fst (heads_obj h) = map fst h" by (simp add: heads_obj_def)
    then show ?thesis using assms that by (auto simp: remote_saveable_def list_all_iff heads_obj_def)
  qed
  then show ?thesis
    by (auto simp: obj_ok_def remote_obj_def simp del: json_ok.simps(3) split: option.splits)
qed

lemma good_save_state:
  assumes "saveable en"
  shows "good (save_state en)"
proof -
  have "obj_ok (ss_entries (save_state en))"
    using assms obj_ok_entry by (auto simp: save_state_def saveable_def distinct_maps_def obj_ok_def list_all_iff)
  moreover have "obj_ok (ss_remote (save_state en))"
    using assms obj_ok_remote
    by (fastforce simp: save_state_def saveable_def distinct_maps_def obj_ok_def list_all_iff)
  moreover have "usable (save_state en)"
    using assms checkEntry_packed checkRemote_obj
    by (fastforce simp: usable_def save_state_def saveable_def is_count_def list_all_iff map_of_map_snd remote_saveable_def
        dest: map_of_SomeD)
  ultimately show ?thesis by (simp add: good_def state_ok_def)
qed

lemma fold_update_map_of:
  "distinct (map fst kvs) \<Longrightarrow>
     map_of (foldl (\<lambda>m (p, raw). AList.update p (f p raw) m) m0 kvs) p =
       (case map_of kvs p of Some raw \<Rightarrow> Some (f p raw) | None \<Rightarrow> map_of m0 p)"
proof (induction kvs arbitrary: m0)
  case (Cons kv kvs)
  have "map_of kvs (fst kv) = None" using Cons.prems by (simp add: map_of_eq_None_iff)
  then show ?case using Cons
    by (cases kv) (simp add: AList.update_conv' split: option.splits)
qed simp

lemma set_add_fold: "distinct ps \<Longrightarrow> set ps \<inter> set qs = {} \<Longrightarrow> foldl (\<lambda>ps p. set_add p ps) qs ps = qs @ ps"
  by (induction ps arbitrary: qs) (auto simp: set_add_def)

text \<open>Two engines that hold the same, whatever the order of their maps.\<close>

definition same_engine :: "engine \<Rightarrow> engine \<Rightarrow> bool" where
  "same_engine a b \<longleftrightarrow> en_cursor a = en_cursor b \<and> en_pending a = en_pending b \<and>
     map_of (en_entries a) = map_of (en_entries b) \<and> map_of (en_remote a) = map_of (en_remote b)"

lemma load_save:
  assumes "saveable en" and "good s'" and "same_fold (fold_of s') (fold_of (save_state en))"
  shows "same_engine (load_state s' fresh_engine) en"
proof -
  have maps: "map_of (ss_entries s') p = map_of (ss_entries (save_state en)) p"
    "map_of (ss_remote s') p = map_of (ss_remote (save_state en)) p" for p
    using assms(3) by (simp_all add: same_fold_def fold_of_def same_map_def)
  have rest: "ss_cursor s' = en_cursor en" "ss_pending s' = en_pending en"
    using assms(3) by (auto simp: same_fold_def fold_of_def save_state_def dest: map_injective simp: inj_def)
  have distinct: "distinct (map fst (ss_entries s'))" "distinct (map fst (ss_remote s'))"
    using assms(2) by (simp_all add: good_def state_ok_def obj_ok_def)
  have "map_of (en_entries (load_state s' fresh_engine)) p = map_of (en_entries en) p" for p
  proof -
    have "unpacked p (JObj (packed e)) = e" if "map_of (en_entries en) p = Some e" for e
      using assms(1) that unpacked_packed by (auto simp: saveable_def list_all_iff dest: map_of_SomeD)
    then show ?thesis
      by (simp add: load_state_def fresh_engine_def fold_update_map_of [OF distinct(1)] maps(1) save_state_def map_of_map_snd
          split: option.splits)
  qed
  moreover have "map_of (en_remote (load_state s' fresh_engine)) p = map_of (en_remote en) p" for p
  proof -
    have "remote_from (JObj (remote_obj r)) = r" if "map_of (en_remote en) p = Some r" for r
      using assms(1) map_of_SomeD [OF that] remote_from_obj unfolding saveable_def list_all_iff by blast
    then show ?thesis
      by (simp add: load_state_def fresh_engine_def fold_update_map_of [OF distinct(2)] maps(2) save_state_def map_of_map_snd
          split: option.splits)
  qed
  moreover have "en_pending (load_state s' fresh_engine) = en_pending en"
    using assms(1) rest(2) set_add_fold [of "en_pending en" "[]"]
    by (simp add: load_state_def fresh_engine_def saveable_def)
  ultimately show ?thesis using rest(1) by (auto simp: same_engine_def load_state_def)
qed

lemma start_accepts:
  assumes "\<And>c. \<exists>n. hello c = Inr n \<and> c \<le> n" and "validateStoredState stored = Inr s"
  shows "start hello stored en = Inr (case s of Some st \<Rightarrow> load_state st en | None \<Rightarrow> en)"
proof -
  let ?c = "en_cursor (case s of Some st \<Rightarrow> load_state st en | None \<Rightarrow> en)"
  obtain n where "hello ?c = Inr n" "?c \<le> n" using assms(1) by blast
  then show ?thesis using assms(2) by (simp add: start_def refuseIfBehind_def Let_def)
qed

section \<open>Properties\<close>



text \<open>A file dated before 1970 costs the device its index. Once a listing has reported such a time for a
  path (filesystems hold them, and no listing rounds them up), the index is saved with it, and the next
  start refuses the whole saved state, since a time there has to be a count.\<close>

theorem old_file_spoils_the_index:
  assumes "map_of (en_entries en) p = Some e" and "\<not> ob_folder obs" and "ob_mtime obs \<le> -1"
  shows "\<exists>r. start hello (Some (state_json (save_state
      (en\<lparr>en_entries := AList.update p (observe e obs) (en_entries en)\<rparr>)))) fresh_engine = Inl (Bad_index r)"
proof -
  let ?e = "observe e obs" and ?s = "save_state (en\<lparr>en_entries := AList.update p (observe e obs) (en_entries en)\<rparr>)"
  have "\<lceil>ob_mtime obs\<rceil> < 0" using assms(3) by (simp add: ceiling_less_iff)
  then have neg: "\<not> is_count (ie_mtime ?e)"
    using observe_file_stat [OF assms(2), of e] by (simp add: is_count_def)
  have "(p, ?e) \<in> set (AList.update p ?e (en_entries en))"
    by (rule map_of_SomeD) (simp add: AList.update_conv')
  then have mem: "(p, JObj (packed ?e)) \<in> set (ss_entries ?s)" by (force simp: save_state_def)
  have "checkEntry (p, JObj (packed ?e)) \<noteq> None"
    using neg by (simp add: checkEntry_def isCount_def packed_fields Let_def del: lit_Cons lit_Nil split: option.splits)
  note bad = this
  have "field (state_json ?s) (lit ''entries'') = Some (JObj (ss_entries ?s))"
    by (simp add: state_json_def field_Cons)
  then have "validateStoredState (Some (state_json ?s)) \<noteq> Inr (Some s)" for s
    using bad mem unfolding validate_Some usable_def by auto
  moreover have "validateStoredState (Some r) \<noteq> Inr None" for r
    by (auto simp: validateStoredState_def split: if_splits option.splits json.splits)
  ultimately obtain r where "validateStoredState (Some (state_json ?s)) = Inl r"
    by (metis not_Some_eq obj_sumE)
  then show ?thesis by (simp add: start_def)
qed

lemma old_file_spoils_the_index_witness:
  "\<exists>r. start Inr (Some (state_json (save_state (fresh_engine\<lparr>en_entries := [([97],
      observe (newEntry [97]) \<lparr>ob_folder = False, ob_mtime = -1, ob_ctime = 0, ob_size = 3, ob_changeId = None\<rparr>)]\<rparr>))))
      fresh_engine = Inl (Bad_index r)"
  using old_file_spoils_the_index [of "fresh_engine\<lparr>en_entries := [([97], newEntry [97])]\<rparr>" "[97]" "newEntry [97]"
      "\<lparr>ob_folder = False, ob_mtime = -1, ob_ctime = 0, ob_size = 3, ob_changeId = None\<rparr>" Inr]
  by simp

end
