(* ===== verification/Utf8.thy ===== *)
theory Utf8
  imports Encoding
begin

text \<open>
  \<open>new TextDecoder().decode(bytes)\<close>, as \<open>client/src/core/crypto.ts\<close> uses it to read a sealed path: the
  Encoding Standard's UTF-8 decoder, malformed input replaced by U+FFFD and a leading byte order mark
  dropped; and that it undoes \<open>TextEncoder\<close> on text without lone surrogates.
\<close>

section \<open>The decoder\<close>

definition replacement :: jchar where "replacement = 0xfffd"

text \<open>A code point as UTF-16 units.\<close>

definition units_of :: "nat \<Rightarrow> jstring" where
  "units_of cp =
     (if cp < 0x10000 then [of_nat cp]
      else [of_nat (0xd800 + (cp - 0x10000) div 0x400), of_nat (0xdc00 + (cp - 0x10000) mod 0x400)])"

text \<open>A lead byte: the code point so far, the bytes still needed, and the range of the next one.\<close>

definition utf8_lead :: "nat \<Rightarrow> (nat \<times> nat \<times> nat \<times> nat) option" where
  "utf8_lead n =
     (if 0xc2 \<le> n \<and> n \<le> 0xdf then Some (n - 0xc0, 1, 0x80, 0xbf)
      else if 0xe0 \<le> n \<and> n \<le> 0xef then
        Some (n - 0xe0, 2, if n = 0xe0 then 0xa0 else 0x80, if n = 0xed then 0x9f else 0xbf)
      else if 0xf0 \<le> n \<and> n \<le> 0xf4 then
        Some (n - 0xf0, 3, if n = 0xf0 then 0x90 else 0x80, if n = 0xf4 then 0x8f else 0xbf)
      else None)"

text \<open>A byte out of range ends the sequence with U+FFFD and is read again as a lead.\<close>

function utf8_run :: "nat \<times> nat \<times> nat \<times> nat \<Rightarrow> bytes \<Rightarrow> jstring" where
  "utf8_run (cp, need, lower, upper) [] = (if need = 0 then [] else [replacement])"
| "utf8_run (cp, need, lower, upper) (b # bs) =
     (if need = 0 then
        (if unat b < 0x80 then of_nat (unat b) # utf8_run (0, 0, 0, 0) bs
         else case utf8_lead (unat b) of
             Some s \<Rightarrow> utf8_run s bs
           | None \<Rightarrow> replacement # utf8_run (0, 0, 0, 0) bs)
      else if lower \<le> unat b \<and> unat b \<le> upper then
        (let cp' = cp * 64 + (unat b - 0x80) in
         if need = 1 then units_of cp' @ utf8_run (0, 0, 0, 0) bs
         else utf8_run (cp', need - 1, 0x80, 0xbf) bs)
      else replacement # utf8_run (0, 0, 0, 0) (b # bs))"
  by pat_completeness auto

termination
  by (relation "measure (\<lambda>((cp, need, lower, upper), bs). 2 * length bs + (if need = 0 then 0 else 1))") auto

definition utf8_decode :: "bytes \<Rightarrow> jstring" where
  "utf8_decode bs = utf8_run (0, 0, 0, 0) (if take 3 bs = [0xef, 0xbb, 0xbf] then drop 3 bs else bs)"

fun well_formed :: "jstring \<Rightarrow> bool" where
  "well_formed [] \<longleftrightarrow> True"
| "well_formed [c] \<longleftrightarrow> \<not> is_high c \<and> \<not> is_low c"
| "well_formed (c # d # s) \<longleftrightarrow>
     (if is_high c \<and> is_low d then well_formed s else \<not> is_high c \<and> \<not> is_low c \<and> well_formed (d # s))"

section \<open>Arithmetic of the encoder\<close>

lemma nat_or_add:
  fixes a m :: nat
  assumes "2 ^ k dvd a" and "m < 2 ^ k"
  shows "a OR m = a + m"
proof -
  have "\<not> bit a n \<or> \<not> bit m n" for n
  proof (cases "n < k")
    case True
    from assms(1) obtain q where "a = push_bit k q" by (auto simp: push_bit_eq_mult mult.commute)
    with True show ?thesis by (simp add: bit_push_bit_iff)
  next
    case False
    have "take_bit k m = m" using assms(2) by (simp add: take_bit_nat_eq_self)
    with False show ?thesis by (metis bit_take_bit_iff)
  qed
  then show ?thesis by (simp add: disjunctive_add)
qed

lemma nat_and_mask: "(n :: nat) AND 0x3f = n mod 64" "(n :: nat) AND 0x3ff = n mod 1024"
proof -
  have "(0x3f :: nat) = mask 6" "(0x3ff :: nat) = mask 10" by (simp_all add: mask_eq_exp_minus_1)
  then show "n AND 0x3f = n mod 64" "n AND 0x3ff = n mod 1024"
    by (simp_all only: take_bit_eq_mask [symmetric] take_bit_eq_mod) simp_all
qed

lemma unat_or: "unat (a OR b) = unat a OR unat b"
  by (rule unsigned_or_eq)

lemma unat_byte_of: "unat (ucast (c :: 'a::len word) :: byte) = unat c mod 256"
  by (simp add: unsigned_ucast_eq take_bit_eq_mod)

lemma unat_drop: "unat (drop_bit k (c :: 'a::len word)) = unat c div 2 ^ k"
proof -
  have "unat c < 2 ^ LENGTH('a)" by (rule unsigned_less)
  then show ?thesis by (simp only: unsigned_drop_bit_eq) (simp add: drop_bit_eq_div take_bit_nat_eq_self)
qed

lemma byte_conts:
  "unat (0x80 OR ucast ((c :: 16 word) AND 0x3f) :: byte) = 0x80 + unat c mod 64"
  "unat (0x80 OR ucast ((p :: 32 word) AND 0x3f) :: byte) = 0x80 + unat p mod 64"
proof -
  have "n mod 64 mod 256 = n mod 64" for n :: nat by (simp add: mod_less)
  moreover have "(0x80 :: nat) OR n mod 64 = 0x80 + n mod 64" for n by (rule nat_or_add [of 6]) simp_all
  ultimately show "unat (0x80 OR ucast (c AND 0x3f) :: byte) = 0x80 + unat c mod 64"
    "unat (0x80 OR ucast (p AND 0x3f) :: byte) = 0x80 + unat p mod 64"
    by (simp_all add: unat_or unat_byte_of unsigned_and_eq nat_and_mask mod_mod_cancel)
qed

lemma byte_leads:
  "unat c < 0x800 \<Longrightarrow> unat (0xc0 OR ucast (drop_bit 6 (c :: 16 word)) :: byte) = 0xc0 + unat c div 64"
  "unat (0xe0 OR ucast (drop_bit 12 (c :: 16 word)) :: byte) = 0xe0 + unat c div 4096"
  "unat p < 0x110000 \<Longrightarrow> unat (0xf0 OR ucast (drop_bit 18 (p :: 32 word)) :: byte) = 0xf0 + unat p div 262144"
proof -
  have "unat c < 2 ^ LENGTH(16)" by (rule unsigned_less)
  then have c: "unat c < 65536" by simp
  show "unat (0xe0 OR ucast (drop_bit 12 c) :: byte) = 0xe0 + unat c div 4096"
    using nat_or_add [of 4 "0xe0" "unat c div 4096"] c by (simp add: unat_or unat_byte_of unat_drop less_mult_imp_div_less)
  show "unat c < 0x800 \<Longrightarrow> unat (0xc0 OR ucast (drop_bit 6 c) :: byte) = 0xc0 + unat c div 64"
    using nat_or_add [of 5 "0xc0" "unat c div 64"] by (simp add: unat_or unat_byte_of unat_drop less_mult_imp_div_less)
  show "unat p < 0x110000 \<Longrightarrow> unat (0xf0 OR ucast (drop_bit 18 p) :: byte) = 0xf0 + unat p div 262144"
    using nat_or_add [of 4 "0xf0" "unat p div 262144"] by (simp add: unat_or unat_byte_of unat_drop less_mult_imp_div_less)
qed

section \<open>Decoding undoes encoding\<close>

lemma jchar_of_nat: "of_nat (unat (c :: jchar)) = c"
  by simp

lemma jchar_bound: "unat (c :: jchar) < 65536"
proof -
  have "unat c < 2 ^ LENGTH(16)" by (rule unsigned_less)
  then show ?thesis by simp
qed

lemma surrogates_nat:
  "is_high c \<longleftrightarrow> 0xd800 \<le> unat c \<and> unat c \<le> 0xdbff"
  "is_low c \<longleftrightarrow> 0xdc00 \<le> unat c \<and> unat c \<le> 0xdfff"
  by (simp_all add: is_high_def is_low_def word_le_nat_alt)

text \<open>A number in base 64.\<close>

lemma base64_digits:
  fixes n :: nat
  shows "(n div 4096 * 64 + n div 64 mod 64) * 64 + n mod 64 = n"
    "((n div 262144 * 64 + n div 4096 mod 64) * 64 + n div 64 mod 64) * 64 + n mod 64 = n"
proof -
  have q: "n div 4096 = n div 64 div 64" "n div 262144 = n div 64 div 64 div 64"
    using div_mult2_eq [of n 64 64] div_mult2_eq [of n 64 4096] div_mult2_eq [of "n div 64" 64 64] by simp_all
  show "(n div 4096 * 64 + n div 64 mod 64) * 64 + n mod 64 = n"
    by (simp only: q(1) div_mult_mod_eq)
  show "((n div 262144 * 64 + n div 4096 mod 64) * 64 + n div 64 mod 64) * 64 + n mod 64 = n"
    by (simp only: q div_mult_mod_eq)
qed

lemma three_bounds:
  fixes h m r n :: nat
  assumes "(h * 64 + m) * 64 + r = n" and "m < 64" and "r < 64"
  shows "n < 65536 \<Longrightarrow> h \<le> 15" "0x800 \<le> n \<Longrightarrow> h = 0 \<Longrightarrow> 0x20 \<le> m" "n < 0xd800 \<or> 0xdfff < n \<Longrightarrow> h = 13 \<Longrightarrow> m < 0x20"
proof -
  have n: "n = 4096 * h + 64 * m + r" using assms(1) by (simp add: distrib_right)
  show "n < 65536 \<Longrightarrow> h \<le> 15" using n by linarith
  show "0x800 \<le> n \<Longrightarrow> h = 0 \<Longrightarrow> 0x20 \<le> m" using n assms(3) by simp
  show "n < 0xd800 \<or> 0xdfff < n \<Longrightarrow> h = 13 \<Longrightarrow> m < 0x20" using n assms(2,3) by auto
qed

lemma four_bounds:
  fixes a b m r n :: nat
  assumes "((a * 64 + b) * 64 + m) * 64 + r = n" and "b < 64" and "m < 64" and "r < 64" and "0x10000 \<le> n" and "n < 0x110000"
  shows "a \<le> 4" "a = 0 \<Longrightarrow> 0x10 \<le> b" "a = 4 \<Longrightarrow> b < 0x10"
proof -
  have n: "n = 262144 * a + 4096 * b + 64 * m + r" using assms(1) by (simp add: distrib_right)
  show "a \<le> 4" using n assms(6) by linarith
  show "a = 0 \<Longrightarrow> 0x10 \<le> b" using n assms(3-5) by simp
  show "a = 4 \<Longrightarrow> b < 0x10" using n assms(6) by simp
qed

lemma run_lead: "0x80 \<le> unat b \<Longrightarrow> utf8_lead (unat b) = Some s \<Longrightarrow> utf8_run (0, 0, 0, 0) (b # bs) = utf8_run s bs"
  by simp

lemma run_three:
  assumes "unat b0 = 0xe0 + h" "unat b1 = 0x80 + m" "unat b2 = 0x80 + r" and "m < 64" "r < 64"
    and "h \<le> 15" "h = 0 \<Longrightarrow> 0x20 \<le> m" "h = 13 \<Longrightarrow> m < 0x20"
  shows "utf8_run (0, 0, 0, 0) (b0 # b1 # b2 # bs) = units_of ((h * 64 + m) * 64 + r) @ utf8_run (0, 0, 0, 0) bs"
proof -
  have lead: "utf8_lead (unat b0) = Some (h, 2, if h = 0 then 0xa0 else 0x80, if h = 13 then 0x9f else 0xbf)"
    using assms(1,6) by (simp add: utf8_lead_def)
  have "m \<le> 63" "r \<le> 63" "h = 13 \<Longrightarrow> m \<le> 31" using assms(4,5,8) by simp_all
  moreover have "utf8_run (0, 0, 0, 0) (b0 # b1 # b2 # bs) =
      utf8_run (h, 2, if h = 0 then 0xa0 else 0x80, if h = 13 then 0x9f else 0xbf) (b1 # b2 # bs)"
    by (rule run_lead [OF _ lead]) (simp add: assms(1))
  ultimately show ?thesis using assms(2,3,7) by (cases "h = 0"; cases "h = 13") (simp_all add: Let_def)
qed

lemma run_four:
  assumes "unat b0 = 0xf0 + a" "unat b1 = 0x80 + b" "unat b2 = 0x80 + m" "unat b3 = 0x80 + r" and "b < 64" "m < 64" "r < 64"
    and "a \<le> 4" "a = 0 \<Longrightarrow> 0x10 \<le> b" "a = 4 \<Longrightarrow> b < 0x10"
  shows "utf8_run (0, 0, 0, 0) (b0 # b1 # b2 # b3 # bs) =
    units_of (((a * 64 + b) * 64 + m) * 64 + r) @ utf8_run (0, 0, 0, 0) bs"
proof -
  have lead: "utf8_lead (unat b0) = Some (a, 3, if a = 0 then 0x90 else 0x80, if a = 4 then 0x8f else 0xbf)"
    using assms(1,8) by (simp add: utf8_lead_def)
  have "b \<le> 63" "m \<le> 63" "r \<le> 63" "a = 4 \<Longrightarrow> b \<le> 15" using assms(5-7,10) by simp_all
  moreover have "utf8_run (0, 0, 0, 0) (b0 # b1 # b2 # b3 # bs) =
      utf8_run (a, 3, if a = 0 then 0x90 else 0x80, if a = 4 then 0x8f else 0xbf) (b1 # b2 # b3 # bs)"
    by (rule run_lead [OF _ lead]) (simp add: assms(1))
  ultimately show ?thesis using assms(2-4,9) by (cases "a = 0"; cases "a = 4") (simp_all add: Let_def)
qed

lemma run_unit:
  assumes "\<not> is_high c" and "\<not> is_low c"
  shows "utf8_run (0, 0, 0, 0) (encode_unit c @ bs) = c # utf8_run (0, 0, 0, 0) bs"
proof -
  let ?n = "unat c"
  consider "?n < 0x80" | "0x80 \<le> ?n" "?n < 0x800" | "0x800 \<le> ?n" by linarith
  then show ?thesis
  proof cases
    case 1
    then have "encode_unit c = [ucast c]" by (simp add: encode_unit_def word_less_nat_alt)
    with 1 show ?thesis by (simp add: unat_byte_of)
  next
    case 2
    have e: "encode_unit c = [0xc0 OR ucast (drop_bit 6 c), 0x80 OR ucast (c AND 0x3f)]"
      using 2 by (simp add: encode_unit_def word_less_nat_alt)
    have d: "2 \<le> ?n div 64" "?n div 64 < 32" using 2 by (simp_all add: less_mult_imp_div_less)
    have "?n mod 64 < 64" by simp
    then have "?n div 64 * 64 + ?n mod 64 = ?n" "?n mod 64 \<le> 63" "?n div 64 \<le> 31" using d by (simp, linarith, linarith)
    with 2 d show ?thesis
      by (simp add: e byte_leads byte_conts utf8_lead_def units_of_def Let_def)
  next
    case 3
    have s: "?n < 0xd800 \<or> 0xdfff < ?n" using assms by (auto simp: surrogates_nat)
    have e: "encode_unit c = [0xe0 OR ucast (drop_bit 12 c), 0x80 OR ucast (drop_bit 6 c AND 0x3f), 0x80 OR ucast (c AND 0x3f)]"
      using 3 assms by (simp add: encode_unit_def word_less_nat_alt)
    let ?h = "?n div 4096" and ?m = "?n div 64 mod 64"
    have whole: "(?h * 64 + ?m) * 64 + ?n mod 64 = ?n" by (rule base64_digits)
    note h = three_bounds [OF whole mod_less_divisor mod_less_divisor]
    have m: "unat (drop_bit 6 c) mod 64 = ?m" by (simp add: unat_drop)
    have "utf8_run (0, 0, 0, 0) (encode_unit c @ bs) = units_of ((?h * 64 + ?m) * 64 + ?n mod 64) @ utf8_run (0, 0, 0, 0) bs"
      unfolding e append_Cons append_Nil
      by (rule run_three [OF byte_leads(2) byte_conts(1) [of "drop_bit 6 c", unfolded m] byte_conts(1)])
        (use h jchar_bound [of c] 3 s in simp_all)
    then show ?thesis unfolding whole by (simp add: units_of_def jchar_bound)
  qed
qed

lemma run_pair:
  assumes "is_high c" and "is_low d"
  shows "utf8_run (0, 0, 0, 0) (encode_pair c d @ bs) = c # d # utf8_run (0, 0, 0, 0) bs"
proof -
  let ?h = "unat c - 0xd800" and ?l = "unat d - 0xdc00"
  have c: "0xd800 \<le> unat c" "unat c \<le> 0xdbff" and d: "0xdc00 \<le> unat d" "unat d \<le> 0xdfff"
    using assms by (simp_all add: surrogates_nat)
  let ?p = "0x10000 + push_bit 10 (ucast (c AND 0x3ff)) + ucast (d AND 0x3ff) :: 32 word"
  let ?n = "0x10000 + ?h * 1024 + ?l"
  have small: "unat c = 54 * 1024 + ?h" "?h < 1024" "unat d = 55 * 1024 + ?l" "?l < 1024" using c d by linarith+
  then have low: "unat c mod 1024 = ?h" "unat d mod 1024 = ?l" by (metis mod_less mod_mult_self3)+
  have parts: "unat (ucast (c AND 0x3ff) :: 32 word) = ?h" "unat (ucast (d AND 0x3ff) :: 32 word) = ?l"
    using low by (simp_all add: unsigned_ucast_eq unsigned_and_eq nat_and_mask take_bit_nat_eq_self)
  have q: "unat (push_bit 10 (ucast (c AND 0x3ff)) :: 32 word) = ?h * 1024"
    using c by (simp only: unsigned_push_bit_eq parts) (simp add: push_bit_eq_mult take_bit_nat_eq_self)
  have "unat (0x10000 + push_bit 10 (ucast (c AND 0x3ff)) :: 32 word) = 0x10000 + ?h * 1024"
    using c by (subst unat_add_lem [THEN iffD1]) (simp_all only: q, simp_all)
  then have p: "unat ?p = ?n"
    using c d by (subst unat_add_lem [THEN iffD1]) (simp_all only: parts, simp_all)
  have e: "encode_pair c d = [0xf0 OR ucast (drop_bit 18 ?p), 0x80 OR ucast (drop_bit 12 ?p AND 0x3f),
      0x80 OR ucast (drop_bit 6 ?p AND 0x3f), 0x80 OR ucast (?p AND 0x3f)]"
    by (simp only: encode_pair_def Let_def)
  have n: "0x10000 \<le> ?n" "?n < 0x110000" using c d by linarith+
  let ?a = "?n div 262144" and ?b = "?n div 4096 mod 64" and ?m = "?n div 64 mod 64"
  have bytes: "map unat (encode_pair c d) = [0xf0 + ?a, 0x80 + ?b, 0x80 + ?m, 0x80 + ?n mod 64]"
    using n p by (simp only: e list.map byte_leads(3) byte_conts unat_drop) simp
  have whole: "((?a * 64 + ?b) * 64 + ?m) * 64 + ?n mod 64 = ?n" by (rule base64_digits)
  have units: "units_of ?n = [c, d]"
  proof -
    have "(?h * 1024 + ?l) div 1024 = ?h" "(?h * 1024 + ?l) mod 1024 = ?l" using small(4) by simp_all
    moreover have "?n - 0x10000 = ?h * 1024 + ?l" by simp
    ultimately have "of_nat (0xd800 + (?n - 0x10000) div 0x400) = c" "of_nat (0xdc00 + (?n - 0x10000) mod 0x400) = d"
      using c d by simp_all
    then show ?thesis using n(1) unfolding units_of_def by (simp only: not_less [symmetric] if_False)
  qed
  obtain b0 b1 b2 b3 where b: "encode_pair c d = [b0, b1, b2, b3]" by (simp only: e)
  have u: "unat b0 = 0xf0 + ?a" "unat b1 = 0x80 + ?b" "unat b2 = 0x80 + ?m" "unat b3 = 0x80 + ?n mod 64"
    using bytes by (simp_all only: b list.map list.inject)
  have "utf8_run (0, 0, 0, 0) (b0 # b1 # b2 # b3 # bs) = units_of (((?a * 64 + ?b) * 64 + ?m) * 64 + ?n mod 64) @ utf8_run (0, 0, 0, 0) bs"
    by (rule run_four [OF u]) (rule mod_less_divisor four_bounds [OF whole]; use n in simp)+
  then show ?thesis by (simp only: b whole units append_Cons append_Nil)
qed

lemma decode_encoded: "well_formed s \<Longrightarrow> utf8_run (0, 0, 0, 0) (utf8_encode s) = s"
proof (induction s rule: well_formed.induct)
  case (2 c)
  then show ?case using run_unit [of c "[]"] by simp
next
  case (3 c d s)
  then show ?case by (cases "is_high c \<and> is_low d") (simp_all add: run_unit run_pair split: if_splits)
qed simp

lemma utf8_encode_inj: "well_formed s \<Longrightarrow> well_formed t \<Longrightarrow> utf8_encode s = utf8_encode t \<Longrightarrow> s = t"
  by (metis decode_encoded)

end
