(* ===== verification/Crypto.thy ===== *)
theory Crypto
  imports Wire Chunker Utf8
begin

text \<open>
  \<open>client/src/core/crypto.ts\<close>: the encodings, what an entry's authenticator covers, and how a chunk and a
  path are sealed. WebCrypto's AES-GCM, HMAC and SHA-256 and fflate's codec are parameters; keys are
  bytes. Errors are values of \<open>crypto_error\<close>.
\<close>

section \<open>Encodings\<close>

definition hex :: "bytes \<Rightarrow> jstring" where
  "hex bs = concat (map (\<lambda>b. [hex_digit (unat b div 16), hex_digit (unat b mod 16)]) bs)"

definition B64URL :: jstring where
  "B64URL = lit ''ABCDEFGHIJKLMNOPQRSTUVWXYZabcdefghijklmnopqrstuvwxyz0123456789-_''"

definition b64_char :: "byte \<Rightarrow> jchar" where
  "b64_char v = B64URL ! unat v"

fun base64urlEncode :: "bytes \<Rightarrow> jstring" where
  "base64urlEncode [] = []"
| "base64urlEncode [b0] = [b64_char (drop_bit 2 b0), b64_char (push_bit 4 (b0 AND 0x03))]"
| "base64urlEncode [b0, b1] =
     [b64_char (drop_bit 2 b0), b64_char (push_bit 4 (b0 AND 0x03) OR drop_bit 4 b1),
      b64_char (push_bit 2 (b1 AND 0x0f))]"
| "base64urlEncode (b0 # b1 # b2 # bs) =
     [b64_char (drop_bit 2 b0), b64_char (push_bit 4 (b0 AND 0x03) OR drop_bit 4 b1),
      b64_char (push_bit 2 (b1 AND 0x0f) OR drop_bit 6 b2), b64_char (b2 AND 0x3f)] @ base64urlEncode bs"

text \<open>\<open>B64URL_INDEX\<close>: the value of a character, None where the table holds -1 or has no place for it.\<close>

definition b64_index :: "jchar \<Rightarrow> 32 word option" where
  "b64_index c =
     (if 65 \<le> c \<and> c \<le> 90 then Some (ucast c - 65)
      else if 97 \<le> c \<and> c \<le> 122 then Some (ucast c - 71)
      else if 48 \<le> c \<and> c \<le> 57 then Some (ucast c + 4)
      else if c = 45 then Some 62
      else if c = 95 then Some 63
      else None)"

datatype crypto_error =
    Bad_base64_character nat
  | Base64_length
  | Base64_spare_bits
  | Too_short nat
  | Not_authentic
  | No_marker
  | Too_big
  | Not_deflated
  | Unknown_marker byte
  | Keying_material nat
  | Wrong_root
  | Data_key_length nat
  | Invite_key_length nat
  | Wrong_invite_key
  | Invite_secret_length nat

text \<open>The loop: position, accumulator (32 bits, as \<open><<\<close> and \<open>|\<close> keep it), bits not yet used.\<close>

fun b64_loop :: "nat \<Rightarrow> 32 word \<Rightarrow> nat \<Rightarrow> jstring \<Rightarrow> crypto_error + bytes" where
  "b64_loop i acc bits [] =
     (if bits = 6 then Inl Base64_length
      else if bits > 0 \<and> acc AND (push_bit bits 1 - 1) \<noteq> 0 then Inl Base64_spare_bits
      else Inr [])"
| "b64_loop i acc bits (c # s) =
     (case b64_index c of
        None \<Rightarrow> Inl (Bad_base64_character i)
      | Some v \<Rightarrow>
          (let acc' = push_bit 6 acc OR v in
           if bits + 6 \<ge> 8 then
             try_then (b64_loop (i + 1) acc' (bits - 2) s)
               (\<lambda>rest. Inr (ucast (drop_bit (bits - 2) acc' AND 0xff) # rest))
           else b64_loop (i + 1) acc' (bits + 6) s))"

definition base64urlDecode :: "jstring \<Rightarrow> crypto_error + bytes" where
  "base64urlDecode s = b64_loop 0 0 0 s"

lemma b64_alphabet: "length B64URL = 64" "map b64_index B64URL = map (\<lambda>n. Some (of_nat n)) [0..<64]"
  by (simp_all add: B64URL_def b64_index_def upt_rec)

lemma b64_values:
  assumes "n < 64"
  shows "b64_index (B64URL ! n) = Some (of_nat n)"
proof -
  have "map b64_index B64URL ! n = map (\<lambda>n. Some (of_nat n)) [0..<64] ! n" by (simp only: b64_alphabet)
  then show ?thesis using assms b64_alphabet(1) by simp
qed

lemma in_range:
  assumes "a \<le> c" and "c \<le> (b :: jchar)"
  shows "c \<in> set (map of_nat [unat a..<unat b + 1])"
proof -
  have "unat a \<le> unat c" "unat c \<le> unat b" using assms by (simp_all add: word_le_nat_alt)
  then have "of_nat (unat c) \<in> (of_nat :: nat \<Rightarrow> jchar) ` set [unat a..<unat b + 1]"  by (intro imageI) (simp, linarith)
  then show ?thesis by simp
qed

lemma b64_index_member: "b64_index c \<noteq> None \<Longrightarrow> c \<in> set B64URL"
proof -
  assume "b64_index c \<noteq> None"
  then consider "65 \<le> c \<and> c \<le> 90" | "97 \<le> c \<and> c \<le> 122" | "48 \<le> c \<and> c \<le> 57" | "c = 45 \<or> c = 95"
    by (auto simp: b64_index_def split: if_splits)
  then show ?thesis
  proof cases
    case 1
    then have "c \<in> set (map of_nat [65..<91])" using in_range [of 65 c 90] by simp
    then show ?thesis by (simp add: B64URL_def upt_rec) blast
  next
    case 2
    then have "c \<in> set (map of_nat [97..<123])" using in_range [of 97 c 122] by simp
    then show ?thesis by (simp add: B64URL_def upt_rec) blast
  next
    case 3
    then have "c \<in> set (map of_nat [48..<58])" using in_range [of 48 c 57] by simp
    then show ?thesis by (simp add: B64URL_def upt_rec) blast
  qed (auto simp: B64URL_def)
qed

lemma b64_index_char: "b64_index c = Some v \<Longrightarrow> unat v < 64 \<and> c = B64URL ! unat v"
proof -
  assume v: "b64_index c = Some v"
  then obtain n where n: "n < 64" "c = B64URL ! n"
    using b64_index_member [of c] b64_alphabet(1) by (auto simp: in_set_conv_nth)
  then have "v = of_nat n" using v b64_values [OF n(1)] by simp
  then have "unat v = n" using n(1) by (simp add: unat_of_nat)
  with n show ?thesis by simp
qed

lemma bit_255: "bit (255 :: 32 word) n \<longleftrightarrow> n < 8"
proof -
  have "bit (mask 8 :: 32 word) n \<longleftrightarrow> n < 8" by (auto simp only: bit_mask_iff) simp
  moreover have "(mask 8 :: 32 word) = 255" by (simp add: mask_eq_exp_minus_1)
  ultimately show ?thesis by metis
qed

lemma byte_at: "bit (ucast (drop_bit k (x :: 32 word) AND 0xff) :: byte) n \<longleftrightarrow> n < 8 \<and> bit x (k + n)"
  by (simp only: bit_unsigned_iff bit_and_iff bit_drop_bit_eq bit_255 comp_def) auto

text \<open>The accumulator matters only below the bits not yet used.\<close>

lemma b64_loop_low:
  "bits \<le> 6 \<Longrightarrow> even bits \<Longrightarrow> (\<And>n. n < bits \<Longrightarrow> bit acc n = bit acc' n) \<Longrightarrow> b64_loop i acc bits s = b64_loop i acc' bits s"
proof (induction s arbitrary: i acc acc' bits)
  case Nil
  have "acc AND (push_bit bits 1 - 1) = acc' AND (push_bit bits 1 - 1)"
  proof (rule bit_word_eqI)
    fix n assume "n < LENGTH(32)"
    have "push_bit bits 1 - 1 = (mask bits :: 32 word)" by (simp add: mask_eq_exp_minus_1)
    then show "bit (acc AND (push_bit bits 1 - 1)) n = bit (acc' AND (push_bit bits 1 - 1)) n"
      using Nil.prems(3) by (simp add: bit_simps) blast
  qed
  then show ?case by simp
next
  case (Cons c s)
  show ?case
  proof (cases "b64_index c")
    case (Some v)
    let ?a = "push_bit 6 acc OR v" and ?b = "push_bit 6 acc' OR v"
    have low: "bit ?a n = bit ?b n" if "n < bits + 6" for n
      using that Cons.prems by (auto simp: bit_simps)
    show ?thesis
    proof (cases "bits + 6 \<ge> 8")
      case True
      have "ucast (drop_bit (bits - 2) ?a AND 0xff) = (ucast (drop_bit (bits - 2) ?b AND 0xff) :: byte)"
        using low Cons.prems(1) True by (intro bit_word_eqI) (simp only: byte_at, auto)
      moreover have "b64_loop (i + 1) ?a (bits - 2) s = b64_loop (i + 1) ?b (bits - 2) s"
        using low Cons.prems(1,2) True by (intro Cons.IH) auto
      ultimately show ?thesis using Some True by (simp add: Let_def)
    next
      case False
      then have "bits = 0" using Cons.prems(2) by presburger
      then have "b64_loop (i + 1) ?a (bits + 6) s = b64_loop (i + 1) ?b (bits + 6) s"
        using low by (intro Cons.IH) auto
      then show ?thesis using Some False by (simp add: Let_def)
    qed
  qed simp
qed

lemma byte_eqI:
  fixes a b :: byte
  assumes "bit a 0 = bit b 0" "bit a 1 = bit b 1" "bit a 2 = bit b 2" "bit a 3 = bit b 3"
    "bit a 4 = bit b 4" "bit a 5 = bit b 5" "bit a 6 = bit b 6" "bit a 7 = bit b 7"
  shows "a = b"
proof (rule bit_word_eqI)
  fix n assume "n < LENGTH(8)"
  then have "n = 0 \<or> n = 1 \<or> n = 2 \<or> n = 3 \<or> n = 4 \<or> n = 5 \<or> n = 6 \<or> n = 7" by auto
  then show "bit a n = bit b n" using assms by blast
qed

lemma six_bits:
  fixes x :: "'a::len word"
  assumes "unat x < 64"
  shows "bit x n \<Longrightarrow> n < 6"
proof -
  have "unat (take_bit 6 x) = unat x" using assms by (simp add: unsigned_take_bit_eq take_bit_nat_eq_self)
  then have "take_bit 6 x = x" by (rule unsigned_word_eqI)
  then show "bit x n \<Longrightarrow> n < 6" by (metis bit_take_bit_iff)
qed

lemma six_eqI:
  fixes a b :: "'a::len word"
  assumes "unat a < 64" "unat b < 64" "bit a 0 = bit b 0" "bit a 1 = bit b 1" "bit a 2 = bit b 2" "bit a 3 = bit b 3"
    "bit a 4 = bit b 4" "bit a 5 = bit b 5"
  shows "a = b"
proof (rule bit_word_eqI)
  fix n assume "n < LENGTH('a)"
  show "bit a n = bit b n"
  proof (cases "n < 6")
    case True
    then have "n = 0 \<or> n = 1 \<or> n = 2 \<or> n = 3 \<or> n = 4 \<or> n = 5" by auto
    then show ?thesis using assms by blast
  qed (use six_bits assms(1,2) in blast)
qed

lemma sextet_bound:
  fixes w :: byte
  assumes "\<not> bit w 6" and "\<not> bit w 7"
  shows "unat w < 64"
proof -
  have "take_bit 6 w = w"
  proof (rule bit_word_eqI)
    fix n assume "n < LENGTH(8)"
    then have "n < 6 \<or> n = 6 \<or> n = 7" by auto
    then show "bit (take_bit 6 w) n = bit w n" using assms by (auto simp: bit_take_bit_iff)
  qed
  then have "unat w = take_bit 6 (unat w)" by (metis unsigned_take_bit_eq)
  then show ?thesis using take_bit_nat_less_exp [of 6 "unat w"] by simp
qed

lemma b64_index_of:
  fixes w :: byte
  assumes "\<not> bit w 6" and "\<not> bit w 7"
  shows "b64_index (b64_char w) = Some (ucast w)"
  using b64_values [OF sextet_bound [OF assms]] by (simp add: b64_char_def unsigned_ucast_eq) 

text \<open>Four characters from a whole number of bytes.\<close>

definition group :: "32 word \<Rightarrow> 32 word list \<Rightarrow> 32 word" where
  "group acc vs = foldl (\<lambda>a v. push_bit 6 a OR v) acc vs"

lemma b64_step:
  assumes "b64_index c = Some v"
  shows "b64_loop i (group acc vs) bits (c # s) =
    (if bits + 6 \<ge> 8 then
       try_then (b64_loop (i + 1) (group acc (vs @ [v])) (bits - 2) s)
         (\<lambda>rest. Inr (ucast (drop_bit (bits - 2) (group acc (vs @ [v])) AND 0xff) # rest))
     else b64_loop (i + 1) (group acc (vs @ [v])) (bits + 6) s)"
  using assms by (simp only: b64_loop.simps group_def foldl_append foldl_Cons foldl_Nil option.case Let_def)

declare b64_loop.simps [simp del]

lemma b64_loop_four:
  assumes "b64_index c0 = Some v0" "b64_index c1 = Some v1" "b64_index c2 = Some v2" "b64_index c3 = Some v3"
  shows "b64_loop i (group acc []) 0 (c0 # c1 # c2 # c3 # s) =
    try_then (b64_loop (i + 4) 0 0 s) (\<lambda>rest. Inr (ucast (drop_bit 4 (group acc [v0, v1]) AND 0xff)
      # ucast (drop_bit 2 (group acc [v0, v1, v2]) AND 0xff) # ucast (drop_bit 0 (group acc [v0, v1, v2, v3]) AND 0xff) # rest))"
proof -
  have last: "b64_loop (i + 4) (group acc [v0, v1, v2, v3]) 0 s = b64_loop (i + 4) 0 0 s"
    by (rule b64_loop_low) simp_all
  have i: "i + 1 + 1 + 1 + 1 = i + 4" by simp
  show ?thesis
    unfolding b64_step [OF assms(1)] b64_step [OF assms(2)] b64_step [OF assms(3)] b64_step [OF assms(4)] append_Nil append_Cons
    by (simp only: i last append_Nil append_Cons b64_step [OF assms(2)] b64_step [OF assms(3)] b64_step [OF assms(4)])
      (cases "b64_loop (i + 4) 0 0 s"; simp add: last)
qed

text \<open>The bits of an accumulator.\<close>

lemma group_bit:
  "bit (group acc [v0, v1]) n \<longleftrightarrow> bit v1 n \<or> 6 \<le> n \<and> n < 32 \<and> bit v0 (n - 6) \<or> 12 \<le> n \<and> n < 32 \<and> bit acc (n - 12)"
  "bit (group acc [v0, v1, v2]) n \<longleftrightarrow> bit v2 n \<or> 6 \<le> n \<and> n < 32 \<and> bit v1 (n - 6) \<or> 12 \<le> n \<and> n < 32 \<and> bit v0 (n - 12) \<or>
     18 \<le> n \<and> n < 32 \<and> bit acc (n - 18)"
  "bit (group acc [v0, v1, v2, v3]) n \<longleftrightarrow> bit v3 n \<or> 6 \<le> n \<and> n < 32 \<and> bit v2 (n - 6) \<or> 12 \<le> n \<and> n < 32 \<and> bit v1 (n - 12) \<or>
     18 \<le> n \<and> n < 32 \<and> bit v0 (n - 18) \<or> 24 \<le> n \<and> n < 32 \<and> bit acc (n - 24)"
  by (auto simp: group_def bit_or_iff bit_push_bit_iff)

lemma group_start: "group acc [] = acc"
  by (simp add: group_def)

lemma sextet_parts [simp]:
  fixes b :: byte
  shows "bit (ucast b :: 32 word) n \<longleftrightarrow> bit b n"
  by (auto simp: bit_unsigned_iff dest: bit_imp_le_length)

lemma bit_byte_ge: "bit (b :: byte) n \<Longrightarrow> n < 8"
  by (auto dest: bit_imp_le_length)

lemmas byte_bits = bit_or_iff bit_and_iff bit_push_bit_iff bit_drop_bit_eq byte_at group_bit comp_def

lemma encode_index:
  fixes b0 b1 b2 :: byte
  shows "b64_index (b64_char (drop_bit 2 b0)) = Some (ucast (drop_bit 2 b0))"
    "b64_index (b64_char (push_bit 4 (b0 AND 3) OR drop_bit 4 b1)) = Some (ucast (push_bit 4 (b0 AND 3) OR drop_bit 4 b1))"
    "b64_index (b64_char (push_bit 2 (b1 AND 15) OR drop_bit 6 b2)) = Some (ucast (push_bit 2 (b1 AND 15) OR drop_bit 6 b2))"
    "b64_index (b64_char (b2 AND 63)) = Some (ucast (b2 AND 63))"
    "b64_index (b64_char (push_bit 4 (b0 AND 3))) = Some (ucast (push_bit 4 (b0 AND 3)))"
    "b64_index (b64_char (push_bit 2 (b1 AND 15))) = Some (ucast (push_bit 2 (b1 AND 15)))"
  by (rule b64_index_of; auto simp: byte_bits dest: bit_byte_ge)+

lemma decode_three:
  fixes b0 b1 b2 :: byte
  defines "v0 \<equiv> ucast (drop_bit 2 b0) :: 32 word" and "v1 \<equiv> ucast (push_bit 4 (b0 AND 3) OR drop_bit 4 b1) :: 32 word"
    and "v2 \<equiv> ucast (push_bit 2 (b1 AND 15) OR drop_bit 6 b2) :: 32 word" and "v3 \<equiv> ucast (b2 AND 63) :: 32 word"
  shows "ucast (drop_bit 4 (group acc [v0, v1]) AND 0xff) = b0"
    "ucast (drop_bit 2 (group acc [v0, v1, v2]) AND 0xff) = b1"
    "ucast (drop_bit 0 (group acc [v0, v1, v2, v3]) AND 0xff) = b2"
  unfolding v0_def v1_def v2_def v3_def
  by (rule byte_eqI; simp only: byte_at group_bit; simp add: bit_or_iff bit_and_iff bit_push_bit_iff bit_drop_bit_eq comp_def numeral_2_eq_2 [symmetric] numeral_3_eq_3 [symmetric];
      auto dest: bit_byte_ge)+

lemma low_mask: "bit (push_bit k 1 - 1 :: 32 word) n \<longleftrightarrow> n < k \<and> n < 32"
proof -
  have "push_bit k 1 - 1 = (mask k :: 32 word)" by (simp add: mask_eq_exp_minus_1)
  then show ?thesis by (auto simp: bit_mask_iff)
qed

lemma decode_encode: "b64_loop i acc 0 (base64urlEncode bs) = Inr bs"
proof (induction bs arbitrary: i acc rule: base64urlEncode.induct)
  case 1
  show ?case by (simp add: b64_loop.simps)
next
  case (4 b0 b1 b2 bs)
  have "b64_loop i (group acc []) 0 (base64urlEncode (b0 # b1 # b2 # bs)) = Inr (b0 # b1 # b2 # bs)"
    unfolding base64urlEncode.simps append_Cons append_Nil
    by (subst b64_loop_four [OF encode_index(1,2,3,4)]) (simp only: decode_three "4.IH" try_then.simps)
  then show ?case by (simp only: group_start)
next
  case (2 b0)
  let ?g = "group acc [ucast (drop_bit 2 b0), ucast (push_bit 4 (b0 AND 3))]"
  have "?g AND (push_bit 4 1 - 1) = 0"
    by (rule bit_word_eqI) (simp only: bit_and_iff low_mask group_bit, auto simp: bit_push_bit_iff bit_and_iff)
  moreover have "ucast (drop_bit 4 ?g AND 0xff) = b0"
    using decode_three(1) [of acc b0 0] by simp
  ultimately have "b64_loop i (group acc []) 0 (base64urlEncode [b0]) = Inr [b0]"
    by (simp only: base64urlEncode.simps b64_step [OF encode_index(1)] b64_step [OF encode_index(5)] append_Nil append_Cons)
      (simp add: b64_loop.simps)
  then show ?case by (simp only: group_start)
next
  case (3 b0 b1)
  let ?v0 = "ucast (drop_bit 2 b0) :: 32 word" and ?v1 = "ucast (push_bit 4 (b0 AND 3) OR drop_bit 4 b1) :: 32 word"
  let ?v2 = "ucast (push_bit 2 (b1 AND 15)) :: 32 word"
  have "group acc [?v0, ?v1, ?v2] AND (push_bit 2 1 - 1) = 0"
    by (rule bit_word_eqI) (simp only: bit_and_iff low_mask group_bit, auto simp: bit_push_bit_iff bit_and_iff)
  moreover have "ucast (drop_bit 4 (group acc [?v0, ?v1]) AND 0xff) = b0"
    "ucast (drop_bit 2 (group acc [?v0, ?v1, ?v2]) AND 0xff) = b1"
    using decode_three(1,2) [of acc b0 b1] decode_three(2) [of acc b0 b1 0] by simp_all
  ultimately have "b64_loop i (group acc []) 0 (base64urlEncode [b0, b1]) = Inr [b0, b1]"
    by (simp only: base64urlEncode.simps b64_step [OF encode_index(1)] b64_step [OF encode_index(2)]
        b64_step [OF encode_index(6)] append_Nil append_Cons)
      (simp add: b64_loop.simps)
  then show ?case by (simp only: group_start)
qed

lemma unat_wide: "unat (ucast (w :: byte) :: 32 word) = unat w"
proof -
  have "unat w < 2 ^ LENGTH(8)" by (rule unsigned_less)
  then have "unat w < 2 ^ 32" by simp
  then show ?thesis by (simp add: unsigned_ucast_eq take_bit_nat_eq_self)
qed

text \<open>The other direction: the decoder accepts nothing but what the encoder writes.\<close>

lemma b64_char_of:
  fixes w :: byte
  assumes "b64_index c = Some (ucast w)"
  shows "c = b64_char w"
  using b64_index_char [OF assms] by (simp add: b64_char_def unat_wide)

lemma b64_index_six: "b64_index c = Some v \<Longrightarrow> unat v < 64"
  by (drule b64_index_char) simp

lemma byte_at0: "bit (ucast ((x :: 32 word) AND 0xff) :: byte) n \<longleftrightarrow> n < 8 \<and> bit x n"
  using byte_at [of 0 x n] by simp

lemma byte_six:
  fixes w :: byte
  shows "unat w < 64 \<Longrightarrow> unat (ucast w :: 32 word) < 64"
  by (simp add: unat_wide)

lemma decoded_sextets:
  fixes v0 v1 v2 v3 acc :: "32 word"
  assumes six: "unat v0 < 64" "unat v1 < 64" "unat v2 < 64" "unat v3 < 64"
  defines "b0 \<equiv> ucast (drop_bit 4 (group acc [v0, v1]) AND 0xff) :: byte"
    and "b1 \<equiv> ucast (drop_bit 2 (group acc [v0, v1, v2]) AND 0xff) :: byte"
    and "b2 \<equiv> ucast (drop_bit 0 (group acc [v0, v1, v2, v3]) AND 0xff) :: byte"
  shows "v0 = ucast (drop_bit 2 b0)" "v1 = ucast (push_bit 4 (b0 AND 3) OR drop_bit 4 b1)"
    "v2 = ucast (push_bit 2 (b1 AND 15) OR drop_bit 6 b2)" "v3 = ucast (b2 AND 63)"
proof -
  note six_out = six_bits [OF six(1)] six_bits [OF six(2)] six_bits [OF six(3)] six_bits [OF six(4)]
  show "v0 = ucast (drop_bit 2 b0)"
    unfolding b0_def
    by (rule bit_word_eqI; simp only: sextet_parts byte_bits; auto dest: six_out)
  show "v1 = ucast (push_bit 4 (b0 AND 3) OR drop_bit 4 b1)"
    unfolding b0_def b1_def
    by (rule six_eqI [OF six(2)]; (rule byte_six, rule sextet_bound)?; simp only: sextet_parts byte_bits; auto dest: six_out bit_byte_ge)
  show "v2 = ucast (push_bit 2 (b1 AND 15) OR drop_bit 6 b2)"
    unfolding b1_def b2_def
    by (rule six_eqI [OF six(3)]; (rule byte_six, rule sextet_bound)?; simp only: sextet_parts byte_bits; auto dest: six_out bit_byte_ge)
  show "v3 = ucast (b2 AND 63)"
    unfolding b2_def
    by (rule six_eqI [OF six(4)]; (rule byte_six, rule sextet_bound)?; simp only: sextet_parts byte_bits; auto simp: numeral_2_eq_2 dest: six_out bit_byte_ge)
qed


lemma byte_of_bits: "(\<And>n. n < 8 \<Longrightarrow> bit (b :: byte) n = bit c n) \<Longrightarrow> b = c"
  by (rule bit_word_eqI) simp

text \<open>A last group of two or three characters, whose spare bits are zero.\<close>

lemma spare_bits:
  fixes x :: "32 word"
  assumes "x AND (push_bit k 1 - 1) = 0" and "k < 32"
  shows "n < k \<Longrightarrow> \<not> bit x n"
proof -
  assume "n < k"
  moreover have "\<not> bit (x AND (push_bit k 1 - 1)) n" by (simp only: assms bit_0_eq) simp
  ultimately show ?thesis using assms(2) by (simp only: bit_and_iff low_mask) auto
qed

lemma decoded_two:
  fixes v0 v1 acc :: "32 word"
  assumes six: "unat v0 < 64" "unat v1 < 64" and spare: "group acc [v0, v1] AND (push_bit 4 1 - 1) = 0"
  shows "v1 = ucast (push_bit 4 (ucast (drop_bit 4 (group acc [v0, v1]) AND 0xff) AND 3 :: byte))"
proof -
  note zero = spare_bits [OF spare]
  have low: "\<not> bit v1 n" if "n < 4" for n
    using zero [of n] that by (simp only: group_bit) simp
  note six_out = six_bits [OF six(1)] six_bits [OF six(2)]
  show ?thesis
    by (rule six_eqI [OF six(2)]; (rule byte_six, rule sextet_bound)?; simp only: sextet_parts byte_bits; auto simp: low dest: six_out bit_byte_ge)
qed

lemma decoded_three:
  fixes v0 v1 v2 acc :: "32 word"
  assumes six: "unat v0 < 64" "unat v1 < 64" "unat v2 < 64" and spare: "group acc [v0, v1, v2] AND (push_bit 2 1 - 1) = 0"
  shows "v2 = ucast (push_bit 2 (ucast (drop_bit 2 (group acc [v0, v1, v2]) AND 0xff) AND 15 :: byte))"
proof -
  note zero = spare_bits [OF spare]
  have low: "\<not> bit v2 n" if "n < 2" for n
    using zero [of n] that by (simp only: group_bit) simp
  note six_out = six_bits [OF six(1)] six_bits [OF six(2)] six_bits [OF six(3)]
  show ?thesis
    by (rule six_eqI [OF six(3)]; (rule byte_six, rule sextet_bound)?; simp only: sextet_parts byte_bits; auto simp: low dest: six_out bit_byte_ge)
qed

fun by_four :: "'a list \<Rightarrow> unit" where
  "by_four (a # b # c # d # s) = by_four s"
| "by_four [] = ()"
| "by_four [a] = ()"
| "by_four [a, b] = ()"
| "by_four [a, b, c] = ()"

lemma encode_decode: "b64_loop i acc 0 s = Inr bs \<Longrightarrow> s = base64urlEncode bs"
proof (induction s arbitrary: i acc bs rule: by_four.induct)
  case (1 c0 c1 c2 c3 s)
  obtain v0 v1 v2 v3 where v: "b64_index c0 = Some v0" "b64_index c1 = Some v1" "b64_index c2 = Some v2" "b64_index c3 = Some v3"
    using "1.prems" by (auto simp: b64_loop.simps Let_def split: option.splits)
  obtain rest where rest: "b64_loop (i + 4) 0 0 s = Inr rest"
    and bs: "bs = ucast (drop_bit 4 (group acc [v0, v1]) AND 0xff) # ucast (drop_bit 2 (group acc [v0, v1, v2]) AND 0xff)
      # ucast (drop_bit 0 (group acc [v0, v1, v2, v3]) AND 0xff) # rest"
    using "1.prems" unfolding b64_loop_four [OF v, of i acc s, unfolded group_start] by auto
  show ?case
    unfolding bs base64urlEncode.simps "1.IH" [OF rest, symmetric]
    using decoded_sextets [OF v [THEN b64_index_six], of acc] v by (auto intro!: b64_char_of)
next
  case (3 c0)
  then show ?case by (auto simp: b64_loop.simps Let_def split: option.splits)
next
  case (4 c0 c1)
  obtain v0 v1 where v: "b64_index c0 = Some v0" "b64_index c1 = Some v1"
    using "4.prems" by (auto simp: b64_loop.simps Let_def split: option.splits)
  let ?g = "group acc [v0, v1]"
  have "b64_loop i (group acc []) 0 [c0, c1] = Inr bs" using "4.prems" by (simp only: group_start)
  then have spare: "?g AND (push_bit 4 1 - 1) = 0" and bs: "bs = [ucast (drop_bit 4 ?g AND 0xff)]"
    by (simp_all add: b64_step [OF v(1)] b64_step [OF v(2)] b64_loop.simps(1) split: if_splits)
  show ?case
    unfolding bs base64urlEncode.simps
    using decoded_sextets(1) [OF v [THEN b64_index_six] v [THEN b64_index_six], of acc]
      decoded_two [OF v [THEN b64_index_six] spare] v by (auto intro!: b64_char_of)
next
  case (5 c0 c1 c2)
  obtain v0 v1 v2 where v: "b64_index c0 = Some v0" "b64_index c1 = Some v1" "b64_index c2 = Some v2"
    using "5.prems" by (auto simp: b64_loop.simps Let_def split: option.splits)
  let ?g = "group acc [v0, v1, v2]"
  have "b64_loop i (group acc []) 0 [c0, c1, c2] = Inr bs" using "5.prems" by (simp only: group_start)
  then have spare: "?g AND (push_bit 2 1 - 1) = 0"
    and bs: "bs = [ucast (drop_bit 4 (group acc [v0, v1]) AND 0xff), ucast (drop_bit 2 ?g AND 0xff)]"
    by (auto simp: b64_step [OF v(1)] b64_step [OF v(2)] b64_step [OF v(3)] b64_loop.simps(1) split: if_splits)
  show ?case
    unfolding bs base64urlEncode.simps
    using decoded_sextets(1,2) [OF v [THEN b64_index_six] b64_index_six [OF v(1)], of acc]
      decoded_three [OF v [THEN b64_index_six] spare] v by (auto intro!: b64_char_of)
qed (simp add: b64_loop.simps)

text \<open>base64url: the decoder answers exactly on the strings the encoder writes, with the bytes they were written from.
  No two strings decode to the same bytes, so a credential with a character added or a spare bit set is refused.\<close>

theorem base64url_exact: "base64urlDecode s = Inr bs \<longleftrightarrow> s = base64urlEncode bs"
  unfolding base64urlDecode_def by (blast intro: decode_encode encode_decode)

section \<open>The platform's primitives\<close>

text \<open>
  WebCrypto and fflate are not part of the source. \<open>aes_decrypt\<close> is None where the tag does not match;
  \<open>inflate_push before slice final\<close> is what one push of the streaming inflater hands to its callback after
  the slices \<open>before\<close>, None where it throws.
\<close>

record platform =
  aes_encrypt :: "bytes \<Rightarrow> bytes \<Rightarrow> bytes \<Rightarrow> bytes"
  aes_decrypt :: "bytes \<Rightarrow> bytes \<Rightarrow> bytes \<Rightarrow> bytes option"
  hmac_sha256 :: "bytes \<Rightarrow> bytes \<Rightarrow> bytes"
  sha256 :: "bytes \<Rightarrow> bytes"
  hkdf :: "bytes \<Rightarrow> jstring \<Rightarrow> bytes"
  deflateSync :: "bytes \<Rightarrow> bytes"
  inflate_push :: "bytes list \<Rightarrow> bytes \<Rightarrow> bool \<Rightarrow> bytes list option"

record schedule =
  path_key :: bytes
  content_key :: bytes
  nonce_key :: bytes
  meta_key :: bytes

record root_keys =
  auth_key :: bytes
  wrap_key :: bytes

section \<open>Sealing\<close>

definition NONCE_LENGTH :: nat where "NONCE_LENGTH = 12"

definition TAG_BITS :: nat where "TAG_BITS = 128"

definition sealUnder :: "platform \<Rightarrow> bytes \<Rightarrow> bytes \<Rightarrow> bytes \<Rightarrow> bytes" where
  "sealUnder pf key nonce plaintext = nonce @ aes_encrypt pf key nonce plaintext"

definition syntheticNonce :: "platform \<Rightarrow> bytes \<Rightarrow> bytes \<Rightarrow> bytes" where
  "syntheticNonce pf nonceKey plaintext = take NONCE_LENGTH (hmac_sha256 pf nonceKey plaintext)"

definition seal :: "platform \<Rightarrow> bytes \<Rightarrow> bytes \<Rightarrow> bytes \<Rightarrow> bytes" where
  "seal pf key nonceKey plaintext = sealUnder pf key (syntheticNonce pf nonceKey plaintext) plaintext"

definition open_sealed :: "platform \<Rightarrow> bytes \<Rightarrow> bytes \<Rightarrow> crypto_error + bytes" where
  "open_sealed pf key sealed =
     (if length sealed < NONCE_LENGTH + TAG_BITS div 8 then Inl (Too_short (length sealed))
      else case aes_decrypt pf key (take NONCE_LENGTH sealed) (drop NONCE_LENGTH sealed) of
          Some plain \<Rightarrow> Inr plain
        | None \<Rightarrow> Inl Not_authentic)"

definition sealPath :: "platform \<Rightarrow> schedule \<Rightarrow> jstring \<Rightarrow> jstring" where
  "sealPath pf keys path = base64urlEncode (seal pf (path_key keys) (nonce_key keys) (utf8_encode path))"

definition openPath :: "platform \<Rightarrow> schedule \<Rightarrow> jstring \<Rightarrow> crypto_error + jstring" where
  "openPath pf keys sealedPath =
     try_then (base64urlDecode sealedPath)
       (\<lambda>sealed. try_then (open_sealed pf (path_key keys) sealed) (\<lambda>plain. Inr (utf8_decode plain)))"

section \<open>Chunks\<close>

definition CHUNK_RAW :: byte where "CHUNK_RAW = 0"

definition CHUNK_DEFLATE :: byte where "CHUNK_DEFLATE = 1"

definition PROBE_BYTES :: nat where "PROBE_BYTES = 4096"

definition MAX_CHUNK_PLAINTEXT :: nat where "MAX_CHUNK_PLAINTEXT = 16 * 1024 * 1024"

definition INFLATE_SLICE :: nat where "INFLATE_SLICE = 4096"

definition worthDeflating :: "platform \<Rightarrow> bytes \<Rightarrow> bool" where
  "worthDeflating pf chunk =
     (if length chunk = 0 then False
      else if length chunk \<le> PROBE_BYTES * 2 then True
      else (let probe = take PROBE_BYTES chunk in length (deflateSync pf probe) < length probe))"

definition sealChunk :: "platform \<Rightarrow> schedule \<Rightarrow> bytes \<Rightarrow> bytes" where
  "sealChunk pf keys chunk =
     (let deflated = (if worthDeflating pf chunk then Some (deflateSync pf chunk) else None);
          framed = (case deflated of
              Some d \<Rightarrow> if length d < length chunk then CHUNK_DEFLATE # d else CHUNK_RAW # chunk
            | None \<Rightarrow> CHUNK_RAW # chunk)
      in seal pf (content_key keys) (nonce_key keys) framed)"

text \<open>The callback: every piece is counted, and kept while the count is within the ceiling.\<close>

fun keep_pieces :: "bytes list \<Rightarrow> nat \<times> bytes list \<Rightarrow> nat \<times> bytes list" where
  "keep_pieces [] acc = acc"
| "keep_pieces (piece # ps) (held, parts) =
     (let held = held + length piece in
      keep_pieces ps (held, if held \<le> MAX_CHUNK_PLAINTEXT then parts @ [piece] else parts))"

function inflate_loop ::
  "platform \<Rightarrow> bytes \<Rightarrow> bytes list \<Rightarrow> nat \<times> bytes list \<Rightarrow> crypto_error + bytes" where
  "inflate_loop pf payload before acc =
     (if payload = [] then Inr (concat (snd acc))
      else
        (let piece = take INFLATE_SLICE payload; later = drop INFLATE_SLICE payload in
         case inflate_push pf before piece (later = []) of
           None \<Rightarrow> Inl Not_deflated
         | Some out \<Rightarrow>
             (let acc' = keep_pieces out acc in
              if fst acc' > MAX_CHUNK_PLAINTEXT then Inl Too_big
              else inflate_loop pf later (before @ [piece]) acc')))"
  by pat_completeness auto

termination
  by (relation "measure (\<lambda>(pf, payload, before, acc). length payload)") (auto simp: INFLATE_SLICE_def)

declare inflate_loop.simps [simp del]

definition inflateBounded :: "platform \<Rightarrow> bytes \<Rightarrow> crypto_error + bytes" where
  "inflateBounded pf payload = inflate_loop pf payload [] (0, [])"

definition openChunk :: "platform \<Rightarrow> schedule \<Rightarrow> bytes \<Rightarrow> crypto_error + bytes" where
  "openChunk pf keys sealed =
     try_then (open_sealed pf (content_key keys) sealed)
       (\<lambda>framed. case framed of
            [] \<Rightarrow> Inl No_marker
          | marker # payload \<Rightarrow>
              (if marker = CHUNK_RAW then
                 (if length payload > MAX_CHUNK_PLAINTEXT then Inl Too_big else Inr payload)
               else if marker = CHUNK_DEFLATE then inflateBounded pf payload
               else Inl (Unknown_marker marker)))"

definition chunkName :: "platform \<Rightarrow> bytes \<Rightarrow> jstring" where
  "chunkName pf sealedChunk = hex (sha256 pf sealedChunk)"

definition sealChunks :: "platform \<Rightarrow> schedule \<Rightarrow> bytes list \<Rightarrow> (jstring \<times> bytes) list" where
  "sealChunks pf keys chunks = map (\<lambda>chunk. let bytes = sealChunk pf keys chunk in (chunkName pf bytes, bytes)) chunks"

definition plainDigest :: "platform \<Rightarrow> bytes \<Rightarrow> jstring" where
  "plainDigest pf bytes = hex (sha256 pf bytes)"

section \<open>The key schedule\<close>

definition INFO_auth :: jstring where "INFO_auth = lit ''basalt/auth/1''"
definition INFO_wrap :: jstring where "INFO_wrap = lit ''basalt/wrap/1''"
definition INFO_path :: jstring where "INFO_path = lit ''basalt/path/1''"
definition INFO_content :: jstring where "INFO_content = lit ''basalt/content/1''"
definition INFO_nonce :: jstring where "INFO_nonce = lit ''basalt/nonce/1''"
definition INFO_meta :: jstring where "INFO_meta = lit ''basalt/meta/1''"
definition INFO_deviceAuth :: jstring where "INFO_deviceAuth = lit ''basalt/device-auth/1''"

definition DATA_KEY_LENGTH :: nat where "DATA_KEY_LENGTH = 32"

definition SECRET_LENGTH :: nat where "SECRET_LENGTH = 32"

definition ikmOf :: "bytes \<Rightarrow> crypto_error + bytes" where
  "ikmOf secret = (if length secret < 16 then Inl (Keying_material (length secret)) else Inr secret)"

definition deriveRootKeys :: "platform \<Rightarrow> bytes \<Rightarrow> crypto_error + root_keys" where
  "deriveRootKeys pf secret =
     try_then (ikmOf secret) (\<lambda>ikm. Inr \<lparr>auth_key = hkdf pf ikm INFO_auth, wrap_key = hkdf pf ikm INFO_wrap\<rparr>)"

definition deriveSchedule :: "platform \<Rightarrow> bytes \<Rightarrow> crypto_error + schedule" where
  "deriveSchedule pf dataKey =
     try_then (ikmOf dataKey)
       (\<lambda>ikm. Inr \<lparr>path_key = hkdf pf ikm INFO_path, content_key = hkdf pf ikm INFO_content,
          nonce_key = hkdf pf ikm INFO_nonce, meta_key = hkdf pf ikm INFO_meta\<rparr>)"

text \<open>The random nonce is an argument.\<close>

definition wrapDataKey :: "platform \<Rightarrow> bytes \<Rightarrow> bytes \<Rightarrow> bytes \<Rightarrow> crypto_error + jstring" where
  "wrapDataKey pf nonce wrap dataKey =
     (if length dataKey \<noteq> DATA_KEY_LENGTH then Inl (Data_key_length (length dataKey))
      else Inr (base64urlEncode (sealUnder pf wrap nonce dataKey)))"

definition unwrapDataKey :: "platform \<Rightarrow> bytes \<Rightarrow> jstring \<Rightarrow> crypto_error + bytes" where
  "unwrapDataKey pf wrap wrapped =
     (case try_then (base64urlDecode wrapped) (open_sealed pf wrap) of
        Inl _ \<Rightarrow> Inl Wrong_root
      | Inr dataKey \<Rightarrow>
          (if length dataKey \<noteq> DATA_KEY_LENGTH then Inl (Data_key_length (length dataKey)) else Inr dataKey))"

definition deriveKeys :: "platform \<Rightarrow> bytes \<Rightarrow> jstring \<Rightarrow> crypto_error + root_keys \<times> schedule" where
  "deriveKeys pf secret wrapped =
     try_then (deriveRootKeys pf secret)
       (\<lambda>rk. try_then (unwrapDataKey pf (wrap_key rk) wrapped)
          (\<lambda>data. try_then (deriveSchedule pf data) (\<lambda>s. Inr (rk, s))))"

definition importAesKey :: "bytes \<Rightarrow> crypto_error + bytes" where
  "importAesKey raw = (if length raw \<noteq> 32 then Inl (Invite_key_length (length raw)) else Inr raw)"

definition sealSecret :: "platform \<Rightarrow> bytes \<Rightarrow> bytes \<Rightarrow> bytes \<Rightarrow> crypto_error + jstring" where
  "sealSecret pf nonce inviteKey secret =
     try_then (importAesKey inviteKey) (\<lambda>key. Inr (base64urlEncode (sealUnder pf key nonce secret)))"

definition unsealSecret :: "platform \<Rightarrow> bytes \<Rightarrow> jstring \<Rightarrow> crypto_error + bytes" where
  "unsealSecret pf inviteKey sealed =
     try_then (importAesKey inviteKey)
       (\<lambda>key. case try_then (base64urlDecode sealed) (open_sealed pf key) of
            Inl _ \<Rightarrow> Inl Wrong_invite_key
          | Inr secret \<Rightarrow>
              (if length secret \<noteq> SECRET_LENGTH then Inl (Invite_secret_length (length secret)) else Inr secret))"

definition authToken :: "root_keys \<Rightarrow> jstring" where
  "authToken keys = base64urlEncode (auth_key keys)"

definition deviceAuthToken :: "platform \<Rightarrow> bytes \<Rightarrow> crypto_error + jstring" where
  "deviceAuthToken pf deviceSecret =
     try_then (ikmOf deviceSecret) (\<lambda>ikm. Inr (base64urlEncode (hkdf pf ikm INFO_deviceAuth)))"

section \<open>What an entry's authenticator covers\<close>

record entry_facts =
  ef_path :: jstring
  ef_size :: int
  ef_ctime :: int
  ef_mtime :: int
  ef_folder :: bool
  ef_deleted :: bool
  ef_prev :: "jstring option"
  ef_chunks :: "jstring list"
  ef_parent :: jstring

definition js_string_of_int :: "int \<Rightarrow> jstring" where
  "js_string_of_int n = (if n < 0 then 45 # decimal (nat (- n)) else decimal (nat n))"

definition canonical_add :: "jstring \<Rightarrow> jstring" where
  "canonical_add part = decimal (length part) @ 58 # part"

definition canonical_text :: "entry_facts \<Rightarrow> jstring" where
  "canonical_text e =
     canonical_add (ef_path e) @ canonical_add (js_string_of_int (ef_size e)) @ canonical_add (js_string_of_int (ef_ctime e))
       @ canonical_add (js_string_of_int (ef_mtime e)) @ canonical_add (if ef_folder e then lit ''1'' else lit ''0'')
       @ canonical_add (if ef_deleted e then lit ''1'' else lit ''0'') @ canonical_add (case ef_prev e of Some p \<Rightarrow> p | None \<Rightarrow> [])
       @ canonical_add (ef_parent e) @ canonical_add (decimal (length (ef_chunks e)))
       @ concat (map canonical_add (ef_chunks e))"

definition canonical :: "entry_facts \<Rightarrow> bytes" where
  "canonical e = utf8_encode (canonical_text e)"

definition macEntry :: "platform \<Rightarrow> schedule \<Rightarrow> entry_facts \<Rightarrow> jstring" where
  "macEntry pf keys e = hex (hmac_sha256 pf (meta_key keys) (canonical e))"

text \<open>The comparison in constant time: every unit is read, whatever the first differing one.\<close>

definition entryIsOurs :: "platform \<Rightarrow> schedule \<Rightarrow> entry_facts \<Rightarrow> jstring \<Rightarrow> bool" where
  "entryIsOurs pf keys e mac =
     (let want = macEntry pf keys e in
      if length want \<noteq> length mac then False
      else foldl (\<lambda>diff (w, m). diff OR (w XOR m)) 0 (zip want mac) = 0)"

definition parentOf :: "platform \<Rightarrow> jstring \<Rightarrow> jstring" where
  "parentOf pf content = (if content = [] then [] else hex (sha256 pf (utf8_encode content)))"

section \<open>Chunks come back whole\<close>

text \<open>What the inflater makes of a payload cut into slices, the final flag on the last.\<close>

fun inflate_all :: "platform \<Rightarrow> bytes list \<Rightarrow> bytes list \<Rightarrow> bytes list option" where
  "inflate_all pf before [] = Some []"
| "inflate_all pf before (piece # later) =
     (case inflate_push pf before piece (later = []) of
        None \<Rightarrow> None
      | Some out \<Rightarrow> map_option (\<lambda>rest. out @ rest) (inflate_all pf (before @ [piece]) later))"

function cut_slices :: "nat \<Rightarrow> bytes \<Rightarrow> bytes list" where
  "cut_slices n xs = (if xs = [] \<or> n = 0 then [] else take n xs # cut_slices n (drop n xs))"
  by pat_completeness auto

termination
  by (relation "measure (\<lambda>(n, xs). length xs)") auto

declare cut_slices.simps [simp del]

lemma cut_slices_Nil [simp]: "cut_slices n [] = []"
  by (simp add: cut_slices.simps)

lemma cut_slices_is_Nil: "0 < n \<Longrightarrow> cut_slices n xs = [] \<longleftrightarrow> xs = []"
  by (simp add: cut_slices.simps [of n xs])

lemma cut_slices_whole: "0 < n \<Longrightarrow> concat (cut_slices n xs) = xs \<and> [] \<notin> set (cut_slices n xs)"
proof (induction n xs rule: cut_slices.induct)
  case (1 n xs)
  then show ?case by (cases "xs = []") (simp_all add: cut_slices.simps [of n xs])
qed

lemma keep_pieces_count: "fst (keep_pieces ps (n, parts)) = n + length (concat ps)"
  by (induction ps arbitrary: n parts) (simp_all add: Let_def)

lemma keep_pieces_all: "n + length (concat ps) \<le> MAX_CHUNK_PLAINTEXT \<Longrightarrow> keep_pieces ps (n, parts) = (n + length (concat ps), parts @ ps)"
  by (induction ps arbitrary: n parts) (simp_all add: Let_def)

lemma inflate_loop_exact:
  "length (concat parts) = n \<Longrightarrow> n \<le> MAX_CHUNK_PLAINTEXT \<Longrightarrow>
   inflate_loop pf payload before (n, parts) = Inr bs \<longleftrightarrow>
     (\<exists>out. inflate_all pf before (cut_slices INFLATE_SLICE payload) = Some out \<and> bs = concat parts @ concat out
        \<and> length bs \<le> MAX_CHUNK_PLAINTEXT)"
proof (induction "length payload" arbitrary: payload before n parts rule: less_induct)
  case less
  show ?case
  proof (cases "payload = []")
    case True
    then show ?thesis using less.prems by (auto simp: inflate_loop.simps)
  next
    case False
    let ?piece = "take INFLATE_SLICE payload" and ?later = "drop INFLATE_SLICE payload"
    have cut: "cut_slices INFLATE_SLICE payload = ?piece # cut_slices INFLATE_SLICE ?later"
      using False by (simp add: cut_slices.simps [of _ payload] INFLATE_SLICE_def)
    have more: "(cut_slices INFLATE_SLICE ?later = []) = (?later = [])"
      by (rule cut_slices_is_Nil) (simp add: INFLATE_SLICE_def)
    show ?thesis
    proof (cases "inflate_push pf before ?piece (?later = [])")
      case None
      then have "inflate_loop pf payload before (n, parts) = Inl Not_deflated"
        using False by (subst inflate_loop.simps) (simp only: Let_def if_False option.case)
      moreover have "inflate_all pf before (cut_slices INFLATE_SLICE payload) = None"
        by (simp only: cut inflate_all.simps more None option.case)
      ultimately show ?thesis by simp
    next
      case (Some out)
      let ?m = "n + length (concat out)"
      have loop: "inflate_loop pf payload before (n, parts) =
          (if ?m > MAX_CHUNK_PLAINTEXT then Inl Too_big
           else inflate_loop pf ?later (before @ [?piece]) (keep_pieces out (n, parts)))"
        using False by (subst inflate_loop.simps) (simp only: Let_def if_False option.case Some keep_pieces_count)
      have all: "inflate_all pf before (cut_slices INFLATE_SLICE payload) =
          map_option (\<lambda>rest. out @ rest) (inflate_all pf (before @ [?piece]) (cut_slices INFLATE_SLICE ?later))"
        by (simp only: cut inflate_all.simps more Some option.case)
      show ?thesis
      proof (cases "?m > MAX_CHUNK_PLAINTEXT")
        case True
        then show ?thesis using less.prems by (auto simp: loop all)
      next
        case False
        have "length ?later < length payload" using \<open>payload \<noteq> []\<close> by (simp add: INFLATE_SLICE_def)
        then have ih: "inflate_loop pf ?later (before @ [?piece]) (?m, parts @ out) = Inr bs \<longleftrightarrow>
            (\<exists>rest. inflate_all pf (before @ [?piece]) (cut_slices INFLATE_SLICE ?later) = Some rest
               \<and> bs = concat (parts @ out) @ concat rest \<and> length bs \<le> MAX_CHUNK_PLAINTEXT)"
          by (rule less.hyps) (use False less.prems in simp_all)
        have keep: "keep_pieces out (n, parts) = (?m, parts @ out)"
          by (rule keep_pieces_all) (use False in simp)
        have "inflate_loop pf payload before (n, parts) = inflate_loop pf ?later (before @ [?piece]) (?m, parts @ out)"
          by (simp only: loop keep False if_False)
        then show ?thesis unfolding all ih by (simp only: ih) (auto simp del: drop_eq_Nil)
      qed
    qed
  qed
qed

lemma inflateBounded_exact:
  "inflateBounded pf payload = Inr bs \<longleftrightarrow>
     (\<exists>out. inflate_all pf [] (cut_slices INFLATE_SLICE payload) = Some out \<and> bs = concat out \<and> length bs \<le> MAX_CHUNK_PLAINTEXT)"
  using inflate_loop_exact [of "[]" 0 pf payload "[]" bs] by (simp add: inflateBounded_def)

text \<open>
  What is relied on: AES-GCM opens what it sealed and adds a 16-byte tag, HMAC-SHA-256 is 32 bytes, and
  the inflater, fed a deflated chunk in any slices, hands back that chunk.
\<close>

definition aead_laws :: "platform \<Rightarrow> bool" where
  "aead_laws pf \<longleftrightarrow>
     (\<forall>k n p. aes_decrypt pf k n (aes_encrypt pf k n p) = Some p \<and> length (aes_encrypt pf k n p) = length p + 16)
     \<and> (\<forall>k m. length (hmac_sha256 pf k m) = 32)"

definition codec_laws :: "platform \<Rightarrow> bool" where
  "codec_laws pf \<longleftrightarrow>
     (\<forall>x cs. concat cs = deflateSync pf x \<longrightarrow> [] \<notin> set cs \<longrightarrow> (\<exists>out. inflate_all pf [] cs = Some out \<and> concat out = x))"

lemma open_sealUnder:
  assumes "aead_laws pf" and "length nonce = NONCE_LENGTH"
  shows "open_sealed pf key (sealUnder pf key nonce p) = Inr p" "length (sealUnder pf key nonce p) = length p + 28"
  using assms by (simp_all add: open_sealed_def sealUnder_def aead_laws_def NONCE_LENGTH_def TAG_BITS_def)

lemma open_seal:
  assumes "aead_laws pf"
  shows "open_sealed pf key (seal pf key nk p) = Inr p" "length (seal pf key nk p) = length p + 28"
  using open_sealUnder [OF assms] assms by (simp_all add: seal_def syntheticNonce_def aead_laws_def NONCE_LENGTH_def)

lemma inflate_deflated:
  assumes "codec_laws pf" and "length x \<le> MAX_CHUNK_PLAINTEXT"
  shows "inflateBounded pf (deflateSync pf x) = Inr x"
proof -
  have "concat (cut_slices INFLATE_SLICE (deflateSync pf x)) = deflateSync pf x \<and> [] \<notin> set (cut_slices INFLATE_SLICE (deflateSync pf x))"
    by (rule cut_slices_whole) (simp add: INFLATE_SLICE_def)
  then show ?thesis using assms by (auto simp: inflateBounded_exact codec_laws_def)
qed

text \<open>C30. A chunk within the ceiling opens to itself after it is sealed, deflated or not, and sealing adds no more than
  the 29 bytes the chunker reserves for it.\<close>

theorem chunk_opens_as_sealed:
  assumes "aead_laws pf" and "codec_laws pf" and "length chunk \<le> MAX_CHUNK_PLAINTEXT"
  shows "openChunk pf keys (sealChunk pf keys chunk) = Inr chunk
    \<and> length (sealChunk pf keys chunk) \<le> length chunk + SEAL_OVERHEAD"
  using assms(3)
  by (auto simp: openChunk_def sealChunk_def Let_def open_seal [OF assms(1)] inflate_deflated [OF assms(2,3)]
      CHUNK_RAW_def CHUNK_DEFLATE_def SEAL_OVERHEAD_def)

lemma hex_digits: "c \<in> set (hex bs) \<Longrightarrow> \<exists>d < 16. c = hex_digit d" "length (hex bs) = 2 * length bs"
proof -
  have "unat b div 16 < 16" for b :: byte
  proof -
    have "unat b < 2 ^ LENGTH(8)" by (rule unsigned_less)
    then show ?thesis by (simp add: less_mult_imp_div_less)
  qed
  moreover assume "c \<in> set (hex bs)"
  then obtain b :: byte where "c = hex_digit (unat b div 16) \<or> c = hex_digit (unat b mod 16)" by (auto simp: hex_def)
  moreover have "unat b mod 16 < 16" by (rule mod_less_divisor) simp
  ultimately show "\<exists>d < 16. c = hex_digit d" by metis
next
  show "length (hex bs) = 2 * length bs" by (induction bs) (simp_all add: hex_def)
qed

text \<open>A platform on which the laws hold: no cipher and no compression to speak of.\<close>

definition plain_platform :: platform where
  "plain_platform = \<lparr>aes_encrypt = \<lambda>k n p. p @ replicate 16 0,
     aes_decrypt = \<lambda>k n c. if drop (length c - 16) c = replicate 16 0 then Some (take (length c - 16) c) else None,
     hmac_sha256 = \<lambda>k m. replicate 32 (of_nat (length m)), sha256 = \<lambda>m. replicate 32 (foldl (+) 0 m),
     hkdf = \<lambda>k i. take 32 (ucast (hd (drop 7 i)) # k @ replicate 32 0), deflateSync = \<lambda>p. 0 # p,
     inflate_push = \<lambda>before s final. Some [if before = [] then tl s else s]\<rparr>"

lemma plain_push [simp]: "inflate_push plain_platform before s final = Some [if before = [] then tl s else s]"
  by (simp add: plain_platform_def)

lemma plain_deflate [simp]: "deflateSync plain_platform p = 0 # p"
  by (simp add: plain_platform_def)

lemma plain_inflate: "bs \<noteq> [] \<Longrightarrow> inflate_all plain_platform bs cs = Some cs"
  by (induction cs arbitrary: bs) simp_all

lemma plain_laws: "aead_laws plain_platform" "codec_laws plain_platform"
proof -
  show "aead_laws plain_platform" by (simp add: aead_laws_def plain_platform_def)
  show "codec_laws plain_platform"
    unfolding codec_laws_def
  proof (intro allI impI)
    fix x :: bytes and cs :: "bytes list"
    assume cs: "concat cs = deflateSync plain_platform x" "[] \<notin> set cs"
    then obtain c d where c: "cs = c # d" by (cases cs) simp_all
    with cs have "tl c @ concat d = x" by (cases c) simp_all
    with plain_inflate [of "[c]" d] show "\<exists>out. inflate_all plain_platform [] cs = Some out \<and> concat out = x"
      by (simp add: c)
  qed
qed

lemma chunk_opens_as_sealed_witness:
  "openChunk plain_platform \<lparr>path_key = [1], content_key = [2], nonce_key = [3], meta_key = [4]\<rparr>
     (sealChunk plain_platform \<lparr>path_key = [1], content_key = [2], nonce_key = [3], meta_key = [4]\<rparr> [7, 8, 9]) = Inr [7, 8, 9]"
proof -
  have "length [7 :: byte, 8, 9] \<le> MAX_CHUNK_PLAINTEXT" unfolding MAX_CHUNK_PLAINTEXT_def list.size by linarith
  from chunk_opens_as_sealed [OF plain_laws this] show ?thesis by (rule conjunct1)
qed

section \<open>Paths come back\<close>

lemma encode_bom: "encode_unit 0xfeff = [0xef, 0xbb, 0xbf]"
  by (simp add: encode_unit_def is_high_def is_low_def)

lemma utf8_encode_Cons: "\<not> is_high c \<Longrightarrow> utf8_encode (c # s) = encode_unit c @ utf8_encode s"
  by (cases s) simp_all

lemma bom_not_surrogate [simp]: "\<not> is_high 0xfeff" "\<not> is_low 0xfeff"
  by (simp_all add: is_high_def is_low_def)

lemma utf8_decode_encode:
  assumes "well_formed p"
  shows "utf8_decode (utf8_encode p) = (if starts_with p [0xfeff] then tl p else p)"
proof (cases "take 3 (utf8_encode p) = [0xef, 0xbb, 0xbf]")
  case True
  then have "utf8_encode p = encode_unit 0xfeff @ drop 3 (utf8_encode p)" by (metis append_take_drop_id encode_bom)
  let ?q = "utf8_run (0, 0, 0, 0) (drop 3 (utf8_encode p))"
  have "p = utf8_run (0, 0, 0, 0) (encode_unit 0xfeff @ drop 3 (utf8_encode p))"
    using \<open>utf8_encode p = _\<close> decode_encoded [OF assms] by metis
  then have p: "p = 0xfeff # ?q" by (simp only: run_unit [OF bom_not_surrogate])
  have "utf8_decode (utf8_encode p) = ?q" by (simp only: utf8_decode_def True simp_thms if_True)
  moreover have "starts_with p [0xfeff]" "tl p = ?q" by (subst p, simp add: starts_with_iff)+
  ultimately show ?thesis by simp
next
  case False
  have "\<not> starts_with p [0xfeff]"
  proof
    assume "starts_with p [0xfeff]"
    then obtain t where "p = 0xfeff # t" by (auto simp: starts_with_iff)
    then show False using False by (simp add: utf8_encode_Cons encode_bom)
  qed
  with False show ?thesis by (simp add: utf8_decode_def decode_encoded [OF assms])
qed

lemma open_sealPath:
  assumes "aead_laws pf" and "well_formed path"
  shows "openPath pf keys (sealPath pf keys path) = Inr (if starts_with path [0xfeff] then tl path else path)"
  using assms by (simp add: openPath_def sealPath_def base64urlDecode_def decode_encode open_seal utf8_decode_encode)



section \<open>The key schedule comes back\<close>

lemma unwrap_wrapped:
  assumes "aead_laws pf" and "length nonce = NONCE_LENGTH" and "wrapDataKey pf nonce wrap dataKey = Inr wrapped"
  shows "unwrapDataKey pf wrap wrapped = Inr dataKey"
  using assms(3) open_sealUnder [OF assms(1,2)]
  by (auto simp: wrapDataKey_def unwrapDataKey_def base64urlDecode_def decode_encode split: if_splits)

lemma unseal_sealed:
  assumes "aead_laws pf" and "length nonce = NONCE_LENGTH" and "length secret = SECRET_LENGTH"
    and "sealSecret pf nonce inviteKey secret = Inr sealed"
  shows "unsealSecret pf inviteKey sealed = Inr secret"
  using assms(3,4) open_sealUnder [OF assms(1,2)]
  by (auto simp: sealSecret_def unsealSecret_def importAesKey_def base64urlDecode_def decode_encode split: if_splits)

lemma derived_from_wrapped:
  assumes "aead_laws pf" and "length nonce = NONCE_LENGTH" and "deriveRootKeys pf secret = Inr rk"
    and "wrapDataKey pf nonce (wrap_key rk) dataKey = Inr wrapped"
  shows "deriveKeys pf secret wrapped = try_then (deriveSchedule pf dataKey) (\<lambda>s. Inr (rk, s))"
  using unwrap_wrapped [OF assms(1,2,4)] assms(3) by (simp add: deriveKeys_def)

text \<open>An unwrapped key is a whole one, whatever was opened.\<close>

lemma unwrapped_length: "unwrapDataKey pf wrap wrapped = Inr dataKey \<Longrightarrow> length dataKey = DATA_KEY_LENGTH"
  by (auto simp: unwrapDataKey_def split: sum.splits if_splits)

section \<open>What an authenticator binds\<close>

lemma byte_less: "unat (b :: byte) < 256"
proof -
  have "unat b < 2 ^ LENGTH(8)" by (rule unsigned_less)
  then show ?thesis by simp
qed

lemma hex_inj: "hex a = hex b \<Longrightarrow> a = b"
proof (induction a arbitrary: b)
  case (Cons x a)
  then obtain y b' where b: "b = y # b'" by (cases b) (simp_all add: hex_def)
  have digits: "unat x div 16 = unat y div 16" "unat x mod 16 = unat y mod 16"
    using Cons.prems byte_less [of x] byte_less [of y]
    by (auto simp: b hex_def less_mult_imp_div_less intro!: hex_digit_inj)
  then have "unat x = unat y" by (metis div_mult_mod_eq)
  then have "x = y" by (rule unsigned_word_eqI)
  with Cons show ?case by (simp add: b hex_def)
qed (cases b; simp add: hex_def)

lemma or_zero: "(a :: 'a::len word) OR b = 0 \<longleftrightarrow> a = 0 \<and> b = 0"
  by (auto simp: bit_eq_iff bit_or_iff)

lemma xor_zero: "(a :: 'a::len word) XOR b = 0 \<longleftrightarrow> a = b"
  using xor_cancel [of a b b] by simp

lemma diff_zero:
  "length want = length mac \<Longrightarrow>
   (foldl (\<lambda>diff (w, m). diff OR (w XOR m)) (d :: jchar) (zip want mac) = 0) = (d = 0 \<and> want = mac)"
  by (induction want mac arbitrary: d rule: list_induct2) (auto simp: or_zero xor_zero)

lemma entryIsOurs_iff: "entryIsOurs pf keys e mac \<longleftrightarrow> mac = macEntry pf keys e"
  by (auto simp: entryIsOurs_def Let_def diff_zero)

lemma take_number: "decimal n @ 58 # s = decimal m @ 58 # t \<Longrightarrow> n = m \<and> s = t"
proof -
  assume eq: "decimal n @ 58 # s = decimal m @ 58 # t"
  have "58 \<notin> set (decimal k)" for k by (rule decimal_avoids) (simp add: is_digit_def)
  then have "\<And>c. c \<in> set (decimal k) \<Longrightarrow> 58 \<noteq> c" for k by metis
  then have "takeWhile ((\<noteq>) 58) (decimal k @ 58 # u) = decimal k" for k u by (simp add: takeWhile_append2)
  with eq have "decimal n = decimal m" by metis
  with eq show "n = m \<and> s = t" by (auto dest: decimal_inj)
qed

lemma canonical_add_append: "canonical_add p @ s = canonical_add q @ t \<longleftrightarrow> p = q \<and> s = t"
proof
  assume "canonical_add p @ s = canonical_add q @ t"
  then have "length p = length q" "p @ s = q @ t" by (auto simp: canonical_add_def dest: take_number)
  then show "p = q \<and> s = t" by (simp add: append_eq_append_conv)
qed simp

lemma canonical_add_last: "canonical_add p = canonical_add q \<longleftrightarrow> p = q"
  using canonical_add_append [of p "[]" q "[]"] by simp

lemma canonical_chunks: "concat (map canonical_add cs) = concat (map canonical_add ds) \<Longrightarrow> length cs = length ds \<Longrightarrow> cs = ds"
  by (induction cs ds rule: list_induct2') (auto simp: canonical_add_append)

lemma js_string_of_int_inj: "js_string_of_int a = js_string_of_int b \<Longrightarrow> a = b"
proof -
  have "45 \<noteq> hd (decimal n)" for n
  proof -
    have "45 \<notin> set (decimal n)" by (rule decimal_avoids) (simp add: is_digit_def)
    then show ?thesis using hd_in_set [OF decimal_not_Nil [of n]] by metis
  qed
  then show "js_string_of_int a = js_string_of_int b \<Longrightarrow> a = b"
    by (auto simp: js_string_of_int_def split: if_splits dest!: decimal_inj) (metis list.sel(1))+
qed

text \<open>Text without a lone surrogate, put together.\<close>

lemma well_formed_append: "well_formed s \<Longrightarrow> well_formed t \<Longrightarrow> well_formed (s @ t)"
proof (induction s rule: well_formed.induct)
  case (2 c)
  then show ?case by (cases t) simp_all
next
  case (3 c d s)
  then show ?case by (cases "is_high c \<and> is_low d") auto
qed simp

lemma well_formed_ascii: "(\<And>c. c \<in> set s \<Longrightarrow> c < 0x80) \<Longrightarrow> well_formed s"
proof (induction s rule: well_formed.induct)
  case (3 c d s)
  then have "c < 0x80" by simp
  then have "\<not> is_high c \<and> \<not> is_low c" by (auto simp: is_high_def is_low_def dest: order_le_less_trans)
  then show ?case using 3 by auto
qed (auto simp: is_high_def is_low_def dest: order_le_less_trans)

lemma well_formed_decimal: "well_formed (decimal n)"
  by (rule well_formed_ascii) (auto simp: is_digit_def dest!: decimal_digits intro: le_less_trans)

lemma well_formed_number: "well_formed (js_string_of_int n)"
  by (rule well_formed_ascii) (auto simp: js_string_of_int_def is_digit_def dest!: decimal_digits intro: le_less_trans split: if_splits)

lemma well_formed_colon: "well_formed s \<Longrightarrow> well_formed (58 # s)"
  using well_formed_append [of "[58]" s] by (simp add: is_high_def is_low_def)

lemma well_formed_add: "well_formed p \<Longrightarrow> well_formed (canonical_add p)"
  by (simp add: canonical_add_def well_formed_append well_formed_decimal well_formed_colon)

lemma well_formed_adds: "(\<And>p. p \<in> set ps \<Longrightarrow> well_formed p) \<Longrightarrow> well_formed (concat (map canonical_add ps))"
  by (induction ps) (simp_all add: well_formed_append well_formed_add)

text \<open>The text of a path, a previous path, a parent and the chunk names holds no lone surrogate.\<close>

definition clear_text :: "entry_facts \<Rightarrow> bool" where
  "clear_text e \<longleftrightarrow> well_formed (ef_path e) \<and> (\<forall>p. ef_prev e = Some p \<longrightarrow> well_formed p) \<and> well_formed (ef_parent e)
     \<and> list_all well_formed (ef_chunks e)"

text \<open>An entry as the authenticator sees it: no previous path is the empty one.\<close>

definition same_facts :: "entry_facts \<Rightarrow> entry_facts \<Rightarrow> bool" where
  "same_facts e f \<longleftrightarrow> e\<lparr>ef_prev := Some (case ef_prev e of Some p \<Rightarrow> p | None \<Rightarrow> [])\<rparr>
     = f\<lparr>ef_prev := Some (case ef_prev f of Some p \<Rightarrow> p | None \<Rightarrow> [])\<rparr>"

lemma canonical_text_well_formed: "clear_text e \<Longrightarrow> well_formed (canonical_text e)"
proof -
  assume clear: "clear_text e"
  have flag: "well_formed (if b then lit ''1'' else lit ''0'')" for b by (rule well_formed_ascii) (auto split: if_splits)
  have prev: "well_formed (case ef_prev e of Some p \<Rightarrow> p | None \<Rightarrow> [])"
    using clear by (auto simp: clear_text_def split: option.splits)
  show ?thesis
    unfolding canonical_text_def
    by (intro well_formed_append well_formed_add well_formed_adds well_formed_number well_formed_decimal flag prev)
      (use clear in \<open>auto simp: clear_text_def list_all_iff\<close>)
qed

lemma canonical_text_same:
  assumes "canonical_text e = canonical_text f"
  shows "same_facts e f"
proof -
  have flags: "(if a then lit ''1'' else lit ''0'') = (if b then lit ''1'' else lit ''0'') \<Longrightarrow> a = b" for a b
    by (auto split: if_splits)
  have same: "ef_path e = ef_path f" "js_string_of_int (ef_size e) = js_string_of_int (ef_size f)"
    "js_string_of_int (ef_ctime e) = js_string_of_int (ef_ctime f)" "js_string_of_int (ef_mtime e) = js_string_of_int (ef_mtime f)"
    "(if ef_folder e then lit ''1'' else lit ''0'') = (if ef_folder f then lit ''1'' else lit ''0'')"
    "(if ef_deleted e then lit ''1'' else lit ''0'') = (if ef_deleted f then lit ''1'' else lit ''0'')"
    "(case ef_prev e of Some p \<Rightarrow> p | None \<Rightarrow> []) = (case ef_prev f of Some p \<Rightarrow> p | None \<Rightarrow> [])" "ef_parent e = ef_parent f"
    "decimal (length (ef_chunks e)) = decimal (length (ef_chunks f))"
    "concat (map canonical_add (ef_chunks e)) = concat (map canonical_add (ef_chunks f))"
    using assms unfolding canonical_text_def append_assoc canonical_add_append by blast+
  have "ef_chunks e = ef_chunks f" using same(9,10) by (auto intro: canonical_chunks dest: decimal_inj)
  moreover have "ef_size e = ef_size f" "ef_ctime e = ef_ctime f" "ef_mtime e = ef_mtime f"
    using same(2-4) by (auto dest: js_string_of_int_inj)
  ultimately show ?thesis
    using same(1,7,8) flags [OF same(5)] flags [OF same(6)] by (simp add: same_facts_def)
qed


definition sample_facts :: entry_facts where
  "sample_facts = \<lparr>ef_path = lit ''a.md'', ef_size = 3, ef_ctime = 1, ef_mtime = 2, ef_folder = False, ef_deleted = False,
     ef_prev = None, ef_chunks = [], ef_parent = []\<rparr>"


end
