(* ===== verification/Engine_Inbound.thy ===== *)
theory Engine_Inbound
  imports Engine_Index Crypto
begin

text \<open>
  What the engine of \<open>client/src/core/engine.ts\<close> takes from the server: \<open>mustBeOurs\<close>, \<open>plaintextPath\<close>,
  \<open>acceptBatch\<close> and \<open>refreshStaleHeads\<close>. A batch is checked whole before any of it is recorded; what is
  shown is that the server's word about a path changes only by an entry this vault's key
  authenticated, and what a batch may do to the saved index.
\<close>

section \<open>Checks\<close>

datatype inbound_error =
    Not_ours int
  | Bad_shape int shape_refusal
  | Unsealing crypto_error
  | Another_note jstring

definition facts_of :: "wire_entry \<Rightarrow> entry_facts" where
  "facts_of e = \<lparr>ef_path = we_path e, ef_size = we_size e, ef_ctime = we_ctime e, ef_mtime = we_mtime e,
     ef_folder = we_folder e, ef_deleted = we_deleted e, ef_prev = we_prev e, ef_chunks = we_chunks e,
     ef_parent = (case we_parent e of Some p \<Rightarrow> p | None \<Rightarrow> [])\<rparr>"

definition mustBeOurs :: "platform \<Rightarrow> schedule \<Rightarrow> wire_entry list \<Rightarrow> inbound_error option" where
  "mustBeOurs pf keys entries =
     map_option (\<lambda>e. Not_ours (we_uid e)) (find (\<lambda>e. \<not> entryIsOurs pf keys (facts_of e) (we_mac e)) entries)"

text \<open>The loop over \<open>checkEntryShape\<close>: the first entry that contradicts itself.\<close>

fun first_bad_shape :: "wire_entry list \<Rightarrow> inbound_error option" where
  "first_bad_shape [] = None"
| "first_bad_shape (e # es) =
     (case checkEntryShape e of Some r \<Rightarrow> Some (Bad_shape (we_uid e) r) | None \<Rightarrow> first_bad_shape es)"

text \<open>\<open>plaintextPath\<close> remembers what it opened.\<close>

definition plaintextPath :: "platform \<Rightarrow> schedule \<Rightarrow> jstring \<Rightarrow> engine \<Rightarrow> (crypto_error + jstring) \<times> engine" where
  "plaintextPath pf keys sealed en =
     (case map_of (en_unsealed en) sealed of
        Some plain \<Rightarrow> (Inr plain, en)
      | None \<Rightarrow>
          (case openPath pf keys sealed of
             Inl e \<Rightarrow> (Inl e, en)
           | Inr plain \<Rightarrow> (Inr plain, en\<lparr>en_unsealed := AList.update sealed plain (en_unsealed en)\<rparr>)))"

text \<open>\<open>Promise.all\<close> over it: every path is opened, and the first that fails is the failure.\<close>

fun open_all :: "platform \<Rightarrow> schedule \<Rightarrow> jstring list \<Rightarrow> engine \<Rightarrow> (crypto_error + jstring list) \<times> engine" where
  "open_all pf keys [] en = (Inr [], en)"
| "open_all pf keys (s # ss) en =
     (let (r, en1) = plaintextPath pf keys s en; (rs, en2) = open_all pf keys ss en1
      in (try_then r (\<lambda>p. try_then rs (\<lambda>ps. Inr (p # ps))), en2))"

text \<open>An entry's previous path, where it is one; \<open>if (e.prev)\<close>.\<close>

definition prev_of :: "wire_entry \<Rightarrow> jstring option" where
  "prev_of e = (case we_prev e of Some p \<Rightarrow> if p = [] then None else Some p | None \<Rightarrow> None)"

section \<open>A batch\<close>

definition remote_of_entry :: "wire_entry \<Rightarrow> remote_state" where
  "remote_of_entry e = \<lparr>rs_uid = we_uid e, rs_folder = we_folder e, rs_deleted = we_deleted e, rs_mtime = we_mtime e,
     rs_size = we_size e, rs_hash = contentId (we_chunks e)\<rparr>"

definition retired_by :: "wire_entry \<Rightarrow> remote_state" where
  "retired_by e = \<lparr>rs_uid = we_uid e, rs_folder = False, rs_deleted = True, rs_mtime = we_mtime e,
     rs_size = 0, rs_hash = []\<rparr>"

text \<open>\<open>staged.get(path) ?? this.remote.get(path)\<close>.\<close>

definition prior_of :: "engine \<Rightarrow> (jstring \<times> remote) list \<Rightarrow> jstring \<Rightarrow> remote option" where
  "prior_of en staged path = (case map_of staged path of Some r \<Rightarrow> Some r | None \<Rightarrow> map_of (en_remote en) path)"

definition nul_reason :: "jstring \<Rightarrow> jstring" where
  "nul_reason path = lit ''a path containing a NUL byte''"

text \<open>One entry of the loop: staged, or refused for good because its name cannot be a key.\<close>

definition stage_entry ::
  "(jstring \<Rightarrow> jstring) \<Rightarrow> (path_refusal \<Rightarrow> jstring) \<Rightarrow> wire_entry \<times> jstring \<times> jstring option \<Rightarrow>
   (jstring \<times> remote) list \<times> engine \<Rightarrow> (jstring \<times> remote) list \<times> engine" where
  "stage_entry nfc wording ewo st =
     (let (e, wire, old) = ewo; (staged, en) = st; path = canonicalSpelling nfc wire in
      if path = [] \<or> 0 \<in> set path then
        (staged, en\<lparr>en_refusedInbound := AList.update path
           (case refusedInboundPath path of Some r \<Rightarrow> wording r | None \<Rightarrow> nul_reason path) (en_refusedInbound en)\<rparr>)
      else
        (let staged1 = AList.update path
               (remote_at (remote_of_entry e) (spellingHeads (prior_of en staged path) path wire (we_uid e))) staged
         in case old of
              None \<Rightarrow> (staged1, en)
            | Some old_wire \<Rightarrow>
                (let old = canonicalSpelling nfc old_wire in
                 if old \<noteq> path then
                   (AList.update old
                      (remote_at (retired_by e) (spellingHeads (prior_of en staged1 old) old old_wire (we_uid e))) staged1, en)
                 else
                   (case map_of staged1 path of
                      None \<Rightarrow> (staged1, en)
                    | Some state \<Rightarrow>
                        (AList.update path
                           (state\<lparr>rm_heads := Some (AList.update old_wire (we_uid e)
                              (case rm_heads state of Some h \<Rightarrow> h | None \<Rightarrow> []))\<rparr>) staged1, en)))))"

fun stage_all ::
  "(jstring \<Rightarrow> jstring) \<Rightarrow> (path_refusal \<Rightarrow> jstring) \<Rightarrow> (wire_entry \<times> jstring \<times> jstring option) list \<Rightarrow>
   (jstring \<times> remote) list \<times> engine \<Rightarrow> (jstring \<times> remote) list \<times> engine" where
  "stage_all nfc wording [] st = st"
| "stage_all nfc wording (x # xs) st = stage_all nfc wording xs (stage_entry nfc wording x st)"

definition commit_staged :: "(jstring \<times> remote) list \<Rightarrow> engine \<Rightarrow> engine" where
  "commit_staged staged en =
     foldl (\<lambda>en (path, state). en\<lparr>en_remote := AList.update path state (en_remote en),
              en_pending := set_add path (en_pending en)\<rparr>) en staged"

text \<open>The previous paths that were opened, put back beside their entries.\<close>

fun pair_olds :: "wire_entry list \<Rightarrow> jstring list \<Rightarrow> jstring list \<Rightarrow> (wire_entry \<times> jstring \<times> jstring option) list" where
  "pair_olds (e # es) (w # ws) os =
     (case prev_of e of
        None \<Rightarrow> (e, w, None) # pair_olds es ws os
      | Some _ \<Rightarrow> (case os of [] \<Rightarrow> [] | old # os' \<Rightarrow> (e, w, Some old) # pair_olds es ws os'))"
| "pair_olds _ _ _ = []"

definition acceptBatch ::
  "platform \<Rightarrow> schedule \<Rightarrow> (jstring \<Rightarrow> jstring) \<Rightarrow> (path_refusal \<Rightarrow> jstring) \<Rightarrow> int \<Rightarrow> wire_entry list \<Rightarrow> engine \<Rightarrow>
   inbound_error option \<times> engine" where
  "acceptBatch pf keys nfc wording upto_uid entries en =
     (case mustBeOurs pf keys entries of
        Some err \<Rightarrow> (Some err, en)
      | None \<Rightarrow>
          (case first_bad_shape entries of
             Some err \<Rightarrow> (Some err, en)
           | None \<Rightarrow>
               (let (wires, en1) = open_all pf keys (map we_path entries) en in
                case wires of
                  Inl err \<Rightarrow> (Some (Unsealing err), en1)
                | Inr ws \<Rightarrow>
                    (let (olds, en2) = open_all pf keys (List.map_filter prev_of entries) en1 in
                     case olds of
                       Inl err \<Rightarrow> (Some (Unsealing err), en2)
                     | Inr os \<Rightarrow>
                         (let (staged, en3) = stage_all nfc wording (pair_olds entries ws os) ([], en2)
                          in (None, (commit_staged staged en3)\<lparr>en_cursor := upto_uid\<rparr>))))))"

section \<open>Asking for a head\<close>

text \<open>
  \<open>history\<close> is the transport's answer, the newest version under a sealed name or an error; \<open>say\<close> the
  wording of a refusal. One path of \<open>refreshStaleHeads\<close>.
\<close>

definition head_answer ::
  "platform \<Rightarrow> schedule \<Rightarrow> jstring \<Rightarrow> wire_entry \<Rightarrow> inbound_error option" where
  "head_answer pf keys sealed newest =
     (case mustBeOurs pf keys [newest] of
        Some e \<Rightarrow> Some e
      | None \<Rightarrow>
          (case checkEntryShape newest of
             Some r \<Rightarrow> Some (Bad_shape (we_uid newest) r)
           | None \<Rightarrow> if we_path newest \<noteq> sealed then Some (Another_note sealed) else None))"

definition ask_head ::
  "platform \<Rightarrow> schedule \<Rightarrow> (jstring \<Rightarrow> jstring) \<Rightarrow> (jstring \<Rightarrow> js_error + wire_entry option) \<Rightarrow>
   (inbound_error \<Rightarrow> jstring) \<Rightarrow> int \<Rightarrow> jstring \<times> nat \<Rightarrow> engine \<times> sync_report \<Rightarrow> engine \<times> sync_report" where
  "ask_head pf keys nfc history say now pr st =
     (let (path, refusals) = pr; (en0, report) = st;
          en = en0\<lparr>en_staleHeads := AList.delete path (en_staleHeads en0),
                   en_asked := AList.update path refusals (en_asked en0)\<rparr>;
          known = map_of (en_remote en) path;
          wire = (case known of Some k \<Rightarrow> (case rm_wire k of Some w \<Rightarrow> w | None \<Rightarrow> path) | None \<Rightarrow> path);
          sealed = sealPath pf keys wire;
          en1 = en\<lparr>en_unsealed := AList.update sealed wire (en_unsealed en)\<rparr>
      in case history sealed of
           Inl err \<Rightarrow> recordFailure nfc path err now (en1, report)
         | Inr None \<Rightarrow>
             (en1\<lparr>en_remote := AList.delete path (en_remote en1), en_pending := removeAll path (en_pending en1)\<rparr>, report)
         | Inr (Some newest) \<Rightarrow>
             (case head_answer pf keys sealed newest of
                Some err \<Rightarrow> recordFailure nfc path (plain_error (say err)) now (en1, report)
              | None \<Rightarrow>
                  if (case known of Some k \<Rightarrow> we_uid newest \<le> rs_uid k | None \<Rightarrow> False) then (en1, report)
                  else (en1\<lparr>en_remote := AList.update path
                              (remote_at (remote_of_entry newest) (spellingHeads known path wire (we_uid newest))) (en_remote en1),
                            en_pending := set_add path (en_pending en1)\<rparr>, report)))"

definition refreshStaleHeads ::
  "platform \<Rightarrow> schedule \<Rightarrow> (jstring \<Rightarrow> jstring) \<Rightarrow> (jstring \<Rightarrow> js_error + wire_entry option) \<Rightarrow>
   (inbound_error \<Rightarrow> jstring) \<Rightarrow> bool \<Rightarrow> int \<Rightarrow> engine \<times> sync_report \<Rightarrow> engine \<times> sync_report" where
  "refreshStaleHeads pf keys nfc history say isClosed now st =
     (if en_staleHeads (fst st) = [] \<or> isClosed then st
      else foldl (\<lambda>st pr. ask_head pf keys nfc history say now pr st) st (en_staleHeads (fst st)))"

section \<open>What the cache holds\<close>

lemma engine_self:
  "\<exists>u. en = en\<lparr>en_unsealed := u\<rparr>" "\<exists>u. en = en\<lparr>en_refusedInbound := u\<rparr>" "\<exists>r q. en = en\<lparr>en_remote := r, en_pending := q\<rparr>"
proof -
  have "en = en\<lparr>en_unsealed := en_unsealed en\<rparr>" "en = en\<lparr>en_refusedInbound := en_refusedInbound en\<rparr>"
    "en = en\<lparr>en_remote := en_remote en, en_pending := en_pending en\<rparr>" by simp_all
  then show "\<exists>u. en = en\<lparr>en_unsealed := u\<rparr>" "\<exists>u. en = en\<lparr>en_refusedInbound := u\<rparr>"
    "\<exists>r q. en = en\<lparr>en_remote := r, en_pending := q\<rparr>" by blast+
qed

definition cache_ok :: "platform \<Rightarrow> schedule \<Rightarrow> engine \<Rightarrow> bool" where
  "cache_ok pf keys en \<longleftrightarrow> (\<forall>s p. map_of (en_unsealed en) s = Some p \<longrightarrow> openPath pf keys s = Inr p)"

lemma plaintextPath_spec:
  assumes "cache_ok pf keys en"
  shows "fst (plaintextPath pf keys s en) = openPath pf keys s"
    "cache_ok pf keys (snd (plaintextPath pf keys s en))"
    "\<exists>u. snd (plaintextPath pf keys s en) = en\<lparr>en_unsealed := u\<rparr>"
proof -
  show "fst (plaintextPath pf keys s en) = openPath pf keys s"
    using assms by (auto simp: plaintextPath_def cache_ok_def split: option.splits sum.splits)
  show "cache_ok pf keys (snd (plaintextPath pf keys s en))"
    using assms by (auto simp: plaintextPath_def cache_ok_def js_map_simps split: option.splits sum.splits)
  show "\<exists>u. snd (plaintextPath pf keys s en) = en\<lparr>en_unsealed := u\<rparr>"
    using engine_self(1) [of en] by (auto simp: plaintextPath_def split: option.splits sum.splits)
qed

lemma open_all_spec:
  assumes "cache_ok pf keys en"
  shows "cache_ok pf keys (snd (open_all pf keys ss en))"
    "\<exists>u. snd (open_all pf keys ss en) = en\<lparr>en_unsealed := u\<rparr>"
    "fst (open_all pf keys ss en) = Inr ps \<Longrightarrow> list_all2 (\<lambda>s p. openPath pf keys s = Inr p) ss ps"
proof -
  have "cache_ok pf keys (snd (open_all pf keys ss en)) \<and> (\<exists>u. snd (open_all pf keys ss en) = en\<lparr>en_unsealed := u\<rparr>) \<and>
      (\<forall>ps. fst (open_all pf keys ss en) = Inr ps \<longrightarrow> list_all2 (\<lambda>s p. openPath pf keys s = Inr p) ss ps)"
    using assms
  proof (induction ss arbitrary: en)
    case Nil
    show ?case using Nil engine_self(1) [of en] by simp
  next
    case (Cons s ss)
    obtain u where u: "snd (plaintextPath pf keys s en) = en\<lparr>en_unsealed := u\<rparr>"
      using plaintextPath_spec(3) [OF Cons.prems] by blast
    note ok = plaintextPath_spec(2) [OF Cons.prems, of s] and first = plaintextPath_spec(1) [OF Cons.prems, of s]
    from Cons.IH [OF ok] show ?case
      by (auto simp: Let_def case_prod_beta u first)
  qed
  then show "cache_ok pf keys (snd (open_all pf keys ss en))"
    "\<exists>u. snd (open_all pf keys ss en) = en\<lparr>en_unsealed := u\<rparr>"
    "fst (open_all pf keys ss en) = Inr ps \<Longrightarrow> list_all2 (\<lambda>s p. openPath pf keys s = Inr p) ss ps"
    by blast+
qed

section \<open>Who speaks for a path\<close>

text \<open>An entry of the batch, authenticated and of the right shape, that says this of this path.\<close>

definition speaks_for ::
  "platform \<Rightarrow> schedule \<Rightarrow> (jstring \<Rightarrow> jstring) \<Rightarrow> wire_entry list \<Rightarrow> jstring \<Rightarrow> remote \<Rightarrow> bool" where
  "speaks_for pf keys nfc entries path r \<longleftrightarrow>
     (\<exists>e \<in> set entries. we_mac e = macEntry pf keys (facts_of e) \<and> checkEntryShape e = None \<and>
        ((\<exists>w. openPath pf keys (we_path e) = Inr w \<and> nfc w = path \<and> remote_state.truncate r = remote_of_entry e) \<or>
         (\<exists>p w. we_prev e = Some p \<and> openPath pf keys p = Inr w \<and> nfc w = path \<and> remote_state.truncate r = retired_by e)))"

lemma mustBeOurs_None: "mustBeOurs pf keys es = None \<longleftrightarrow> (\<forall>e \<in> set es. we_mac e = macEntry pf keys (facts_of e))"
  by (simp add: mustBeOurs_def find_None_iff entryIsOurs_iff) blast

lemma first_bad_shape_None: "first_bad_shape es = None \<longleftrightarrow> (\<forall>e \<in> set es. checkEntryShape e = None)"
  by (induction es) (auto split: option.splits)

lemma truncate_remote_at [simp]: "remote_state.truncate (remote_at r wh) = r"
  by (simp add: remote_at_def remote_state.defs)

lemma truncate_heads [simp]: "remote_state.truncate (r\<lparr>rm_heads := h\<rparr>) = remote_state.truncate (r :: remote)"
  by (simp add: remote_state.defs)

lemma retired_not_entry: "prev_of e = Some p \<longleftrightarrow> we_prev e = Some p \<and> p \<noteq> []"
  by (auto simp: prev_of_def split: option.splits if_splits)

text \<open>What the loop leaves, whatever held of everything each entry may say.\<close>

lemma stage_entry_only:
  assumes "stage_entry nfc wording (e, w, old) (staged, en) = (staged', en')"
    and "\<And>p r. map_of staged p = Some r \<Longrightarrow> P p r"
    and "\<And>r. nfc w \<noteq> [] \<Longrightarrow> 0 \<notin> set (nfc w) \<Longrightarrow> remote_state.truncate r = remote_of_entry e \<Longrightarrow> P (nfc w) r"
    and "\<And>o' r. old = Some o' \<Longrightarrow> remote_state.truncate r = retired_by e \<Longrightarrow> P (nfc o') r"
    and "\<And>p r h. P p r \<Longrightarrow> P p (r\<lparr>rm_heads := h\<rparr>)"
  shows "\<forall>p r. map_of staged' p = Some r \<longrightarrow> P p r"
  using assms(1-4)
  by (auto simp: stage_entry_def canonicalSpelling_def Let_def js_map_simps intro: assms(5)
      split: if_splits option.splits)

lemma stage_entry_engine:
  "stage_entry nfc wording x (staged, en) = (staged', en') \<Longrightarrow> \<exists>u. en' = en\<lparr>en_refusedInbound := u\<rparr>"
  using engine_self(2) [of en] by (auto simp: stage_entry_def Let_def split: if_splits option.splits prod.splits)

lemma stage_all_engine:
  "stage_all nfc wording xs (staged, en) = (staged', en') \<Longrightarrow> \<exists>u. en' = en\<lparr>en_refusedInbound := u\<rparr>"
proof (induction xs arbitrary: staged en)
  case Nil
  then show ?case using engine_self(2) [of en] by simp
next
  case (Cons x xs)
  obtain s1 e1 where s: "stage_entry nfc wording x (staged, en) = (s1, e1)" by force
  from stage_entry_engine [OF s] Cons.IH [of s1 e1] Cons.prems show ?case by (auto simp: s)
qed

lemma stage_all_only:
  assumes "stage_all nfc wording xs (staged, en) = (staged', en')"
    and "\<And>p r. map_of staged p = Some r \<Longrightarrow> P p r"
    and "\<And>e w old r. (e, w, old) \<in> set xs \<Longrightarrow> nfc w \<noteq> [] \<Longrightarrow> 0 \<notin> set (nfc w) \<Longrightarrow>
       remote_state.truncate r = remote_of_entry e \<Longrightarrow> P (nfc w) r"
    and "\<And>e w o' r. (e, w, Some o') \<in> set xs \<Longrightarrow> remote_state.truncate r = retired_by e \<Longrightarrow> P (nfc o') r"
    and "\<And>p r h. P p r \<Longrightarrow> P p (r\<lparr>rm_heads := h\<rparr>)"
  shows "map_of staged' p = Some r \<Longrightarrow> P p r"
  using assms(1-4)
proof (induction xs arbitrary: staged en)
  case (Cons x xs)
  obtain e w old where x: "x = (e, w, old)" by (cases x)
  obtain s1 e1 where s: "stage_entry nfc wording x (staged, en) = (s1, e1)" by force
  have "\<forall>p r. map_of s1 p = Some r \<longrightarrow> P p r"
  proof (rule stage_entry_only [OF s [unfolded x]])
    show "\<And>p r. map_of staged p = Some r \<Longrightarrow> P p r" by (rule Cons.prems(3))
    show "\<And>r. nfc w \<noteq> [] \<Longrightarrow> 0 \<notin> set (nfc w) \<Longrightarrow> remote_state.truncate r = remote_of_entry e \<Longrightarrow> P (nfc w) r"
      by (rule Cons.prems(4) [of e w old]) (simp_all add: x)
    show "\<And>o' r. old = Some o' \<Longrightarrow> remote_state.truncate r = retired_by e \<Longrightarrow> P (nfc o') r"
      by (rule Cons.prems(5) [of e w]) (simp_all add: x)
  qed (rule assms(5))
  then have s1: "\<And>p r. map_of s1 p = Some r \<Longrightarrow> P p r" by blast
  have rest: "stage_all nfc wording xs (s1, e1) = (staged', en')" using Cons.prems(2) by (simp add: s)
  show ?case
  proof (rule Cons.IH [OF Cons.prems(1) rest s1])
    fix e w old and r :: remote
    assume "(e, w, old) \<in> set xs" "nfc w \<noteq> []" "0 \<notin> set (nfc w)" "remote_state.truncate r = remote_of_entry e"
    then show "P (nfc w) r" by (intro Cons.prems(4) [of e w old]) simp_all
  next
    fix e w o' and r :: remote
    assume "(e, w, Some o') \<in> set xs" "remote_state.truncate r = retired_by e"
    then show "P (nfc o') r" by (intro Cons.prems(5) [of e w]) simp_all
  qed
qed simp

lemma map_of_rev_distinct: "distinct (map fst xs) \<Longrightarrow> map_of (rev xs) p = map_of xs p"
proof (cases "map_of xs p")
  case None
  then have "map_of (rev xs) p = None" by (simp add: map_of_eq_None_iff)
  with None show ?thesis by simp
next
  case (Some v)
  assume "distinct (map fst xs)"
  then have "distinct (map fst (rev xs))" by (simp add: rev_map [symmetric])
  moreover have "(p, v) \<in> set (rev xs)" using Some by (simp add: map_of_SomeD)
  ultimately show ?thesis using Some by (simp only: map_of_is_SomeI)
qed

lemma commit_staged_spec:
  "map_of (en_remote (commit_staged staged en)) p = (case map_of (rev staged) p of Some r \<Rightarrow> Some r | None \<Rightarrow> map_of (en_remote en) p)"
  "set (en_pending (commit_staged staged en)) = set (en_pending en) \<union> fst ` set staged"
  "\<exists>r q. commit_staged staged en = en\<lparr>en_remote := r, en_pending := q\<rparr>"
proof -
  show "map_of (en_remote (commit_staged staged en)) p = (case map_of (rev staged) p of Some r \<Rightarrow> Some r | None \<Rightarrow> map_of (en_remote en) p)"
    by (induction staged arbitrary: en) (auto simp: commit_staged_def js_map_simps map_add_def split: option.splits)
  show "set (en_pending (commit_staged staged en)) = set (en_pending en) \<union> fst ` set staged"
    by (induction staged arbitrary: en) (auto simp: commit_staged_def)
  show "\<exists>r q. commit_staged staged en = en\<lparr>en_remote := r, en_pending := q\<rparr>"
  proof (induction staged arbitrary: en)
    case Nil
    show ?case using engine_self(3) [of en] by (simp add: commit_staged_def)
  next
    case (Cons x xs)
    from Cons.IH [of "en\<lparr>en_remote := AList.update (fst x) (snd x) (en_remote en), en_pending := set_add (fst x) (en_pending en)\<rparr>"]
    show ?case by (auto simp: commit_staged_def case_prod_beta)
  qed
qed

lemma stage_entry_distinct:
  "stage_entry nfc wording x (staged, en) = (staged', en') \<Longrightarrow> distinct (map fst staged) \<Longrightarrow> distinct (map fst staged')"
  by (auto simp: stage_entry_def Let_def distinct_update split: if_splits option.splits prod.splits)

lemma stage_all_distinct:
  "stage_all nfc wording xs (staged, en) = (staged', en') \<Longrightarrow> distinct (map fst staged) \<Longrightarrow> distinct (map fst staged')"
proof (induction xs arbitrary: staged en)
  case (Cons x xs)
  obtain s1 e1 where s: "stage_entry nfc wording x (staged, en) = (s1, e1)" by force
  show ?case using Cons.IH [of s1 e1] Cons.prems stage_entry_distinct [OF s] by (simp add: s)
qed simp

lemma pair_olds_mem:
  "(e, w, old) \<in> set (pair_olds es ws os) \<Longrightarrow> list_all2 P (map we_path es) ws \<Longrightarrow> list_all2 Q (List.map_filter prev_of es) os \<Longrightarrow>
     e \<in> set es \<and> P (we_path e) w \<and> (\<forall>o'. old = Some o' \<longrightarrow> (\<exists>p. prev_of e = Some p \<and> Q p o'))"
proof (induction es ws os rule: pair_olds.induct)
  case (1 e' es w' ws os)
  show ?case
  proof (cases "prev_of e'")
    case None
    with 1 show ?thesis by (auto simp: map_filter_simps)
  next
    case (Some p)
    with 1 show ?thesis by (cases os) (auto simp: map_filter_simps)
  qed
qed simp_all

section \<open>Properties\<close>


definition sample_keys :: schedule where
  "sample_keys = \<lparr>path_key = [1], content_key = [2], nonce_key = [3], meta_key = [4]\<rparr>"

definition sample_unsigned :: wire_entry where
  "sample_unsigned = \<lparr>we_uid = 7, we_path = sealPath plain_platform sample_keys (lit ''a.md''), we_mac = [], we_parent = None, we_size = 0,
     we_ctime = 1, we_mtime = 2, we_folder = False, we_deleted = False, we_device = lit ''d'', we_prev = None, we_chunks = []\<rparr>"

definition sample_entry :: wire_entry where
  "sample_entry = sample_unsigned\<lparr>we_mac := macEntry plain_platform sample_keys (facts_of sample_unsigned)\<rparr>"

lemma sealPath_not_Nil: "aead_laws pf \<Longrightarrow> sealPath pf keys p \<noteq> []"
proof
  assume laws: "aead_laws pf" and Nil: "sealPath pf keys p = []"
  have "seal pf (path_key keys) (nonce_key keys) (utf8_encode p) \<noteq> []"
    using open_seal(2) [OF laws, of "path_key keys" "nonce_key keys" "utf8_encode p"] by (metis add_is_0 list.size(3) zero_neq_numeral)
  moreover have "b64_loop 0 0 0 [] = Inr (seal pf (path_key keys) (nonce_key keys) (utf8_encode p))"
    using decode_encode Nil by (metis sealPath_def)
  ultimately show False by (simp add: b64_loop.simps(1))
qed

lemma sample_accepted:
  "mustBeOurs plain_platform sample_keys [sample_entry] = None" "first_bad_shape [sample_entry] = None"
  "openPath plain_platform sample_keys (we_path sample_entry) = Inr (lit ''a.md'')"
proof -
  show "mustBeOurs plain_platform sample_keys [sample_entry] = None"
    by (simp add: mustBeOurs_None sample_entry_def facts_of_def)
  have "isDigest (macEntry plain_platform sample_keys f)" for f
  proof -
    have "length (hmac_sha256 plain_platform k m) = 32" for k m using plain_laws(1) by (simp add: aead_laws_def)
    moreover have "list_all is_lower_hex (hex b)" for b
      by (auto simp: list_all_iff dest!: hex_digits(1) intro: is_lower_hex_digit)
    ultimately show ?thesis by (simp add: isDigest_def is_chunk_name_def macEntry_def hex_digits(2))
  qed
  then show "first_bad_shape [sample_entry] = None"
    by (simp add: checkEntryShape_def sample_entry_def sample_unsigned_def sealPath_not_Nil [OF plain_laws(1)])
  have "well_formed (lit ''a.md'')" by (rule well_formed_ascii) auto
  from open_sealPath [OF plain_laws(1) this] show "openPath plain_platform sample_keys (we_path sample_entry) = Inr (lit ''a.md'')"
    by (simp add: sample_entry_def sample_unsigned_def starts_with_def)
qed


section \<open>Refusals that repeat\<close>

text \<open>How often a path was refused as out of date since it last settled or backed off.\<close>

definition refused_in :: "(jstring \<times> nat) list \<Rightarrow> (jstring \<times> nat) list \<Rightarrow> jstring \<Rightarrow> nat" where
  "refused_in heads asked path =
     (case map_of heads path of Some n \<Rightarrow> n | None \<Rightarrow> (case map_of asked path of Some n \<Rightarrow> n | None \<Rightarrow> 0))"

definition refused_so_far :: "jstring \<Rightarrow> engine \<Rightarrow> nat" where
  "refused_so_far path en = refused_in (en_staleHeads en) (en_asked en) path"

lemma stale_refusals_count: "stale_refusals path en = refused_so_far path en + 1"
  by (simp add: stale_refusals_def refused_so_far_def refused_in_def)

lemma refused_in_update [simp]:
  "refused_in (AList.update q n heads) asked path = (if q = path then n else refused_in heads asked path)"
  "refused_in (AList.delete path heads) (AList.delete path asked) path = 0"
  "refused_in (AList.delete path heads) (AList.update path n asked) path = n"
  "q \<noteq> path \<Longrightarrow> refused_in (AList.delete q heads) asked path = refused_in heads asked path"
  "q \<noteq> path \<Longrightarrow> refused_in heads (AList.delete q asked) path = refused_in heads asked path"
  "q \<noteq> path \<Longrightarrow> refused_in heads (AList.update q n asked) path = refused_in heads asked path"
  by (auto simp: refused_in_def js_map_simps split: option.splits)

lemma forget_prev_counts [simp]:
  "en_staleHeads (forget_prev nfc p en) = en_staleHeads en" "en_asked (forget_prev nfc p en) = en_asked en"
  "en_again (forget_prev nfc p en) = en_again en"
  by (simp_all add: forget_prev_def split: option.splits)

lemma fail_path_counts [simp]:
  "en_staleHeads (fst (fail_path p err m now st)) = en_staleHeads (fst st)" "en_asked (fst (fail_path p err m now st)) = en_asked (fst st)"
  "en_again (fst (fail_path p err m now st)) = en_again (fst st)"
  by (simp_all add: fail_path_def Let_def case_prod_beta)

lemma recordFailure_counts:
  "\<not> is_code err ''stale'' \<Longrightarrow> refused_so_far path (fst (recordFailure nfc q err now st)) = refused_so_far path (fst st)"
  "q \<noteq> path \<Longrightarrow> refused_so_far path (fst (recordFailure nfc q err now st)) = refused_so_far path (fst st)"
  "is_code err ''stale'' \<Longrightarrow> refused_so_far path (fst st) < STALE_REFUSALS_BEFORE_BACKOFF \<Longrightarrow>
     refused_so_far path (fst (recordFailure nfc path err now st)) = Suc (refused_so_far path (fst st))"
  by (simp_all add: recordFailure_def refused_so_far_def stale_refusals_count Let_def)

lemma recordFailure_stale_distinct:
  "distinct (map fst (en_staleHeads (fst st))) \<Longrightarrow> distinct (map fst (en_staleHeads (fst (recordFailure nfc q err now st))))"
  by (auto simp: recordFailure_def Let_def distinct_update distinct_delete)

text \<open>Reading a history is no write, so it is not refused as out of date.\<close>

definition never_stale :: "(jstring \<Rightarrow> js_error + wire_entry option) \<Rightarrow> bool" where
  "never_stale history \<longleftrightarrow> (\<forall>s err. history s = Inl err \<longrightarrow> \<not> is_code err ''stale'')"

lemma ask_head_counts:
  assumes "never_stale history"
  shows "q \<noteq> path \<Longrightarrow> refused_so_far path (fst (ask_head pf keys nfc history say now (q, n) st)) = refused_so_far path (fst st)"
    "refused_so_far path (fst (ask_head pf keys nfc history say now (path, n) st)) = n"
    "distinct (map fst (en_staleHeads (fst st))) \<Longrightarrow>
       distinct (map fst (en_staleHeads (fst (ask_head pf keys nfc history say now (q, n) st))))"
proof -
  have plain: "\<not> is_code (plain_error m) ''stale''" for m by (simp add: plain_error_def is_code_def)
  note defs = ask_head_def Let_def case_prod_beta recordFailure_counts(1) [unfolded refused_so_far_def] plain
  show "q \<noteq> path \<Longrightarrow> refused_so_far path (fst (ask_head pf keys nfc history say now (q, n) st)) = refused_so_far path (fst st)"
    using assms by (auto simp: defs never_stale_def refused_so_far_def split: option.splits sum.splits)
  show "refused_so_far path (fst (ask_head pf keys nfc history say now (path, n) st)) = n"
    using assms by (auto simp: defs never_stale_def refused_so_far_def split: option.splits sum.splits)
  show "distinct (map fst (en_staleHeads (fst st))) \<Longrightarrow>
       distinct (map fst (en_staleHeads (fst (ask_head pf keys nfc history say now (q, n) st))))"
    by (auto simp: ask_head_def Let_def case_prod_beta distinct_delete split: option.splits sum.splits
        intro!: recordFailure_stale_distinct)
qed

lemma refresh_counts:
  assumes "never_stale history" and "distinct (map fst (en_staleHeads (fst st)))"
  shows "refused_so_far path (fst (refreshStaleHeads pf keys nfc history say isClosed now st)) = refused_so_far path (fst st)"
    "distinct (map fst (en_staleHeads (fst (refreshStaleHeads pf keys nfc history say isClosed now st))))"
proof -
  let ?ask = "\<lambda>st pr. ask_head pf keys nfc history say now pr st"
  have fold: "refused_so_far path (fst (foldl ?ask st hs)) = refused_so_far path (fst st)"
    if "distinct (map fst hs)" "\<And>n. (path, n) \<in> set hs \<Longrightarrow> n = refused_so_far path (fst st)" for hs st
    using that
  proof (induction hs arbitrary: st)
    case (Cons h hs)
    obtain q n where h: "h = (q, n)" by force
    show ?case
    proof (cases "q = path")
      case True
      have "refused_so_far path (fst (?ask st h)) = refused_so_far path (fst st)"
        using ask_head_counts(2) [OF assms(1)] Cons.prems(2) [of n] by (simp add: h True)
      moreover have "(path, m) \<notin> set hs" for m using Cons.prems(1) True h by force
      ultimately show ?thesis using Cons.IH [of "?ask st h"] Cons.prems(1) by simp
    next
      case False
      then show ?thesis using Cons.IH [of "?ask st h"] Cons.prems ask_head_counts(1) [OF assms(1) False] by (simp add: h)
    qed
  qed simp
  have "n = refused_so_far path (fst st)" if "(path, n) \<in> set (en_staleHeads (fst st))" for n
    using that assms(2) by (simp add: refused_so_far_def refused_in_def)
  then show "refused_so_far path (fst (refreshStaleHeads pf keys nfc history say isClosed now st)) = refused_so_far path (fst st)"
    using fold [OF assms(2)] by (simp add: refreshStaleHeads_def)
  have "distinct (map fst (en_staleHeads (fst (foldl ?ask st hs))))" if "distinct (map fst (en_staleHeads (fst st)))" for hs st
    using that proof (induction hs arbitrary: st)
    case (Cons h hs)
    obtain q n where h: "h = (q, n)" by force
    show ?case using Cons.IH [OF ask_head_counts(3) [OF assms(1) Cons.prems, where q = q and n = n]] by (simp add: h)
  qed simp
  then show "distinct (map fst (en_staleHeads (fst (refreshStaleHeads pf keys nfc history say isClosed now st))))"
    using assms(2) by (simp add: refreshStaleHeads_def)
qed

text \<open>
  A path that keeps being refused: \<open>refusing pf keys nfc path st n st'\<close> when it was refused \<open>n\<close> times and tried
  again at once each time, whatever the server answered in between and whatever befell other paths.
\<close>

inductive refusing ::
  "platform \<Rightarrow> schedule \<Rightarrow> (jstring \<Rightarrow> jstring) \<Rightarrow> jstring \<Rightarrow> engine \<times> sync_report \<Rightarrow> nat \<Rightarrow> engine \<times> sync_report \<Rightarrow> bool"
  for pf keys nfc path st where
  begun: "distinct (map fst (en_staleHeads (fst st))) \<Longrightarrow> refusing pf keys nfc path st 0 st"
| refused: "refusing pf keys nfc path st n st' \<Longrightarrow> is_code err ''stale'' \<Longrightarrow>
     refused_so_far path (fst st') < STALE_REFUSALS_BEFORE_BACKOFF \<Longrightarrow>
     refusing pf keys nfc path st (Suc n) (recordFailure nfc path err now st')"
| asked: "refusing pf keys nfc path st n st' \<Longrightarrow> never_stale history \<Longrightarrow>
     refusing pf keys nfc path st n (refreshStaleHeads pf keys nfc history say isClosed now st')"
| elsewhere: "refusing pf keys nfc path st n st' \<Longrightarrow> q \<noteq> path \<or> \<not> is_code err ''stale'' \<Longrightarrow>
     refusing pf keys nfc path st n (recordFailure nfc q err now st')"

lemma refusing_counts:
  "refusing pf keys nfc path st n st' \<Longrightarrow>
     refused_so_far path (fst st') = refused_so_far path (fst st) + n \<and> distinct (map fst (en_staleHeads (fst st')))
     \<and> (n = 0 \<or> refused_so_far path (fst st') \<le> STALE_REFUSALS_BEFORE_BACKOFF)"
proof (induction rule: refusing.induct)
  case (elsewhere n st' q err now)
  then show ?case using recordFailure_counts(1,2) by (metis recordFailure_stale_distinct)
next
  case (asked n st' history say isClosed now)
  then have d: "distinct (map fst (en_staleHeads (fst st')))" by blast
  show ?case unfolding refresh_counts(1) [OF asked.hyps(2) d]
    by (intro conjI refresh_counts(2) [OF asked.hyps(2) d]) (use asked.IH in blast)+
qed (simp_all add: recordFailure_counts(3) recordFailure_stale_distinct)

lemma fail_path_stale:
  assumes "is_code err ''stale''" and "\<not> er_connection err"
  shows "(\<exists>r. map_of (en_retries (fst (fail_path path err m now st))) path = Some r \<and> now + 10000 \<le> rt_at r) \<and>
    sr_waiting (snd (fail_path path err m now st)) = sr_waiting (snd st)"
proof -
  have "10000 \<le> 5000 * (2 :: int) ^ (k + 1)" for k using one_le_power [of "2 :: int" k] by simp
  then have wait: "10000 \<le> retry_wait (k + 1)" for k by (simp add: retry_wait_def)
  have other: "\<not> is_code err ''ignored''" "\<not> list_ex (is_code err) PERMANENT"
    using assms(1) by (simp_all add: is_code_def PERMANENT_def)
  show ?thesis using assms(2) other wait
    by (simp add: fail_path_def Let_def case_prod_beta js_map_simps sooner_def noteRetrying_def)
qed

text \<open>C34. A write that the server keeps refusing as out of date is tried again at once at most three times, however often
  the server is asked for the head in between. The refusal after that is an ordinary failure: the path waits at
  least ten seconds, its count starts afresh, and no further pass is asked for on its account.\<close>

theorem stale_refusals_back_off:
  assumes "refusing pf keys nfc path st n st'"
  shows "n \<le> 3 \<and>
    (refused_so_far path (fst st') = 3 \<longrightarrow> is_code err ''stale'' \<longrightarrow> \<not> er_connection err \<longrightarrow>
       (let (en, report) = recordFailure nfc path err now st' in
          (\<exists>r. map_of (en_retries en) path = Some r \<and> rt_at r \<ge> now + 10000) \<and>
          refused_so_far path en = 0 \<and> en_again en = en_again (fst st') \<and> sr_waiting report = sr_waiting (snd st')))"
proof
  show "n \<le> 3" using refusing_counts [OF assms] by (auto simp: STALE_REFUSALS_BEFORE_BACKOFF_def)
  show "refused_so_far path (fst st') = 3 \<longrightarrow> is_code err ''stale'' \<longrightarrow> \<not> er_connection err \<longrightarrow>
       (let (en, report) = recordFailure nfc path err now st' in
          (\<exists>r. map_of (en_retries en) path = Some r \<and> rt_at r \<ge> now + 10000) \<and>
          refused_so_far path en = 0 \<and> en_again en = en_again (fst st') \<and> sr_waiting report = sr_waiting (snd st'))"
  proof (intro impI)
    assume count: "refused_so_far path (fst st') = 3" and stale: "is_code err ''stale''" and net: "\<not> er_connection err"
    define en where "en = (forget_prev nfc path (fst st'))
      \<lparr>en_staleHeads := AList.delete path (en_staleHeads (forget_prev nfc path (fst st'))),
       en_asked := AList.delete path (en_asked (forget_prev nfc path (fst st')))\<rparr>"
    have "stale_refusals path (forget_prev nfc path (fst st')) = 4"
      using count by (simp add: stale_refusals_count refused_so_far_def)
    then have "recordFailure nfc path err now st' = fail_path path err (stale_message (er_message err) 4) now (en, snd st')"
      by (simp add: recordFailure_def stale STALE_REFUSALS_BEFORE_BACKOFF_def en_def)
    moreover have "refused_so_far path en = 0" "en_again en = en_again (fst st')"
      by (simp_all add: refused_so_far_def en_def)
    ultimately show "let (en, report) = recordFailure nfc path err now st' in
          (\<exists>r. map_of (en_retries en) path = Some r \<and> rt_at r \<ge> now + 10000) \<and>
          refused_so_far path en = 0 \<and> en_again en = en_again (fst st') \<and> sr_waiting report = sr_waiting (snd st')"
      using fail_path_stale [OF stale net, where st = "(en, snd st')"] by (simp add: refused_so_far_def case_prod_beta)
  qed
qed

definition stale_error :: js_error where
  "stale_error = \<lparr>er_code = Some (lit ''stale''), er_connection = False, er_message = []\<rparr>"

lemma stale_refusals_back_off_witness:
  "let refuse = recordFailure id (lit ''a.md'') stale_error 50; st = (fresh_engine, emptyReport)
   in refused_so_far (lit ''a.md'') (fst (refuse (refuse (refuse st)))) = 3 \<and>
      refused_so_far (lit ''a.md'') (fst (refuse (refuse (refuse (refuse st))))) = 0"
proof -
  let ?p = "lit ''a.md''" and ?st = "(fresh_engine, emptyReport)"
  let ?refuse = "recordFailure id ?p stale_error 50"
  have stale: "is_code stale_error ''stale''" "\<not> er_connection stale_error" by (simp_all add: is_code_def stale_error_def)
  have 0: "refusing plain_platform sample_keys id ?p ?st 0 ?st" by (rule begun) (simp add: fresh_engine_def)
  have c0: "refused_so_far ?p (fst ?st) = 0" by (simp add: refused_so_far_def refused_in_def fresh_engine_def)
  have 1: "refusing plain_platform sample_keys id ?p ?st 1 (?refuse ?st)"
    using refused [OF 0 stale(1)] c0 by (simp add: STALE_REFUSALS_BEFORE_BACKOFF_def)
  have c1: "refused_so_far ?p (fst (?refuse ?st)) = 1" using refusing_counts [OF 1] c0 by simp
  have 2: "refusing plain_platform sample_keys id ?p ?st 2 (?refuse (?refuse ?st))"
    using refused [OF 1 stale(1)] c1 by (simp add: STALE_REFUSALS_BEFORE_BACKOFF_def numeral_2_eq_2)
  have c2: "refused_so_far ?p (fst (?refuse (?refuse ?st))) = 2" using refusing_counts [OF 2] c0 by simp
  have 3: "refusing plain_platform sample_keys id ?p ?st 3 (?refuse (?refuse (?refuse ?st)))"
    using refused [OF 2 stale(1)] c2 by (simp add: STALE_REFUSALS_BEFORE_BACKOFF_def numeral_3_eq_3)
  have c3: "refused_so_far ?p (fst (?refuse (?refuse (?refuse ?st)))) = 3" using refusing_counts [OF 3] c0 by simp
  show ?thesis using stale_refusals_back_off [OF 3, of stale_error 50] c3 stale by (simp add: Let_def case_prod_beta)
qed

end
