(* ===== verification/Vault.thy ===== *)
theory Vault
  imports Engine_State Crypto "HOL-Library.List_Lexorder"
begin

text \<open>
  Where the files live: \<open>client/src/core/vault.ts\<close>. The interface \<open>Vault\<close> is a record of operations over a
  state; \<open>MemoryVault\<close> is the implementation the repository keeps in core, with its seams (the save that lands
  in the middle of a replacement, the name taken in the instant it is free) as functions on its state;
  \<open>timedVault\<close> measures another vault. The contract the engine relies on, that a preserving write or removal
  keeps what it displaces, is the locale \<open>preserving_vault\<close>, and \<open>MemoryVault\<close> is shown to honour it.
\<close>

section \<open>Calls that change a state and may fail\<close>

type_synonym ('s, 'a) act = "'s \<Rightarrow> (js_error + 'a) \<times> 's"

definition give :: "'a \<Rightarrow> ('s, 'a) act" where
  "give x = (\<lambda>s. (Inr x, s))"

definition throw :: "js_error \<Rightarrow> ('s, 'a) act" where
  "throw e = (\<lambda>s. (Inl e, s))"

definition and_then :: "('s, 'a) act \<Rightarrow> ('a \<Rightarrow> ('s, 'b) act) \<Rightarrow> ('s, 'b) act" where
  "and_then m f = (\<lambda>s. case m s of (Inl e, s') \<Rightarrow> (Inl e, s') | (Inr x, s') \<Rightarrow> f x s')"

text \<open>\<open>try\<close> with a \<open>catch\<close> that knows the error.\<close>

definition or_else :: "('s, 'a) act \<Rightarrow> (js_error \<Rightarrow> ('s, 'a) act) \<Rightarrow> ('s, 'a) act" where
  "or_else m f = (\<lambda>s. case m s of (Inl e, s') \<Rightarrow> f e s' | (Inr x, s') \<Rightarrow> (Inr x, s'))"

lemma act_simps [simp]:
  "give x s = (Inr x, s)" "throw e s = (Inl e, s)"
  "and_then (give x) f = f x" "and_then (throw e) f = throw e"
  "m s = (Inr x, s') \<Longrightarrow> and_then m f s = f x s'" "m s = (Inl e, s') \<Longrightarrow> and_then m f s = (Inl e, s')"
  "m s = (Inr x, s') \<Longrightarrow> or_else m h s = (Inr x, s')" "m s = (Inl e, s') \<Longrightarrow> or_else m h s = h e s'"
  by (simp_all add: give_def throw_def and_then_def or_else_def)

lemma and_then_Inr:
  "and_then m f s = (Inr y, s'') \<longleftrightarrow> (\<exists>x s'. m s = (Inr x, s') \<and> f x s' = (Inr y, s''))"
  by (auto simp: and_then_def split: prod.splits sum.splits)

lemma and_then_Inl:
  "and_then m f s = (Inl e, s'') \<longleftrightarrow> m s = (Inl e, s'') \<or> (\<exists>x s'. m s = (Inr x, s') \<and> f x s' = (Inl e, s''))"
  by (auto simp: and_then_def split: prod.splits sum.splits)

section \<open>The interface\<close>

record file_times =
  tm_mtime :: rat
  tm_ctime :: rat

record file_stat =
  st_path :: jstring
  st_folder :: bool
  st_mtime :: rat
  st_ctime :: rat
  st_size :: nat
  st_changeId :: "jstring option"

record expected =
  ex_contentId :: jstring
  ex_idOf :: "bytes \<Rightarrow> jstring"

record replaced =
  rp_keptAt :: "jstring option"
  rp_landed :: bool

text \<open>The members of \<open>Vault\<close> the engine calls. An optional one is \<open>None\<close> where the adapter cannot offer it.\<close>

record 'v vault =
  vt_list :: "('v, file_stat list) act"
  vt_read :: "jstring \<Rightarrow> ('v, bytes) act"
  vt_stat :: "jstring \<Rightarrow> ('v, file_stat option) act"
  vt_write :: "jstring \<Rightarrow> bytes \<Rightarrow> file_times \<Rightarrow> ('v, unit) act"
  vt_replace :: "(jstring \<Rightarrow> expected option \<Rightarrow> bytes \<Rightarrow> file_times \<Rightarrow> jstring \<Rightarrow> ('v, replaced) act) option"
  vt_remove :: "jstring \<Rightarrow> ('v, unit) act"
  vt_mkdir :: "jstring \<Rightarrow> ('v, unit) act"
  vt_exists :: "jstring \<Rightarrow> ('v, bool) act"
  vt_sameFile :: "(jstring \<Rightarrow> jstring \<Rightarrow> ('v, bool) act) option"
  vt_canonical :: "(jstring \<Rightarrow> jstring) option"
  vt_create :: "(jstring \<Rightarrow> bytes \<Rightarrow> file_times \<Rightarrow> ('v, bool) act) option"
  vt_contentDigest :: "(jstring \<Rightarrow> ('v, jstring option) act) option"
  vt_removeExpecting :: "(jstring \<Rightarrow> expected option \<Rightarrow> jstring \<Rightarrow> ('v, replaced) act) option"

section \<open>A vault in memory\<close>

record memory_file =
  mf_bytes :: bytes
  mf_mtime :: rat
  mf_ctime :: rat

text \<open>Its fields; \<open>mv_notified\<close> is what the listeners were called with.\<close>

record memory_vault =
  mv_files :: "(jstring \<times> memory_file) list"
  mv_folders :: "jstring list"
  mv_notified :: "jstring list"
  mv_reads :: nat
  mv_nameTakenOnce :: "bytes option"
  mv_failRemoveOnce :: "jstring option"

text \<open>The two hooks: what else happens to the vault at that point.\<close>

record hooks =
  hk_midReplace :: "jstring \<Rightarrow> memory_vault \<Rightarrow> memory_vault"
  hk_beforeRemove :: "jstring \<Rightarrow> memory_vault \<Rightarrow> memory_vault"

fun parents_from :: "jstring \<Rightarrow> jstring list \<Rightarrow> jstring list" where
  "parents_from so_far [] = []"
| "parents_from so_far (part # parts) =
     (let here = (if so_far \<noteq> [] then so_far @ slash # part else part) in here # parents_from here parts)"

definition parentFolders :: "jstring \<Rightarrow> jstring list" where
  "parentFolders path = parents_from [] (butlast (split_on slash path))"

definition notify :: "jstring \<Rightarrow> memory_vault \<Rightarrow> memory_vault" where
  "notify path v = v\<lparr>mv_notified := mv_notified v @ [path]\<rparr>"

definition folder_stat :: "jstring \<Rightarrow> file_stat" where
  "folder_stat path = \<lparr>st_path = path, st_folder = True, st_mtime = 0, st_ctime = 0, st_size = 0, st_changeId = None\<rparr>"

definition stat_of_file :: "jstring \<Rightarrow> memory_file \<Rightarrow> file_stat" where
  "stat_of_file path f = \<lparr>st_path = path, st_folder = False, st_mtime = mf_mtime f, st_ctime = mf_ctime f,
     st_size = length (mf_bytes f), st_changeId = None\<rparr>"

definition mem_list :: "(memory_vault, file_stat list) act" where
  "mem_list v = (Inr (sort_key st_path (map folder_stat (mv_folders v) @ map (\<lambda>(path, f). stat_of_file path f) (mv_files v))), v)"

definition no_such_file :: "jstring \<Rightarrow> js_error" where
  "no_such_file path = plain_error (lit ''no such file: '' @ path)"

definition mem_read :: "jstring \<Rightarrow> (memory_vault, bytes) act" where
  "mem_read path v =
     (case map_of (mv_files v) path of
        None \<Rightarrow> (Inl (no_such_file path), v)
      | Some f \<Rightarrow> (Inr (mf_bytes f), v\<lparr>mv_reads := mv_reads v + 1\<rparr>))"

definition mem_stat :: "jstring \<Rightarrow> (memory_vault, file_stat option) act" where
  "mem_stat path v =
     (case map_of (mv_files v) path of
        Some f \<Rightarrow> (Inr (Some (stat_of_file path f)), v)
      | None \<Rightarrow> if path \<in> set (mv_folders v) then (Inr (Some (folder_stat path)), v) else (Inr None, v))"

definition add_parents :: "jstring \<Rightarrow> jstring list \<Rightarrow> jstring list" where
  "add_parents path folders = foldl (\<lambda>fs p. set_add p fs) folders (parentFolders path)"

definition put_file :: "jstring \<Rightarrow> bytes \<Rightarrow> file_times \<Rightarrow> memory_vault \<Rightarrow> memory_vault" where
  "put_file path bytes tms v =
     notify path (v\<lparr>mv_files := AList.update path \<lparr>mf_bytes = bytes, mf_mtime = tm_mtime tms, mf_ctime = tm_ctime tms\<rparr> (mv_files v),
                    mv_folders := add_parents path (mv_folders v)\<rparr>)"

definition mem_write :: "jstring \<Rightarrow> bytes \<Rightarrow> file_times \<Rightarrow> (memory_vault, unit) act" where
  "mem_write path bytes tms v = (Inr (), put_file path bytes tms v)"

text \<open>Whether a displaced version is the one the caller decided about; without a baseline it is not.\<close>

definition agrees :: "expected option \<Rightarrow> bytes \<Rightarrow> bool" where
  "agrees expect bytes \<longleftrightarrow> (case expect of None \<Rightarrow> False | Some e \<Rightarrow> ex_idOf e bytes = ex_contentId e)"

definition mem_replace ::
  "hooks \<Rightarrow> jstring \<Rightarrow> expected option \<Rightarrow> bytes \<Rightarrow> file_times \<Rightarrow> jstring \<Rightarrow> (memory_vault, replaced) act" where
  "mem_replace hk path expect bytes tms keepAt v0 =
     (let v = hk_midReplace hk path v0; taken = mv_nameTakenOnce v in
      case map_of (mv_files v) path of
        None \<Rightarrow>
          (let v1 = v\<lparr>mv_nameTakenOnce := None\<rparr> in
           case taken of
             Some other \<Rightarrow> (Inr \<lparr>rp_keptAt = None, rp_landed = False\<rparr>, put_file path other tms v1)
           | None \<Rightarrow> (Inr \<lparr>rp_keptAt = None, rp_landed = True\<rparr>, put_file path bytes tms v1))
      | Some was \<Rightarrow>
          (let v1 = v\<lparr>mv_files := AList.delete path (AList.update keepAt was (mv_files v)), mv_nameTakenOnce := None\<rparr>;
               v2 = put_file path (case taken of Some other \<Rightarrow> other | None \<Rightarrow> bytes) tms v1;
               landed = (taken = None)
           in if landed \<and> agrees expect (mf_bytes was) then
                (Inr \<lparr>rp_keptAt = None, rp_landed = landed\<rparr>,
                 notify keepAt (v2\<lparr>mv_files := AList.delete keepAt (mv_files v2)\<rparr>))
              else (Inr \<lparr>rp_keptAt = Some keepAt, rp_landed = landed\<rparr>, notify keepAt v2)))"

definition locked :: "jstring \<Rightarrow> js_error" where
  "locked path = plain_error (lit ''refusing to remove '' @ path @ lit '', as a locked file would'')"

definition mem_remove :: "hooks \<Rightarrow> jstring \<Rightarrow> (memory_vault, unit) act" where
  "mem_remove hk path v0 =
     (let v = hk_beforeRemove hk path v0 in
      if mv_failRemoveOnce v = Some path then (Inl (locked path), v\<lparr>mv_failRemoveOnce := None\<rparr>)
      else (Inr (), notify path (v\<lparr>mv_files := AList.delete path (mv_files v),
                                   mv_folders := removeAll path (mv_folders v)\<rparr>)))"

definition mem_removeExpecting ::
  "hooks \<Rightarrow> jstring \<Rightarrow> expected option \<Rightarrow> jstring \<Rightarrow> (memory_vault, replaced) act" where
  "mem_removeExpecting hk path expect keepAt v0 =
     (let v = hk_midReplace hk path v0 in
      case map_of (mv_files v) path of
        None \<Rightarrow> and_then (mem_remove hk path) (\<lambda>_. give \<lparr>rp_keptAt = None, rp_landed = True\<rparr>) v
      | Some was \<Rightarrow>
          (let v1 = hk_beforeRemove hk path v in
           if mv_failRemoveOnce v1 = Some path then (Inl (locked path), v1\<lparr>mv_failRemoveOnce := None\<rparr>)
           else
             (let v2 = notify path (v1\<lparr>mv_files := AList.delete path (mv_files v1)\<rparr>) in
              if agrees expect (mf_bytes was) then (Inr \<lparr>rp_keptAt = None, rp_landed = True\<rparr>, v2)
              else (Inr \<lparr>rp_keptAt = Some keepAt, rp_landed = True\<rparr>,
                    notify keepAt (v2\<lparr>mv_files := AList.update keepAt was (mv_files v2)\<rparr>)))))"

definition mem_mkdir :: "jstring \<Rightarrow> (memory_vault, unit) act" where
  "mem_mkdir path v = (Inr (), notify path (v\<lparr>mv_folders := add_parents path (set_add path (mv_folders v))\<rparr>))"

definition taken_name :: "memory_vault \<Rightarrow> jstring \<Rightarrow> bool" where
  "taken_name v path \<longleftrightarrow> path \<in> fst ` set (mv_files v) \<or> path \<in> set (mv_folders v)"

definition mem_exists :: "jstring \<Rightarrow> (memory_vault, bool) act" where
  "mem_exists path v = (Inr (taken_name v path), v)"

definition mem_create :: "jstring \<Rightarrow> bytes \<Rightarrow> file_times \<Rightarrow> (memory_vault, bool) act" where
  "mem_create path bytes tms v = (if taken_name v path then (Inr False, v) else (Inr True, put_file path bytes tms v))"

definition mem_contentDigest :: "platform \<Rightarrow> jstring \<Rightarrow> (memory_vault, jstring option) act" where
  "mem_contentDigest pf path v = (Inr (map_option (\<lambda>f. plainDigest pf (mf_bytes f)) (map_of (mv_files v) path)), v)"

definition memoryVault :: "platform \<Rightarrow> hooks \<Rightarrow> memory_vault vault" where
  "memoryVault pf hk = \<lparr>vt_list = mem_list, vt_read = mem_read, vt_stat = mem_stat, vt_write = mem_write,
     vt_replace = Some (mem_replace hk), vt_remove = mem_remove hk, vt_mkdir = mem_mkdir, vt_exists = mem_exists,
     vt_sameFile = None, vt_canonical = None, vt_create = Some mem_create,
     vt_contentDigest = Some (mem_contentDigest pf), vt_removeExpecting = Some (mem_removeExpecting hk)\<rparr>"

section \<open>A vault that is measured\<close>

text \<open>
  \<open>timedVault\<close>: the state gains the table \<open>into\<close>; \<open>elapsed op n\<close> is what the clock says the \<open>n\<close>-th call of an
  operation took.
\<close>

type_synonym timings = "(string \<times> rat \<times> nat) list"

definition timed :: "(string \<Rightarrow> nat \<Rightarrow> rat) \<Rightarrow> string \<Rightarrow> ('v, 'a) act \<Rightarrow> ('v \<times> timings, 'a) act" where
  "timed elapsed opr run s =
     (let (r, v) = run (fst s);
          (ms, calls) = (case map_of (snd s) opr of Some seen \<Rightarrow> seen | None \<Rightarrow> (0, 0))
      in (r, v, AList.update opr (ms + elapsed opr calls, calls + 1) (snd s)))"

definition forwarded :: "('v, 'a) act \<Rightarrow> ('v \<times> timings, 'a) act" where
  "forwarded run s = (let (r, v) = run (fst s) in (r, v, snd s))"

definition timedVault :: "(string \<Rightarrow> nat \<Rightarrow> rat) \<Rightarrow> 'v vault \<Rightarrow> ('v \<times> timings) vault" where
  "timedVault elapsed inner = \<lparr>
     vt_list = timed elapsed ''list'' (vt_list inner),
     vt_read = (\<lambda>path. timed elapsed ''read'' (vt_read inner path)),
     vt_stat = (\<lambda>path. timed elapsed ''stat'' (vt_stat inner path)),
     vt_write = (\<lambda>path bytes tms. timed elapsed ''write'' (vt_write inner path bytes tms)),
     vt_replace = map_option (\<lambda>replace path expect bytes tms keepAt.
       timed elapsed ''replace'' (replace path expect bytes tms keepAt)) (vt_replace inner),
     vt_remove = (\<lambda>path. timed elapsed ''remove'' (vt_remove inner path)),
     vt_mkdir = (\<lambda>path. timed elapsed ''mkdir'' (vt_mkdir inner path)),
     vt_exists = (\<lambda>path. timed elapsed ''exists'' (vt_exists inner path)),
     vt_sameFile = map_option (\<lambda>same a b. forwarded (same a b)) (vt_sameFile inner),
     vt_canonical = vt_canonical inner,
     vt_create = map_option (\<lambda>create path bytes tms. timed elapsed ''create'' (create path bytes tms)) (vt_create inner),
     vt_contentDigest = None,
     vt_removeExpecting = map_option (\<lambda>rem path expect keepAt.
       timed elapsed ''removeExpecting'' (rem path expect keepAt)) (vt_removeExpecting inner)\<rparr>"

lemma timed_same: "fst (timed elapsed opr run s) = fst (run (fst s))" "fst (snd (timed elapsed opr run s)) = snd (run (fst s))"
  by (simp_all add: timed_def Let_def case_prod_beta)

section \<open>The contract of a preserving vault\<close>

text \<open>
  What the engine relies on when it writes over or removes a file. \<open>content v p\<close> is the content at a path and
  \<open>meanwhile p v\<close> the vault as it stood when the version at \<open>p\<close> was taken off its name, whatever an editor did
  until then. A version taken off its name is at \<open>keepAt\<close> afterwards unless it is the one the caller
  decided about; no other path is touched; a name is only claimed where nothing was.
\<close>

locale preserving_vault =
  fixes V :: "'v vault"
    and content :: "'v \<Rightarrow> jstring \<Rightarrow> bytes option"
    and meanwhile :: "jstring \<Rightarrow> 'v \<Rightarrow> 'v"
    and rep :: "jstring \<Rightarrow> expected option \<Rightarrow> bytes \<Rightarrow> file_times \<Rightarrow> jstring \<Rightarrow> ('v, replaced) act"
    and rem :: "jstring \<Rightarrow> expected option \<Rightarrow> jstring \<Rightarrow> ('v, replaced) act"
    and cre :: "jstring \<Rightarrow> bytes \<Rightarrow> file_times \<Rightarrow> ('v, bool) act"
  assumes offered: "vt_replace V = Some rep" "vt_removeExpecting V = Some rem" "vt_create V = Some cre"
    and exists_ok: "vt_exists V p v = (r, v') \<Longrightarrow> content v' = content v \<and> (r = Inr False \<longrightarrow> content v p = None)"
    and stat_ok: "vt_stat V p v = (rs, v') \<Longrightarrow> content v' = content v"
    and read_ok: "vt_read V p v = (rb, v') \<Longrightarrow> content v' = content v \<and> (\<forall>bs. rb = Inr bs \<longrightarrow> content v p = Some bs)"
    and same_ok: "vt_sameFile V = Some alike \<Longrightarrow> alike p q v = (rt, v') \<Longrightarrow> content v' = content v"
    and create_ok: "cre p bs tms v = (r, v') \<Longrightarrow>
      (if r = Inr True then content v p = None \<and> content v' = (content v)(p := Some bs) else content v' = content v)"
    and replace_ok: "rep p e bs tms k v = (Inr out, v') \<Longrightarrow> k \<noteq> p \<Longrightarrow> content (meanwhile p v) k = None \<Longrightarrow>
      (\<forall>q. q \<noteq> p \<longrightarrow> q \<noteq> k \<longrightarrow> content v' q = content (meanwhile p v) q) \<and>
      (rp_landed out \<longrightarrow> content v' p = Some bs) \<and>
      (case rp_keptAt out of
         Some kept \<Rightarrow> kept = k \<and> content v' k = content (meanwhile p v) p
       | None \<Rightarrow> content v' k = None \<and> (\<forall>old. content (meanwhile p v) p = Some old \<longrightarrow> rp_landed out \<and> agrees e old))"
    and remove_ok: "rem p e k v = (Inr out, v') \<Longrightarrow> k \<noteq> p \<Longrightarrow> content (meanwhile p v) k = None \<Longrightarrow>
      (\<forall>q. q \<noteq> p \<longrightarrow> q \<noteq> k \<longrightarrow> content v' q = content (meanwhile p v) q) \<and> content v' p = None \<and>
      (case rp_keptAt out of
         Some kept \<Rightarrow> kept = k \<and> content v' k = content (meanwhile p v) p
       | None \<Rightarrow> content v' k = None \<and> (\<forall>old. content (meanwhile p v) p = Some old \<longrightarrow> agrees e old))"
    and failed_ok: "rep p e bs tms k v = (Inl err, v') \<Longrightarrow> content v' = content (meanwhile p v)"
      "rem p e k v = (Inl err, v') \<Longrightarrow> content v' = content (meanwhile p v)"

text \<open>\<open>MemoryVault\<close> honours it, whatever a save in the middle of the call does to the vault.\<close>

definition mem_file :: "memory_vault \<Rightarrow> jstring \<Rightarrow> bytes option" where
  "mem_file v path = map_option mf_bytes (map_of (mv_files v) path)"

definition editing :: "(jstring \<Rightarrow> memory_vault \<Rightarrow> memory_vault) \<Rightarrow> hooks" where
  "editing f = \<lparr>hk_midReplace = f, hk_beforeRemove = (\<lambda>_ v. v)\<rparr>"

lemma editing_simps [simp]: "hk_midReplace (editing f) = f" "hk_beforeRemove (editing f) p v = v"
  by (simp_all add: editing_def)

lemma mem_file_simps [simp]:
  "mem_file (notify p v) = mem_file v"
  "mem_file (put_file p bs tms v) = (mem_file v)(p := Some bs)"
  "mem_file (v\<lparr>mv_reads := n\<rparr>) = mem_file v" "mem_file (v\<lparr>mv_folders := fs\<rparr>) = mem_file v"
  "mem_file (v\<lparr>mv_nameTakenOnce := t\<rparr>) = mem_file v" "mem_file (v\<lparr>mv_failRemoveOnce := x\<rparr>) = mem_file v"
  by (auto simp: mem_file_def notify_def put_file_def js_map_simps fun_eq_iff)

lemma mem_file_delete [simp]:
  "mem_file (v\<lparr>mv_files := AList.delete p fs\<rparr>) = (mem_file (v\<lparr>mv_files := fs\<rparr>))(p := None)"
  "mem_file (v\<lparr>mv_files := AList.update p f fs\<rparr>) = (mem_file (v\<lparr>mv_files := fs\<rparr>))(p := Some (mf_bytes f))"
  "mem_file (v\<lparr>mv_files := AList.delete p fs, mv_folders := gs\<rparr>) = (mem_file (v\<lparr>mv_files := fs\<rparr>))(p := None)"
  "mem_file (v\<lparr>mv_files := AList.delete p fs, mv_nameTakenOnce := t\<rparr>) = (mem_file (v\<lparr>mv_files := fs\<rparr>))(p := None)"
  by (auto simp: mem_file_def js_map_simps fun_eq_iff)

lemma mem_file_same [simp]: "mem_file (v\<lparr>mv_files := mv_files v\<rparr>) = mem_file v"
  by simp

lemma taken_name_file: "\<not> taken_name v p \<Longrightarrow> mem_file v p = None"
  by (simp add: taken_name_def mem_file_def map_of_eq_None_iff)

lemma mem_replace_ok:
  assumes "mem_replace (editing f) p e bs tms k v = (Inr out, v')" and "k \<noteq> p" and "mem_file (f p v) k = None"
  shows "(\<forall>q. q \<noteq> p \<longrightarrow> q \<noteq> k \<longrightarrow> mem_file v' q = mem_file (f p v) q) \<and>
    (rp_landed out \<longrightarrow> mem_file v' p = Some bs) \<and>
    (case rp_keptAt out of
       Some kept \<Rightarrow> kept = k \<and> mem_file v' k = mem_file (f p v) p
     | None \<Rightarrow> mem_file v' k = None \<and> (\<forall>old. mem_file (f p v) p = Some old \<longrightarrow> rp_landed out \<and> agrees e old))"
  using assms
  by (auto simp: mem_replace_def Let_def mem_file_def [of "f p v"] split: option.splits if_splits)

lemma mem_removeExpecting_ok:
  assumes "mem_removeExpecting (editing f) p e k v = (Inr out, v')" and "k \<noteq> p" and "mem_file (f p v) k = None"
  shows "(\<forall>q. q \<noteq> p \<longrightarrow> q \<noteq> k \<longrightarrow> mem_file v' q = mem_file (f p v) q) \<and> mem_file v' p = None \<and>
    (case rp_keptAt out of
       Some kept \<Rightarrow> kept = k \<and> mem_file v' k = mem_file (f p v) p
     | None \<Rightarrow> mem_file v' k = None \<and> (\<forall>old. mem_file (f p v) p = Some old \<longrightarrow> agrees e old))"
  using assms
  by (auto simp: mem_removeExpecting_def mem_remove_def and_then_def Let_def mem_file_def [of "f p v"]
      split: option.splits if_splits)

lemma mem_failed_ok:
  "mem_replace (editing f) p e bs tms k v = (Inl err, v') \<Longrightarrow> mem_file v' = mem_file (f p v)"
  "mem_removeExpecting (editing f) p e k v = (Inl err, v') \<Longrightarrow> mem_file v' = mem_file (f p v)"
  by (auto simp: mem_replace_def mem_removeExpecting_def mem_remove_def and_then_def Let_def split: option.splits if_splits)

interpretation memory: preserving_vault "memoryVault pf (editing f)" mem_file f "mem_replace (editing f)"
    "mem_removeExpecting (editing f)" mem_create for pf f
proof unfold_locales
  fix p :: jstring and v v' :: memory_vault and r
  show "vt_exists (memoryVault pf (editing f)) p v = (r, v') \<Longrightarrow>
      mem_file v' = mem_file v \<and> (r = Inr False \<longrightarrow> mem_file v p = None)"
    by (auto simp: memoryVault_def mem_exists_def taken_name_file)
next
  fix p :: jstring and v v' :: memory_vault and rs
  show "vt_stat (memoryVault pf (editing f)) p v = (rs, v') \<Longrightarrow> mem_file v' = mem_file v"
    by (auto simp: memoryVault_def mem_stat_def split: option.splits if_splits)
next
  fix p :: jstring and bs tms and v v' :: memory_vault and r
  show "mem_create p bs tms v = (r, v') \<Longrightarrow>
      (if r = Inr True then mem_file v p = None \<and> mem_file v' = (mem_file v)(p := Some bs) else mem_file v' = mem_file v)"
    by (auto simp: mem_create_def taken_name_file split: if_splits)
next
  fix p :: jstring and v v' :: memory_vault and rb
  show "vt_read (memoryVault pf (editing f)) p v = (rb, v') \<Longrightarrow>
      mem_file v' = mem_file v \<and> (\<forall>bs. rb = Inr bs \<longrightarrow> mem_file v p = Some bs)"
    by (auto simp: memoryVault_def mem_read_def mem_file_def fun_eq_iff split: option.splits)
qed (use mem_replace_ok mem_removeExpecting_ok mem_failed_ok in \<open>auto simp: memoryVault_def\<close>)

end
