(* ===== verification/Engine_Fetch.thy ===== *)
theory Engine_Fetch
  imports Vault Engine_Inbound
begin

text \<open>
  How a version's bytes come down and are put together again, from \<open>client/src/core/engine.ts\<close>: the split of a chunk list
  into asks (\<open>planFetches\<close>, \<open>fetchAll\<close>), what need not be asked for (\<open>heldByContent\<close>, \<open>reusableFrom\<close>), the assembly
  (\<open>assemble\<close>) and the naming of a file that is sent (\<open>sealedNames\<close>, \<open>rehash\<close>). Shown: every name is asked for once, in order and
  within both bounds; an assembly is the version or an error; and what one device cuts, seals and names, another
  puts together to the same bytes.
\<close>

section \<open>Asks\<close>

definition entryBudget :: "int \<Rightarrow> nat \<Rightarrow> int" where
  "entryBudget sz chunkCount = sz + 256 * int chunkCount"

definition perChunkBudget :: "int \<Rightarrow> nat \<Rightarrow> int" where
  "perChunkBudget sz chunks = entryBudget \<lceil>rat_of_int sz / rat_of_nat (max 1 chunks)\<rceil> 1"

text \<open>One turn of the loop: the asks so far, the ask that is open and its bytes.\<close>

definition plan_step ::
  "('n \<Rightarrow> int) \<Rightarrow> int \<Rightarrow> nat \<Rightarrow> 'n list list \<times> 'n list \<times> int \<Rightarrow> 'n \<Rightarrow> 'n list list \<times> 'n list \<times> int" where
  "plan_step budgetOf maxBytes maxNames st name =
     (let (asks, ask, bytes) = st; cost = budgetOf name in
      if ask \<noteq> [] \<and> (bytes + cost > maxBytes \<or> length ask \<ge> maxNames) then (asks @ [ask], [name], cost)
      else (asks, ask @ [name], bytes + cost))"

definition planFetches :: "'n list \<Rightarrow> ('n \<Rightarrow> int) \<Rightarrow> int \<Rightarrow> nat \<Rightarrow> 'n list list" where
  "planFetches names budgetOf maxBytes maxNames =
     (let (asks, ask, _) = foldl (plan_step budgetOf maxBytes maxNames) ([], [], 0) names
      in if ask \<noteq> [] then asks @ [ask] else asks)"

definition MAX_FETCH_NAMES :: nat where "MAX_FETCH_NAMES = 65536"

text \<open>An ask is within both bounds, but for a name that is over the byte bound alone.\<close>

definition fits :: "('n \<Rightarrow> int) \<Rightarrow> int \<Rightarrow> nat \<Rightarrow> 'n list \<Rightarrow> bool" where
  "fits budgetOf maxBytes maxNames ask \<longleftrightarrow> ask \<noteq> [] \<and> length ask \<le> max 1 maxNames \<and>
     (sum_list (map budgetOf ask) \<le> maxBytes \<or> length ask = 1)"

text \<open>No ask could have taken the first name of the next one.\<close>

fun greedy :: "('n \<Rightarrow> int) \<Rightarrow> int \<Rightarrow> nat \<Rightarrow> 'n list list \<Rightarrow> bool" where
  "greedy budgetOf maxBytes maxNames (a # b # asks) \<longleftrightarrow>
     (sum_list (map budgetOf a) + budgetOf (hd b) > maxBytes \<or> length a \<ge> maxNames) \<and> greedy budgetOf maxBytes maxNames (b # asks)"
| "greedy budgetOf maxBytes maxNames _ \<longleftrightarrow> True"

lemma greedy_snoc:
  "greedy f m n (asks @ [a, b]) \<longleftrightarrow>
     greedy f m n (asks @ [a]) \<and> (sum_list (map f a) + f (hd b) > m \<or> length a \<ge> n)"
  by (induction f m n asks rule: greedy.induct) auto

lemma greedy_extend: "a \<noteq> [] \<Longrightarrow> greedy f m n (asks @ [a]) \<Longrightarrow> greedy f m n (asks @ [a @ xs])"
  by (cases asks rule: rev_cases) (simp_all add: greedy_snoc)

definition planned :: "('n \<Rightarrow> int) \<Rightarrow> int \<Rightarrow> nat \<Rightarrow> 'n list \<Rightarrow> 'n list list \<times> 'n list \<times> int \<Rightarrow> bool" where
  "planned f m n done st \<longleftrightarrow> (case st of (asks, ask, bytes) \<Rightarrow>
     concat asks @ ask = done \<and> bytes = sum_list (map f ask) \<and> (\<forall>a \<in> set asks. fits f m n a) \<and>
     (if ask = [] then asks = [] else fits f m n ask \<and> greedy f m n (asks @ [ask])))"

lemma plan_step_planned:
  assumes "planned f m n done st"
  shows "planned f m n (done @ [name]) (plan_step f m n st name)"
proof -
  obtain asks ask bytes where st: "st = (asks, ask, bytes)" by (cases st)
  have one: "fits f m n [name]" by (simp add: fits_def)
  show ?thesis
  proof (cases "ask \<noteq> [] \<and> (bytes + f name > m \<or> length ask \<ge> n)")
    case True
    then have "greedy f m n (asks @ [ask, [name]])" using assms by (auto simp: planned_def st greedy_snoc)
    with True assms one show ?thesis by (auto simp: planned_def plan_step_def st)
  next
    case False
    then have "fits f m n (ask @ [name])" using assms one by (auto simp: planned_def st fits_def split: if_splits)
    moreover have "greedy f m n (asks @ [ask @ [name]])"
      using assms greedy_extend [of ask f m n asks "[name]"] by (cases "ask = []") (auto simp: planned_def st)
    ultimately show ?thesis using False assms by (auto simp: planned_def plan_step_def st)
  qed
qed

lemma planned_all: "planned f m n names (foldl (plan_step f m n) ([], [], 0) names)"
proof (induction names rule: rev_induct)
  case (snoc name names)
  then show ?case using plan_step_planned by fastforce
qed (simp add: planned_def)

text \<open>C37. The asks a chunk list is split into hold every name once and in the order given. Each is within the byte
  budget and the count the server allows, except that a name over the budget travels alone; and the
  split is greedy, so no ask could have taken the first name of the one after it.\<close>

theorem planned_asks_are_exact:
  "concat (planFetches names budgetOf maxBytes maxNames) = names \<and>
   (\<forall>ask \<in> set (planFetches names budgetOf maxBytes maxNames). fits budgetOf maxBytes maxNames ask) \<and>
   greedy budgetOf maxBytes maxNames (planFetches names budgetOf maxBytes maxNames)"
proof -
  obtain asks ask bytes where st: "foldl (plan_step budgetOf maxBytes maxNames) ([], [], 0) names = (asks, ask, bytes)"
    by (cases "foldl (plan_step budgetOf maxBytes maxNames) ([], [], 0) names")
  from planned_all [of budgetOf maxBytes maxNames names] show ?thesis
    by (auto simp: planned_def st planFetches_def split: if_splits)
qed

lemma planned_asks_are_exact_witness:
  "let asks = planFetches [1, 2, 3, 4 :: nat] int 5 10 in concat asks = [1, 2, 3, 4] \<and> (\<forall>ask \<in> set asks. fits int 5 10 ask)"
  using planned_asks_are_exact [of "[1, 2, 3, 4 :: nat]" int 5 10] by (simp add: Let_def)

section \<open>Fetching\<close>

text \<open>A limit of the server held to this device's own; \<open>None\<close> before the handshake.\<close>

definition limitOn :: "(limits \<Rightarrow> int) \<Rightarrow> limits option \<Rightarrow> int" where
  "limitOn which server = boundedBy (case server of None \<Rightarrow> 0 | Some l \<Rightarrow> which l) (which OWN_LIMITS)"

definition fetchCap :: "limits option \<Rightarrow> bool \<Rightarrow> int" where
  "fetchCap server active =
     (if active then min (limitOn lm_maxFetchBytes server) (2 * 1024 * 1024) else limitOn lm_maxFetchBytes server)"

text \<open>\<open>main\<close> is \<open>transport.fetch\<close> on the wire the session runs on, \<open>second\<close> the one \<open>withUploadTransport\<close> opens.\<close>

fun collect :: "('n list \<Rightarrow> ('s, bytes list) act) \<Rightarrow> 'n list list \<Rightarrow> ('s, bytes list) act" where
  "collect ask_for [] = give []"
| "collect ask_for (ask # asks) =
     and_then (ask_for ask) (\<lambda>bodies. and_then (collect ask_for asks) (\<lambda>rest. give (bodies @ rest)))"

definition fetchAll ::
  "limits option \<Rightarrow> bool \<Rightarrow> bool \<Rightarrow> bool \<Rightarrow> ('n list \<Rightarrow> ('s, bytes list) act) \<Rightarrow>
   ('n list \<Rightarrow> ('s, bytes list) act) option \<Rightarrow> 'n list \<Rightarrow> ('n \<Rightarrow> int) \<Rightarrow> ('s, bytes list) act" where
  "fetchAll server active syncing servicing main second names budgetOf =
     (let serverCap = limitOn lm_maxFetchBytes server; cap = fetchCap server active;
          whole = sum_list (map budgetOf names)
      in case second of
           Some wire \<Rightarrow>
             if syncing \<and> cap < serverCap \<and> whole > cap \<and> \<not> servicing
             then collect wire (planFetches names budgetOf serverCap MAX_FETCH_NAMES)
             else collect main (planFetches names budgetOf cap MAX_FETCH_NAMES)
         | None \<Rightarrow> collect main (planFetches names budgetOf cap MAX_FETCH_NAMES))"

text \<open>A wire that serves \<open>body\<close>: the bodies of an ask come back in its order. \<open>transport.fetch\<close> checks each one's hash.\<close>

definition serves :: "('n \<Rightarrow> bytes) \<Rightarrow> ('n list \<Rightarrow> ('s, bytes list) act) \<Rightarrow> bool" where
  "serves body ask_for \<longleftrightarrow> (\<forall>ask s. fst (ask_for ask s) = Inr (map body ask))"

lemma collect_serves: "serves body ask_for \<Longrightarrow> fst (collect ask_for asks s) = Inr (map body (concat asks))"
proof (induction asks arbitrary: s)
  case (Cons ask asks)
  obtain s' where "ask_for ask s = (Inr (map body ask), s')" using Cons.prems by (metis serves_def prod.collapse)
  moreover obtain s'' where "collect ask_for asks s' = (Inr (map body (concat asks)), s'')"
    using Cons by (metis prod.collapse)
  ultimately show ?case by simp
qed simp

lemma planFetches_concat: "concat (planFetches names budgetOf maxBytes maxNames) = names"
  using planned_all [of budgetOf maxBytes maxNames names]
  by (auto simp: planned_def planFetches_def split: prod.splits if_splits)

lemma fetchAll_serves:
  assumes "serves body main" and "\<And>wire. second = Some wire \<Longrightarrow> serves body wire"
  shows "fst (fetchAll server active syncing servicing main second names budgetOf s) = Inr (map body names)"
  using assms by (auto simp: fetchAll_def Let_def collect_serves planFetches_concat split: option.splits)

section \<open>Putting a version together\<close>

datatype assembly_error =
    Nothing_assembled nat
  | Offered_over nat int
  | Chunk_missing
  | Chunk_unopened crypto_error
  | Over_total nat
  | Wrong_total nat nat
  | Too_many_chunks nat int

definition checkChunkCount :: "limits option \<Rightarrow> nat \<Rightarrow> assembly_error option" where
  "checkChunkCount server count =
     (if int count > limitOn lm_maxChunks server then Some (Too_many_chunks count (limitOn lm_maxChunks server)) else None)"

definition SEAL_WINDOW :: nat where "SEAL_WINDOW = 16"

text \<open>\<open>for (let at = 0; at < xs.length; at += w) xs.slice(at, at + w)\<close>.\<close>

function windows :: "nat \<Rightarrow> 'a list \<Rightarrow> 'a list list" where
  "windows w xs = (if xs = [] \<or> w = 0 then [] else take w xs # windows w (drop w xs))"
  by pat_completeness auto
termination by (relation "measure (\<lambda>(w, xs). length xs)") auto

declare windows.simps [simp del]

lemma windows_concat: "0 < w \<Longrightarrow> concat (windows w xs) = xs"
  by (induction w xs rule: windows.induct) (subst windows.simps, auto)

text \<open>A window of bodies, opened at once; the first that fails is the failure.\<close>

fun open_window :: "platform \<Rightarrow> schedule \<Rightarrow> bytes option list \<Rightarrow> assembly_error + bytes list" where
  "open_window pf keys [] = Inr []"
| "open_window pf keys (b # bs) =
     (case b of
        None \<Rightarrow> Inl Chunk_missing
      | Some body \<Rightarrow>
          (case openChunk pf keys body of
             Inl e \<Rightarrow> Inl (Chunk_unopened e)
           | Inr part \<Rightarrow> try_then (open_window pf keys bs) (\<lambda>parts. Inr (part # parts))))"

text \<open>\<open>out.set(part, at)\<close>.\<close>

definition set_at :: "'a list \<Rightarrow> nat \<Rightarrow> 'a list \<Rightarrow> 'a list" where
  "set_at out i part = take i out @ part @ drop (i + length part) out"

fun fill_window :: "int \<Rightarrow> nat \<Rightarrow> bytes list \<Rightarrow> nat \<times> bytes \<Rightarrow> assembly_error + nat \<times> bytes" where
  "fill_window perFileMax declared [] st = Inr st"
| "fill_window perFileMax declared (part # parts) st =
     (let tot = fst st + length part in
      if int tot > perFileMax then Inl (Over_total tot)
      else fill_window perFileMax declared parts
             (tot, if tot \<le> declared then set_at (snd st) (tot - length part) part else snd st))"

fun assemble_loop ::
  "platform \<Rightarrow> schedule \<Rightarrow> int \<Rightarrow> nat \<Rightarrow> bytes option list list \<Rightarrow> nat \<times> bytes \<Rightarrow> assembly_error + nat \<times> bytes" where
  "assemble_loop pf keys perFileMax declared [] st = Inr st"
| "assemble_loop pf keys perFileMax declared (win # wins) st =
     try_then (open_window pf keys win) (\<lambda>parts.
       try_then (fill_window perFileMax declared parts st) (\<lambda>st.
         assemble_loop pf keys perFileMax declared wins st))"

definition assemble ::
  "platform \<Rightarrow> schedule \<Rightarrow> limits option \<Rightarrow> bytes option list \<Rightarrow> nat \<Rightarrow> assembly_error + bytes" where
  "assemble pf keys server bodies declared =
     (if bodies = [] then (if declared \<noteq> 0 then Inl (Nothing_assembled declared) else Inr [])
      else if int declared > limitOn lm_perFileMax server then Inl (Offered_over declared (limitOn lm_perFileMax server))
      else try_then
             (assemble_loop pf keys (limitOn lm_perFileMax server) declared (windows SEAL_WINDOW bodies) (0, replicate declared 0))
             (\<lambda>(tot, out). if tot \<noteq> declared then Inl (Wrong_total tot declared) else Inr out))"

definition opens_to :: "platform \<Rightarrow> schedule \<Rightarrow> bytes option \<Rightarrow> bytes \<Rightarrow> bool" where
  "opens_to pf keys b part \<longleftrightarrow> (\<exists>body. b = Some body \<and> openChunk pf keys body = Inr part)"

lemma try_then_Inr: "try_then m f = Inr y \<longleftrightarrow> (\<exists>x. m = Inr x \<and> f x = Inr y)"
  by (cases m) auto

lemma open_window_Inr: "open_window pf keys bs = Inr parts \<longleftrightarrow> list_all2 (opens_to pf keys) bs parts"
proof (induction bs arbitrary: parts)
  case (Cons b bs)
  then show ?case
    by (cases parts) (auto simp: opens_to_def try_then_Inr split: option.splits sum.splits)
qed auto

lemma fill_window_append:
  "fill_window mx declared (ps @ qs) st = try_then (fill_window mx declared ps st) (fill_window mx declared qs)"
  by (induction ps arbitrary: st) (simp_all add: Let_def)

lemma list_all2_append_left:
  "list_all2 P (xs @ ys) zs \<longleftrightarrow> (\<exists>us vs. zs = us @ vs \<and> list_all2 P xs us \<and> list_all2 P ys vs)"
  unfolding list_all2_append1 by (metis list_all2_lengthD)

lemma assemble_loop_Inr:
  "assemble_loop pf keys mx declared wins st = Inr st' \<longleftrightarrow>
     (\<exists>parts. list_all2 (opens_to pf keys) (concat wins) parts \<and> fill_window mx declared parts st = Inr st')"
proof (induction wins arbitrary: st)
  case (Cons win wins)
  have "assemble_loop pf keys mx declared (win # wins) st = Inr st' \<longleftrightarrow>
      (\<exists>us st1 vs. list_all2 (opens_to pf keys) win us \<and> fill_window mx declared us st = Inr st1 \<and>
         list_all2 (opens_to pf keys) (concat wins) vs \<and> fill_window mx declared vs st1 = Inr st')"
    by (simp only: assemble_loop.simps try_then_Inr open_window_Inr Cons.IH) blast
  moreover have "(\<exists>parts. list_all2 (opens_to pf keys) (concat (win # wins)) parts \<and> fill_window mx declared parts st = Inr st') \<longleftrightarrow>
      (\<exists>us st1 vs. list_all2 (opens_to pf keys) win us \<and> fill_window mx declared us st = Inr st1 \<and>
         list_all2 (opens_to pf keys) (concat wins) vs \<and> fill_window mx declared vs st1 = Inr st')"
  proof (intro iffI; elim exE conjE)
    fix parts
    assume all: "list_all2 (opens_to pf keys) (concat (win # wins)) parts" and f: "fill_window mx declared parts st = Inr st'"
    from all obtain us vs where p: "parts = us @ vs" "list_all2 (opens_to pf keys) win us" "list_all2 (opens_to pf keys) (concat wins) vs"
      by (auto simp: list_all2_append_left)
    with f obtain st1 where "fill_window mx declared us st = Inr st1" "fill_window mx declared vs st1 = Inr st'"
      by (auto simp: fill_window_append try_then_Inr)
    with p show "\<exists>us st1 vs. list_all2 (opens_to pf keys) win us \<and> fill_window mx declared us st = Inr st1 \<and>
         list_all2 (opens_to pf keys) (concat wins) vs \<and> fill_window mx declared vs st1 = Inr st'" by blast
  next
    fix us st1 vs
    assume "list_all2 (opens_to pf keys) win us" "fill_window mx declared us st = Inr st1"
      "list_all2 (opens_to pf keys) (concat wins) vs" "fill_window mx declared vs st1 = Inr st'"
    then have "list_all2 (opens_to pf keys) (concat (win # wins)) (us @ vs) \<and> fill_window mx declared (us @ vs) st = Inr st'"
      by (simp add: list_all2_appendI fill_window_append)
    then show "\<exists>parts. list_all2 (opens_to pf keys) (concat (win # wins)) parts \<and> fill_window mx declared parts st = Inr st'" ..
  qed
  ultimately show ?case by simp
qed simp

lemma fill_window_spec:
  assumes "length out = declared" and "length acc \<le> declared \<longrightarrow> take (length acc) out = acc"
  shows "fill_window mx declared parts (length acc, out) = Inr (tot, out') \<Longrightarrow>
      tot = length (acc @ concat parts) \<and> length out' = declared \<and> (tot \<le> declared \<longrightarrow> take tot out' = acc @ concat parts)"
    "int (length (acc @ concat parts)) \<le> mx \<Longrightarrow> \<exists>out'. fill_window mx declared parts (length acc, out) = Inr (length (acc @ concat parts), out')"
proof -
  have "(fill_window mx declared parts (length acc, out) = Inr (tot, out') \<longrightarrow>
      tot = length (acc @ concat parts) \<and> length out' = declared \<and> (tot \<le> declared \<longrightarrow> take tot out' = acc @ concat parts)) \<and>
    (int (length (acc @ concat parts)) \<le> mx \<longrightarrow>
      (\<exists>out'. fill_window mx declared parts (length acc, out) = Inr (length (acc @ concat parts), out')))"
    using assms
  proof (induction parts arbitrary: acc out)
    case (Cons part parts)
    define out1 where "out1 = (if length acc + length part \<le> declared then set_at out (length acc) part else out)"
    have "length out1 = declared" "length (acc @ part) \<le> declared \<longrightarrow> take (length (acc @ part)) out1 = acc @ part"
      using Cons.prems by (auto simp: out1_def set_at_def)
    from Cons.IH [OF this] show ?case by (auto simp: Let_def out1_def)
  qed auto
  then show "fill_window mx declared parts (length acc, out) = Inr (tot, out') \<Longrightarrow>
      tot = length (acc @ concat parts) \<and> length out' = declared \<and> (tot \<le> declared \<longrightarrow> take tot out' = acc @ concat parts)"
    "int (length (acc @ concat parts)) \<le> mx \<Longrightarrow> \<exists>out'. fill_window mx declared parts (length acc, out) = Inr (length (acc @ concat parts), out')"
    by blast+
qed

lemma assemble_Inr:
  "assemble pf keys server bodies declared = Inr out \<longleftrightarrow>
     (\<exists>parts. list_all2 (opens_to pf keys) bodies parts \<and> concat parts = out) \<and> length out = declared \<and>
     (bodies = [] \<or> int declared \<le> limitOn lm_perFileMax server)"
proof (cases "bodies = [] \<or> int declared > limitOn lm_perFileMax server")
  case True
  then show ?thesis by (auto simp: assemble_def)
next
  case False
  let ?mx = "limitOn lm_perFileMax server"
  note spec = fill_window_spec [where acc = "[]" and out = "replicate declared 0" and declared = declared and mx = ?mx, simplified]
  have "assemble pf keys server bodies declared = Inr out \<longleftrightarrow>
      (\<exists>parts. list_all2 (opens_to pf keys) bodies parts \<and> fill_window ?mx declared parts (0, replicate declared 0) = Inr (declared, out))"
    using False
    by (auto simp: assemble_def try_then_Inr assemble_loop_Inr windows_concat SEAL_WINDOW_def split: if_splits)
  moreover have "fill_window ?mx declared parts (0, replicate declared 0) = Inr (declared, out) \<longleftrightarrow>
      concat parts = out \<and> length out = declared" for parts
  proof
    assume "fill_window ?mx declared parts (0, replicate declared 0) = Inr (declared, out)"
    from spec(1) [OF this] show "concat parts = out \<and> length out = declared" by (metis order_refl take_all)
  next
    assume out: "concat parts = out \<and> length out = declared"
    with spec(2) [of parts] False obtain out' where
      f: "fill_window ?mx declared parts (0, replicate declared 0) = Inr (declared, out')" by (auto simp: length_concat)
    from spec(1) [OF f] out have "out' = out" by (metis order_refl take_all)
    with f show "fill_window ?mx declared parts (0, replicate declared 0) = Inr (declared, out)" by simp
  qed
  ultimately show ?thesis using False by auto
qed

text \<open>A version is put together whole or not at all: an assembly succeeds exactly if every body is there and opens
  under this vault's key, what they hold adds up to the size the entry declares, and that size is one this
  device takes; and then it is their plaintext, end to end. Too many bytes or too few are an error, not a file.\<close>

theorem assembled_or_refused:
  "assemble pf keys server bodies declared = Inr out \<longleftrightarrow>
     (\<exists>parts. list_all2 (opens_to pf keys) bodies parts \<and> concat parts = out) \<and> length out = declared \<and>
     (bodies = [] \<or> int declared \<le> limitOn lm_perFileMax server)"
  by (rule assemble_Inr)

section \<open>Naming a file that is sent\<close>

definition KEEP_SEALED_BELOW :: nat where "KEEP_SEALED_BELOW = 8 * 1024 * 1024"

definition sealedNames :: "platform \<Rightarrow> schedule \<Rightarrow> bytes list \<Rightarrow> nat \<Rightarrow> jstring list" where
  "sealedNames pf keys parts w = concat (map (\<lambda>win. map fst (sealChunks pf keys win)) (windows w parts))"

text \<open>\<open>Scanned\<close>: the file was read whole, with its sealed bodies where it is small; or it was streamed.\<close>

datatype scanned =
    Whole bytes "chunk list" "jstring list" "(jstring \<times> bytes) list option"
  | Streamed "jstring list" "(nat \<times> nat) list" nat

fun names_of :: "scanned \<Rightarrow> jstring list" where
  "names_of (Whole bytes pieces names sealed) = names"
| "names_of (Streamed names spans sz) = names"

fun size_of :: "scanned \<Rightarrow> nat" where
  "size_of (Whole bytes pieces names sealed) = length bytes"
| "size_of (Streamed names spans sz) = sz"

definition span_of_piece :: "chunk \<Rightarrow> nat \<times> nat" where
  "span_of_piece piece = (ch_offset piece, ch_offset piece + length (ch_bytes piece))"

definition scan_whole :: "platform \<Rightarrow> schedule \<Rightarrow> int option \<Rightarrow> bool \<Rightarrow> bytes \<Rightarrow> scanned" where
  "scan_whole pf keys chunkMax isText bytes =
     (let pieces = chunkBytes bytes (sizesFor (length bytes) isText chunkMax) isText; parts = map ch_bytes pieces in
      if length bytes \<le> KEEP_SEALED_BELOW then
        (let sealed = sealChunks pf keys parts in Whole bytes pieces (map fst sealed) (Some sealed))
      else Whole bytes pieces (sealedNames pf keys parts SEAL_WINDOW) None)"

definition streamed :: "platform \<Rightarrow> schedule \<Rightarrow> int option \<Rightarrow> bool \<Rightarrow> nat \<Rightarrow> bytes list \<Rightarrow> scanned" where
  "streamed pf keys chunkMax isText knownSize blocks =
     (let pieces = chunkStream blocks (sizesFor knownSize isText chunkMax) isText in
      Streamed (map (\<lambda>piece. fst (hd (sealChunks pf keys [ch_bytes piece]))) pieces) (map span_of_piece pieces)
        (sum_list (map (length \<circ> ch_bytes) pieces)))"

text \<open>\<open>blocks\<close> is what the vault streams, \<open>None\<close> where it cannot; \<open>streamScan\<close> then leaves the file to be read whole.\<close>

definition rehash_file ::
  "platform \<Rightarrow> schedule \<Rightarrow> int option \<Rightarrow> bool \<Rightarrow> nat option \<Rightarrow> bytes list option \<Rightarrow> bytes \<Rightarrow> scanned" where
  "rehash_file pf keys chunkMax isText knownSize blocks bytes =
     (case (blocks, knownSize) of
        (Some bs, Some n) \<Rightarrow> if n \<le> KEEP_SEALED_BELOW then scan_whole pf keys chunkMax isText bytes
                            else streamed pf keys chunkMax isText n bs
      | _ \<Rightarrow> scan_whole pf keys chunkMax isText bytes)"

text \<open>What a scan leaves in the index.\<close>

definition record_scan :: "scanned \<Rightarrow> index_entry \<Rightarrow> index_entry" where
  "record_scan scan entry = entry\<lparr>ie_chunks := names_of scan, ie_hash := contentId (names_of scan), ie_size := int (size_of scan)\<rparr>"

section \<open>What is sent\<close>

datatype send_error = Changed_while_sent | No_body_for jstring

text \<open>\<open>Known\<close>: the index's names, the bodies made when the server asks. \<open>Cut\<close>: a scan the bodies come from.\<close>

datatype upload_plan = Known "jstring list" | Cut scanned

definition planUpload :: "index_entry \<Rightarrow> scanned option \<Rightarrow> scanned \<Rightarrow> upload_plan" where
  "planUpload entry fresh scan_now =
     (if fresh = None \<and> ie_chunks entry \<noteq> [] \<and> ie_hash entry \<noteq> [] then Known (ie_chunks entry)
      else Cut (case fresh of Some scan \<Rightarrow> scan | None \<Rightarrow> scan_now))"

fun plan_names :: "upload_plan \<Rightarrow> jstring list" where
  "plan_names (Known names) = names"
| "plan_names (Cut scan) = names_of scan"

text \<open>A body out of a scan; \<open>now\<close> is what the file holds when the server asks.\<close>

fun scan_body :: "platform \<Rightarrow> schedule \<Rightarrow> bytes \<Rightarrow> scanned \<Rightarrow> jstring \<Rightarrow> send_error + bytes" where
  "scan_body pf keys now (Whole bytes pieces names (Some sealed)) name =
     (case map_of (rev sealed) name of Some body \<Rightarrow> Inr body | None \<Rightarrow> Inl (No_body_for name))"
| "scan_body pf keys now (Whole bytes pieces names None) name =
     (case map_of (rev (zip names (map span_of_piece pieces))) name of
        Some (a, b) \<Rightarrow> Inr (snd (hd (sealChunks pf keys [slice bytes a b])))
      | None \<Rightarrow> Inl (No_body_for name))"
| "scan_body pf keys now (Streamed names spans sz) name =
     (case map_of (rev (zip names spans)) name of
        Some (a, b) \<Rightarrow>
          (let again = hd (sealChunks pf keys [slice now a b])
           in if fst again \<noteq> name then Inl Changed_while_sent else Inr (snd again))
      | None \<Rightarrow> Inl (No_body_for name))"

text \<open>\<open>bodyOf\<close> of a plan; \<open>made\<close> is the scan a \<open>Known\<close> plan keeps once the first body was asked for.\<close>

fun bodyOf ::
  "platform \<Rightarrow> schedule \<Rightarrow> (bytes \<Rightarrow> scanned) \<Rightarrow> upload_plan \<Rightarrow> bytes \<Rightarrow> jstring \<Rightarrow> scanned option \<Rightarrow>
   (send_error + bytes) \<times> scanned option" where
  "bodyOf pf keys scanner (Cut scan) now name made = (scan_body pf keys now scan name, made)"
| "bodyOf pf keys scanner (Known names) now name (Some scan) = (scan_body pf keys now scan name, Some scan)"
| "bodyOf pf keys scanner (Known names) now name None =
     (let scan = scanner now in
      if names_of scan \<noteq> names then (Inl Changed_while_sent, None)
      else (scan_body pf keys now scan name, Some scan))"

section \<open>Sent as named\<close>

lemma sealChunks_one: "hd (sealChunks pf keys [c]) = (chunkName pf (sealChunk pf keys c), sealChunk pf keys c)"
  by (simp add: sealChunks_def Let_def)

lemma sealChunks_map: "sealChunks pf keys cs = map (\<lambda>c. (chunkName pf (sealChunk pf keys c), sealChunk pf keys c)) cs"
  by (simp add: sealChunks_def Let_def)

definition name_of :: "platform \<Rightarrow> schedule \<Rightarrow> bytes \<Rightarrow> jstring" where
  "name_of pf keys part = chunkName pf (sealChunk pf keys part)"

lemma sealedNames_map: "0 < w \<Longrightarrow> sealedNames pf keys parts w = map (name_of pf keys) parts"
proof -
  assume w: "0 < w"
  have "sealedNames pf keys parts w = map (name_of pf keys) (concat (windows w parts))"
    by (simp add: sealedNames_def sealChunks_map name_of_def [abs_def] map_concat comp_def)
  with w show ?thesis by (simp add: windows_concat)
qed

text \<open>A scan of \<open>data\<close>: its pieces are the file's, each named by its sealed body.\<close>

definition scan_of :: "platform \<Rightarrow> schedule \<Rightarrow> scanned \<Rightarrow> bytes \<Rightarrow> bool" where
  "scan_of pf keys scan data \<longleftrightarrow>
     (\<exists>pieces. names_of scan = map (name_of pf keys \<circ> ch_bytes) pieces \<and> concat (map ch_bytes pieces) = data \<and>
        size_of scan = length data \<and>
        (\<forall>p \<in> set pieces. slice data (ch_offset p) (ch_offset p + length (ch_bytes p)) = ch_bytes p
           \<and> length (ch_bytes p) \<le> MAX_CHUNK_PLAINTEXT) \<and>
        (case scan of
           Whole bytes ps names sealed \<Rightarrow> bytes = data \<and> ps = pieces \<and>
             (\<forall>s. sealed = Some s \<longrightarrow> s = sealChunks pf keys (map ch_bytes pieces))
         | Streamed names spans sz \<Rightarrow> spans = map span_of_piece pieces))"

lemma chunk_pieces:
  fixes n :: nat and isText u :: bool and m :: "int option" and data :: bytes
  defines "pieces \<equiv> with_offsets 0 (split_spec (sizesFor n isText m) u [] data)"
  shows "concat (map ch_bytes pieces) = data"
    "p \<in> set pieces \<Longrightarrow> slice data (ch_offset p) (ch_offset p + length (ch_bytes p)) = ch_bytes p"
    "p \<in> set pieces \<Longrightarrow> length (ch_bytes p) \<le> MAX_CHUNK_PLAINTEXT"
proof -
  show all: "concat (map ch_bytes pieces) = data" by (simp add: pieces_def split_spec_concat)
  show "slice data (ch_offset p) (ch_offset p + length (ch_bytes p)) = ch_bytes p" if p: "p \<in> set pieces"
  proof -
    from p obtain as bs where "split_spec (sizesFor n isText m) u [] data = as @ ch_bytes p # bs" "ch_offset p = length (concat as)"
      unfolding pieces_def by (metis with_offsets_split add_0)
    moreover from this have "data = concat as @ ch_bytes p @ concat bs"
      using split_spec_concat [of "sizesFor n isText m" u "[]" data] by simp
    ultimately show ?thesis by (simp add: slice_def)
  qed
  have "cs_max (sizesFor n isText m) \<le> MAX_CHUNK_PLAINTEXT"
    using textSizesFor_band [of n]
    by (auto simp: sizesFor_def Let_def MAX_CHUNK_PLAINTEXT_def BINARY_SIZES_def WINDOW_def nat_le_iff)
  moreover have "length (ch_bytes p) \<le> cs_max (sizesFor n isText m)" if "p \<in> set pieces"
    using chunkBytes_lengths [OF sizesFor_roomy] that by (simp add: pieces_def chunkBytes_spec)
  ultimately show "p \<in> set pieces \<Longrightarrow> length (ch_bytes p) \<le> MAX_CHUNK_PLAINTEXT" using le_trans by blast
qed

lemma scan_whole_of: "scan_of pf keys (scan_whole pf keys chunkMax isText data) data"
  unfolding scan_of_def
  by (rule exI [of _ "chunkBytes data (sizesFor (length data) isText chunkMax) isText"])
     (auto simp: scan_whole_def Let_def chunkBytes_spec chunk_pieces sealedNames_map SEAL_WINDOW_def sealChunks_map name_of_def
        simp del: with_offsets_bytes)

lemma length_concat_pieces:
  "(\<Sum>p\<leftarrow>with_offsets 0 (split_spec (sizesFor n isText m) u [] data). length (ch_bytes p)) = length data"
proof -
  have "length (concat (map ch_bytes (with_offsets 0 (split_spec (sizesFor n isText m) u [] data)))) = length data"
    by (simp add: split_spec_concat)
  then show ?thesis by (simp only: length_concat map_map comp_def)
qed

lemma streamed_of: "scan_of pf keys (streamed pf keys chunkMax isText n blocks) (concat blocks)"
  unfolding scan_of_def
  by (rule exI [of _ "chunkStream blocks (sizesFor n isText chunkMax) isText"])
     (auto simp: streamed_def Let_def chunkStream_spec [OF sizesFor_roomy] chunk_pieces sealChunks_one name_of_def comp_def
        length_concat_pieces simp del: with_offsets_bytes)

lemma rehash_of:
  assumes "\<And>bs. blocks = Some bs \<Longrightarrow> concat bs = data"
  shows "scan_of pf keys (rehash_file pf keys chunkMax isText knownSize blocks data) data"
proof (cases "\<exists>bs n. blocks = Some bs \<and> knownSize = Some n \<and> n > KEEP_SEALED_BELOW")
  case True
  then obtain bs n where "blocks = Some bs" "rehash_file pf keys chunkMax isText knownSize blocks data = streamed pf keys chunkMax isText n bs"
    by (auto simp: rehash_file_def)
  with assms streamed_of [of pf keys chunkMax isText n bs] show ?thesis by simp
next
  case False
  then have "rehash_file pf keys chunkMax isText knownSize blocks data = scan_whole pf keys chunkMax isText data"
    by (auto simp: rehash_file_def split: option.splits)
  then show ?thesis by (simp add: scan_whole_of)
qed

fun spans_of :: "scanned \<Rightarrow> (nat \<times> nat) list" where
  "spans_of (Whole bytes pieces names sealed) = map span_of_piece pieces"
| "spans_of (Streamed names spans sz) = spans"

text \<open>The parts a scan cut \<open>data\<close> into.\<close>

definition parts_of :: "scanned \<Rightarrow> bytes \<Rightarrow> bytes list" where
  "parts_of scan data = map (\<lambda>(a, b). slice data a b) (spans_of scan)"

text \<open>The pieces of a scan, and what is known of them.\<close>

definition has_pieces :: "platform \<Rightarrow> schedule \<Rightarrow> scanned \<Rightarrow> bytes \<Rightarrow> chunk list \<Rightarrow> bool" where
  "has_pieces pf keys scan data pieces \<longleftrightarrow>
     names_of scan = map (name_of pf keys \<circ> ch_bytes) pieces \<and> concat (map ch_bytes pieces) = data \<and>
     parts_of scan data = map ch_bytes pieces \<and> spans_of scan = map span_of_piece pieces \<and>
     (\<forall>p \<in> set pieces. slice data (ch_offset p) (ch_offset p + length (ch_bytes p)) = ch_bytes p) \<and>
     (\<forall>p \<in> set pieces. length (ch_bytes p) \<le> MAX_CHUNK_PLAINTEXT) \<and>
     (\<forall>bytes ps names sealed. scan = Whole bytes ps names sealed \<longrightarrow> bytes = data \<and> ps = pieces) \<and>
     (\<forall>bytes ps names s. scan = Whole bytes ps names (Some s) \<longrightarrow> s = sealChunks pf keys (map ch_bytes pieces))"

lemma has_piecesD:
  assumes "has_pieces pf keys scan data pieces"
  shows "names_of scan = map (name_of pf keys \<circ> ch_bytes) pieces" "parts_of scan data = map ch_bytes pieces"
    "p \<in> set pieces \<Longrightarrow> slice data (ch_offset p) (ch_offset p + length (ch_bytes p)) = ch_bytes p"
    "spans_of scan = map span_of_piece pieces"
    "scan = Whole bytes ps names sealed \<Longrightarrow> bytes = data \<and> ps = pieces"
    "scan = Whole bytes ps names (Some s) \<Longrightarrow> s = sealChunks pf keys (map ch_bytes pieces)"
    "concat (map ch_bytes pieces) = data" "p \<in> set pieces \<Longrightarrow> length (ch_bytes p) \<le> MAX_CHUNK_PLAINTEXT"
  using assms unfolding has_pieces_def by simp_all

lemma scan_of_pieces:
  assumes "scan_of pf keys scan data"
  obtains pieces where "has_pieces pf keys scan data pieces"
proof -
  from assms obtain pieces where p: "names_of scan = map (name_of pf keys \<circ> ch_bytes) pieces" "concat (map ch_bytes pieces) = data"
    "\<forall>p \<in> set pieces. slice data (ch_offset p) (ch_offset p + length (ch_bytes p)) = ch_bytes p \<and> length (ch_bytes p) \<le> MAX_CHUNK_PLAINTEXT"
    and kind: "case scan of Whole bytes ps names sealed \<Rightarrow> bytes = data \<and> ps = pieces \<and>
             (\<forall>s. sealed = Some s \<longrightarrow> s = sealChunks pf keys (map ch_bytes pieces))
         | Streamed names spans sz \<Rightarrow> spans = map span_of_piece pieces"
    unfolding scan_of_def by blast
  have spans: "spans_of scan = map span_of_piece pieces" using kind by (cases scan) simp_all
  have parts: "parts_of scan data = map ch_bytes pieces"
    using p(3) by (simp add: parts_of_def spans span_of_piece_def)
  have "has_pieces pf keys scan data pieces"
    unfolding has_pieces_def using p kind spans parts by (intro conjI) auto
  then show thesis by (rule that)
qed

lemma map_of_rev_zip:
  assumes "length ks = length vs" and "k \<in> set ks"
  obtains i where "i < length ks" "ks ! i = k" "map_of (rev (zip ks vs)) k = Some (vs ! i)"
proof -
  have "set (map fst (rev (zip ks vs))) = set ks" using assms(1) by (simp flip: rev_map)
  then have "k \<in> fst ` set (rev (zip ks vs))" using assms(2) by simp
  then obtain v where v: "map_of (rev (zip ks vs)) k = Some v" by (metis map_of_eq_None_iff option.exhaust)
  then have "(k, v) \<in> set (zip ks vs)" by (metis map_of_SomeD set_rev)
  then obtain i where "i < length ks" "ks ! i = k" "vs ! i = v" using assms(1) by (auto simp: in_set_zip)
  with v that show thesis by simp
qed

lemma map_of_rev_zip_Some:
  assumes "length ks = length vs" and "map_of (rev (zip ks vs)) k = Some v"
  obtains i where "i < length ks" "ks ! i = k" "vs ! i = v"
proof -
  have "(k, v) \<in> set (zip ks vs)" using assms(2) by (metis map_of_SomeD set_rev)
  with assms(1) that show thesis by (auto simp: in_set_zip)
qed

lemma sealChunks_zip: "sealChunks pf keys cs = zip (map (name_of pf keys) cs) (map (sealChunk pf keys) cs)"
  by (simp add: sealChunks_map name_of_def zip_map_map zip_same_conv_map)

lemma scan_body_named:
  assumes "scan_of pf keys scan data" and "scan_body pf keys now scan name = Inr b"
  shows "chunkName pf b = name"
proof -
  obtain pieces where "has_pieces pf keys scan data pieces" using scan_of_pieces [OF assms(1)] .
  note p = has_piecesD [OF this]
  show ?thesis
  proof (cases scan)
    case (Streamed names spans sz)
    with assms(2) show ?thesis by (auto simp: Let_def sealChunks_one split: option.splits if_splits)
  next
    case (Whole bytes ps names sealed)
    note w = p(5) [OF Whole]
    show ?thesis
    proof (cases sealed)
      case None
      with assms(2) obtain a e where m: "map_of (rev (zip names (map span_of_piece pieces))) name = Some (a, e)"
        and b: "b = sealChunk pf keys (slice data a e)"
        by (auto simp: Whole w sealChunks_one split: option.splits)
      have "length names = length pieces" using p(1) by (simp add: Whole)
      then obtain i where "i < length pieces" "names ! i = name" "span_of_piece (pieces ! i) = (a, e)"
        using map_of_rev_zip_Some [OF _ m] by (metis length_map nth_map)
      with b p(1) p(3) [of "pieces ! i"] show ?thesis by (auto simp: Whole span_of_piece_def name_of_def)
    next
      case (Some s)
      with Whole p(6) have "s = zip (map (name_of pf keys) (map ch_bytes pieces)) (map (sealChunk pf keys) (map ch_bytes pieces))"
        by (simp add: sealChunks_zip)
      moreover have "map_of (rev s) name = Some b" using assms(2) by (simp add: Whole Some split: option.splits)
      ultimately obtain i where "i < length pieces" "name_of pf keys (ch_bytes (pieces ! i)) = name" "b = sealChunk pf keys (ch_bytes (pieces ! i))"
        using map_of_rev_zip_Some [of "map (name_of pf keys) (map ch_bytes pieces)" "map (sealChunk pf keys) (map ch_bytes pieces)" name b]
        by auto
      then show ?thesis by (simp add: name_of_def)
    qed
  qed
qed

text \<open>Of the file as it was scanned, the body under a name is a part's of that name.\<close>

lemma scan_body_made:
  assumes "scan_of pf keys scan data" and "name \<in> set (names_of scan)"
  shows "\<exists>part \<in> set (parts_of scan data). name_of pf keys part = name \<and> scan_body pf keys data scan name = Inr (sealChunk pf keys part)"
proof -
  obtain pieces where "has_pieces pf keys scan data pieces" using scan_of_pieces [OF assms(1)] .
  note p = has_piecesD [OF this]
  have len: "length (names_of scan) = length (map span_of_piece pieces)" by (simp add: p(1))
  obtain i where i: "i < length pieces" "names_of scan ! i = name"
    "map_of (rev (zip (names_of scan) (map span_of_piece pieces))) name = Some (span_of_piece (pieces ! i))"
    using map_of_rev_zip [OF len assms(2)] by (metis length_map len nth_map)
  have sl: "slice data (ch_offset (pieces ! i)) (ch_offset (pieces ! i) + length (ch_bytes (pieces ! i))) = ch_bytes (pieces ! i)"
    using i(1) by (intro p(3)) simp
  have nm: "name_of pf keys (ch_bytes (pieces ! i)) = name" using i p(1) by simp
  have mem: "ch_bytes (pieces ! i) \<in> set (parts_of scan data)" using i(1) by (simp add: p(2))
  show ?thesis
  proof (cases scan)
    case (Streamed names spans sz)
    then have "scan_body pf keys data scan name = Inr (sealChunk pf keys (ch_bytes (pieces ! i)))"
      using i p(4) sl nm by (simp add: span_of_piece_def sealChunks_one name_of_def)
    with mem nm show ?thesis by blast
  next
    case (Whole bytes ps names sealed)
    note w = p(5) [OF Whole]
    show ?thesis
    proof (cases sealed)
      case None
      then have "scan_body pf keys data scan name = Inr (sealChunk pf keys (ch_bytes (pieces ! i)))"
        using i sl nm w by (simp add: Whole span_of_piece_def sealChunks_one)
      with mem nm show ?thesis by blast
    next
      case (Some s)
      let ?ks = "map (name_of pf keys) (map ch_bytes pieces)" and ?vs = "map (sealChunk pf keys) (map ch_bytes pieces)"
      have s: "s = zip ?ks ?vs" using Whole Some p(6) by (simp add: sealChunks_zip)
      have "name \<in> set ?ks" using assms(2) p(1) by (auto simp: Whole)
      then obtain j where "j < length pieces" "name_of pf keys (ch_bytes (pieces ! j)) = name"
        "map_of (rev s) name = Some (sealChunk pf keys (ch_bytes (pieces ! j)))"
        using map_of_rev_zip [of ?ks ?vs name] s by auto
      moreover from this(1) have "ch_bytes (pieces ! j) \<in> set (parts_of scan data)" by (simp add: p(2))
      ultimately show ?thesis by (intro bexI [of _ "ch_bytes (pieces ! j)"]) (simp_all add: Whole Some)
    qed
  qed
qed

text \<open>C36. A body that is sent is the one its name promises, even where the file changed after it was named: whether the
  bodies were kept, are sealed again from the bytes in hand, read back off the disk, or made from a new
  scan the moment the server asks, what goes out under a name hashes to it, or the upload fails.\<close>

theorem bodies_match_their_names:
  assumes "\<And>content. scan_of pf keys (scanner content) content" and "scan_of pf keys scan named"
    and "plan \<in> {Known names, Cut scan}" and "made \<in> {None, Some (scanner earlier)}"
    and "bodyOf pf keys scanner plan now name made = (Inr body, made')"
  shows "chunkName pf body = name"
proof -
  have "scan_body pf keys now scan name = Inr body \<or> (\<exists>content. scan_body pf keys now (scanner content) name = Inr body)"
    using assms(3-5) by (auto simp: Let_def split: if_splits)
  then show ?thesis using scan_body_named assms(1,2) by blast
qed

lemma sample_scan:
  fixes keys
  defines "scan \<equiv> scan_whole plain_platform keys None True [1]"
  shows "names_of scan = [name_of plain_platform keys [1]]" "parts_of scan [1] = [[1]]"
proof -
  let ?pieces = "chunkBytes [1] (sizesFor 1 True None) True"
  have whole: "concat (map ch_bytes ?pieces) = [1]" by (simp add: chunkBytes_spec split_spec_concat)
  have "\<forall>c \<in> set (map ch_bytes ?pieces). c \<noteq> []" using chunkBytes_lengths [OF sizesFor_roomy] by auto
  with whole have bytes: "map ch_bytes ?pieces = [[1]]"
    by (cases "map ch_bytes ?pieces") (auto simp: append_eq_Cons_conv)
  then show names: "names_of scan = [name_of plain_platform keys [1]]"
  proof -
    have "names_of scan = map (name_of plain_platform keys) (map ch_bytes ?pieces)"
      by (simp add: scan_def scan_whole_def KEEP_SEALED_BELOW_def Let_def sealChunks_map name_of_def comp_def)
    then show ?thesis by (simp only: bytes list.map)
  qed
  have "scan_of plain_platform keys scan [1]" by (simp add: scan_def scan_whole_of)
  then obtain pieces where "has_pieces plain_platform keys scan [1] pieces" using scan_of_pieces by blast
  note p = has_piecesD [OF this]
  have "length pieces = 1" using p(1) names by (metis One_nat_def length_Cons length_map list.size(3))
  then obtain c where "pieces = [c]" by (metis One_nat_def length_0_conv length_Suc_conv)
  with p(2,7) show "parts_of scan [1] = [[1]]" by simp
qed

lemma bodies_match_their_names_witness:
  "\<exists>body. bodyOf plain_platform sample_keys (scan_whole plain_platform sample_keys None True)
     (Known [name_of plain_platform sample_keys [1]]) [1] (name_of plain_platform sample_keys [1]) None
       = (Inr body, Some (scan_whole plain_platform sample_keys None True [1]))
     \<and> chunkName plain_platform body = name_of plain_platform sample_keys [1]"
proof -
  let ?scanner = "scan_whole plain_platform sample_keys None True" and ?n = "name_of plain_platform sample_keys [1]"
  have of: "scan_of plain_platform sample_keys (?scanner content) content" for content by (rule scan_whole_of)
  have "?n \<in> set (names_of (?scanner [1]))" by (simp add: sample_scan)
  from scan_body_made [OF of this] obtain body where "scan_body plain_platform sample_keys [1] (?scanner [1]) ?n = Inr body" by blast
  then have body: "bodyOf plain_platform sample_keys ?scanner (Known [?n]) [1] ?n None = (Inr body, Some (?scanner [1]))"
    by (simp add: Let_def sample_scan)
  have "chunkName plain_platform body = ?n"
    by (rule bodies_match_their_names [OF of of [of "[]"] _ _ body, where names = "[?n]" and earlier = "[]"]) simp_all
  with body show ?thesis by blast
qed

definition sent_body :: "platform \<Rightarrow> schedule \<Rightarrow> (bytes \<Rightarrow> scanned) \<Rightarrow> upload_plan \<Rightarrow> bytes \<Rightarrow> jstring \<Rightarrow> bytes" where
  "sent_body pf keys scanner plan data name =
     (case fst (bodyOf pf keys scanner plan data name None) of Inr b \<Rightarrow> b | Inl _ \<Rightarrow> [])"

lemma openChunk_sealed:
  assumes "aead_laws pf" and "codec_laws pf" and "length chunk \<le> MAX_CHUNK_PLAINTEXT"
  shows "openChunk pf keys (sealChunk pf keys chunk) = Inr chunk"
  using assms(3)
  by (auto simp: openChunk_def sealChunk_def Let_def open_seal [OF assms(1)] inflate_deflated [OF assms(2,3)]
      CHUNK_RAW_def CHUNK_DEFLATE_def)

lemma sent_bodies_open:
  assumes laws: "aead_laws pf" "codec_laws pf" and scan: "has_pieces pf keys scan data pieces" and of: "scan_of pf keys scan data"
    and apart: "inj_on (name_of pf keys) (set (parts_of scan data))"
    and plan: "plan = Cut scan \<or> plan = Known (names_of scan) \<and> scanner data = scan"
  shows "list_all2 (opens_to pf keys) (map (\<lambda>n. Some (sent_body pf keys scanner plan data n)) (names_of scan)) (map ch_bytes pieces)"
proof -
  note p = has_piecesD [OF scan]
  have "opens_to pf keys (Some (sent_body pf keys scanner plan data (name_of pf keys (ch_bytes c)))) (ch_bytes c)" if c: "c \<in> set pieces" for c
  proof -
    let ?n = "name_of pf keys (ch_bytes c)"
    have "?n \<in> set (names_of scan)" using c by (simp add: p(1))
    from scan_body_made [OF of this] obtain part where part: "part \<in> set (parts_of scan data)"
      "name_of pf keys part = ?n" "scan_body pf keys data scan ?n = Inr (sealChunk pf keys part)" by blast
    have "ch_bytes c \<in> set (parts_of scan data)" using c by (simp add: p(2))
    then have "part = ch_bytes c" using apart part by (meson inj_on_eq_iff)
    moreover have "sent_body pf keys scanner plan data ?n = sealChunk pf keys part"
      using plan part(3) by (auto simp: sent_body_def Let_def)
    ultimately show ?thesis using openChunk_sealed [OF laws p(8) [OF c]] by (simp add: opens_to_def)
  qed
  then show ?thesis by (simp add: p(1) list_all2_map1 list_all2_map2 list_all2_same)
qed



section \<open>The budget is a guess\<close>

text \<open>
  \<open>perChunkBudget\<close> costs each chunk at its share of the file. Chunks are not even: here 80 of the largest size a server
  takes are followed by 80 of the smallest a large file is cut into.
\<close>

definition uneven_plain :: "nat \<Rightarrow> int" where
  "uneven_plain n = (if n < 80 then 2 ^ 20 - int SEAL_OVERHEAD else 128 * 1024)"

definition uneven_size :: int where
  "uneven_size = sum_list (map uneven_plain [0..<160])"

lemma uneven_size: "uneven_size = 94369520"
  by (simp add: uneven_size_def uneven_plain_def SEAL_OVERHEAD_def upt_conv_Cons)

text \<open>The split of a download into asks does not keep to the server's cap. A chunk is costed at its share of the file, which is less
  than it holds where chunks are uneven: of a file of 90 MiB in 160 chunks, the client plans an ask whose bodies
  are over the 64 MiB one fetch may carry, and a refusal for size is not retried.\<close>

theorem uneven_chunks_overrun_the_cap:
  "\<exists>ask \<in> set (planFetches [0..<160] (\<lambda>_. perChunkBudget uneven_size 160) (lm_maxFetchBytes OWN_LIMITS) MAX_FETCH_NAMES).
     sum_list (map (\<lambda>n. uneven_plain n + int SEAL_OVERHEAD) ask) > lm_maxFetchBytes OWN_LIMITS"
proof -
  let ?cost = "perChunkBudget uneven_size 160" and ?cap = "lm_maxFetchBytes OWN_LIMITS"
  let ?stored = "\<lambda>n. uneven_plain n + int SEAL_OVERHEAD"
  have "\<lceil>1179619 / 2 :: rat\<rceil> = 589810" by (rule ceiling_unique) simp_all
  then have cost: "?cost = 590066" by (simp add: perChunkBudget_def entryBudget_def uneven_size)
  have cap: "?cap = 67108864" by (simp add: OWN_LIMITS_def)
  define names where "names = [0..<160 :: nat]"
  have names: "length names = 160" "names \<noteq> []" "take 80 names = [0..<80]"
    unfolding names_def by (simp, simp, subst take_upt) simp_all
  obtain asks ask bytes where st: "foldl (plan_step (\<lambda>_. ?cost) ?cap MAX_FETCH_NAMES) ([], [], 0) names = (asks, ask, bytes)"
    by (cases "foldl (plan_step (\<lambda>_. ?cost) ?cap MAX_FETCH_NAMES) ([], [], 0) names")
  have p: "planned (\<lambda>_. ?cost) ?cap MAX_FETCH_NAMES names (asks, ask, bytes)"
    using planned_all [of "\<lambda>_. ?cost" ?cap MAX_FETCH_NAMES names] by (simp only: st)
  then have ne: "ask \<noteq> []" using names(2) by (auto simp: planned_def)
  then have plan: "planFetches names (\<lambda>_. ?cost) ?cap MAX_FETCH_NAMES = asks @ [ask]"
    by (simp add: planFetches_def st)
  obtain a rest where ar: "asks @ [ask] = a # rest" by (cases "asks @ [ask]") auto
  have "concat (asks @ [ask]) = names" using p by (simp add: planned_def)
  then have all: "a @ concat rest = names" by (simp only: ar concat.simps)
  then have whole: "length a + length (concat rest) = 160" using names(1) by (metis length_append)
  have long: "80 \<le> length a"
  proof (cases rest)
    case Nil
    with whole show ?thesis by simp
  next
    case (Cons b rest')
    then have "greedy (\<lambda>_. ?cost) ?cap MAX_FETCH_NAMES (a # b # rest')" using p ne ar by (simp add: planned_def)
    then have "sum_list (map (\<lambda>_. ?cost) a) + ?cost > ?cap" using whole by (simp add: MAX_FETCH_NAMES_def)
    then have "int (length a) * 590066 + 590066 > 67108864" by (simp add: cost cap sum_list_triv)
    then show ?thesis by linarith
  qed
  have "take 80 a = take 80 (a @ concat rest)" using long by simp
  then have "take 80 a = [0..<80]" by (simp only: all names(3))
  then have "a = [0..<80] @ drop 80 a" by (metis append_take_drop_id)
  then have "sum_list (map ?stored a) = sum_list (map ?stored [0..<80]) + sum_list (map ?stored (drop 80 a))"
    by (metis map_append sum_list_append)
  moreover have "0 \<le> sum_list (map ?stored (drop 80 a))" by (rule sum_list_nonneg) (auto simp: uneven_plain_def)
  moreover have "sum_list (map ?stored [0..<80]) = 83886080" by (simp add: uneven_plain_def SEAL_OVERHEAD_def upt_conv_Cons)
  ultimately have "sum_list (map ?stored a) > ?cap" by (simp add: cap)
  then show ?thesis unfolding names_def [symmetric] plan ar by (intro bexI [of _ a]) simp_all
qed

end
