(* ===== verification/Engine_Outbox.thy ===== *)
theory Engine_Outbox
  imports Engine_Fetch Merge
begin

text \<open>
  What a pass sends, from \<open>client/src/core/engine.ts\<close>: the state of one pass (\<open>pass\<close>) and what it was started with (\<open>shell\<close>);
  \<open>upload\<close>, the one place a write is made; \<open>queue\<close> and \<open>flush\<close>, which batch writes under the server's caps; and what
  a committed write records. The exchange itself is the parameter \<open>sh_send\<close>. An entry of the index, which the
  code holds by reference, is held by its path here.
\<close>

section \<open>A pass\<close>

text \<open>One outgoing write: \<open>BatchEntry\<close> with its \<open>PutMeta\<close>.\<close>

record batch_entry =
  be_path :: jstring
  be_size :: int
  be_ctime :: int
  be_mtime :: int
  be_folder :: bool
  be_deleted :: bool
  be_prev :: "jstring option"
  be_names :: "jstring list"
  be_mac :: jstring
  be_parent :: jstring
  be_base :: int
  be_prevBase :: int

text \<open>What the callback of a queued write does once the server has it.\<close>

datatype commit =
    Commit_folder bool
  | Commit_file jstring "jstring list" int int jstring bool
  | Commit_deletion

record queued =
  qu_path :: jstring
  qu_size :: int
  qu_entry :: batch_entry
  qu_plan :: upload_plan
  qu_commit :: commit

text \<open>A version waiting in the inbox; \<open>ic_restore\<close> tells a restored one from a download.\<close>

record incoming =
  ic_path :: jstring
  ic_remote :: remote
  ic_chunks :: "jstring list"
  ic_restore :: bool
  ic_based :: "local_state option"
  ic_baseDigest :: "jstring option"

record 'v pass =
  ps_vault :: 'v
  ps_engine :: engine
  ps_report :: sync_report
  ps_outbox :: "queued list"
  ps_outboxBudget :: int
  ps_outboxFrame :: int
  ps_inbox :: "incoming list"
  ps_inboxBytes :: int
  ps_localByIdentity :: "(jstring \<times> jstring) list"
  ps_deletingThisPass :: "jstring list"
  ps_pendingDeletes :: "(jstring \<times> local_state option) list"
  ps_deleteBaseline :: "(jstring \<times> jstring) list"
  ps_wroteThisPass :: "jstring list"
  ps_nowBlocked :: "jstring list"

text \<open>The answer to a batch: for each entry its uid or why it was refused, and what travelled.\<close>

type_synonym batch_answer = "(js_error + int) list \<times> nat \<times> nat"

text \<open>
  What the engine was built with. \<open>sh_send\<close> is the exchange, as a \<open>put\<close> where its first argument is true and a \<open>putMany\<close> otherwise;
  \<open>sh_fetch\<close> brings chunk bodies down; either may let other things happen to the pass. \<open>sh_date\<close> is \<open>new Date(now())\<close>.
\<close>

record 'v shell =
  sh_vault :: "'v vault"
  sh_platform :: platform
  sh_keys :: schedule
  sh_nfc :: "jstring \<Rightarrow> jstring"
  sh_lower :: "jstring \<Rightarrow> jstring"
  sh_limits :: "limits option"
  sh_active :: bool
  sh_readOnly :: bool
  sh_now :: int
  sh_date :: date
  sh_device :: jstring
  sh_isText :: "jstring \<Rightarrow> bool"
  sh_send :: "bool \<Rightarrow> queued list \<Rightarrow> ('v pass, batch_answer) act"
  sh_fetch :: "jstring list \<Rightarrow> (jstring \<Rightarrow> int) \<Rightarrow> ('v pass, bytes list) act"

definition modify :: "('s \<Rightarrow> 's) \<Rightarrow> ('s, unit) act" where
  "modify f = (\<lambda>s. (Inr (), f s))"

definition read_off :: "('s \<Rightarrow> 'a) \<Rightarrow> ('s, 'a) act" where
  "read_off f = (\<lambda>s. (Inr (f s), s))"

definition on_vault :: "('v, 'a) act \<Rightarrow> ('v pass, 'a) act" where
  "on_vault opr ps = (let (r, v) = opr (ps_vault ps) in (r, ps\<lparr>ps_vault := v\<rparr>))"

definition reporting :: "(sync_report \<Rightarrow> sync_report) \<Rightarrow> 'v pass \<Rightarrow> 'v pass" where
  "reporting f ps = ps\<lparr>ps_report := f (ps_report ps)\<rparr>"

definition in_engine :: "(engine \<Rightarrow> engine) \<Rightarrow> 'v pass \<Rightarrow> 'v pass" where
  "in_engine f ps = ps\<lparr>ps_engine := f (ps_engine ps)\<rparr>"

lemma modify_simps [simp]:
  "modify f s = (Inr (), f s)" "read_off g s = (Inr (g s), s)"
  "and_then (modify f) h s = h () (f s)" "and_then (read_off g) k s = k (g s) s"
  by (simp_all add: modify_def read_off_def and_then_def)

text \<open>\<open>entryFor\<close>, which adds an entry where there is none.\<close>

definition ensure_entry :: "jstring \<Rightarrow> engine \<Rightarrow> engine" where
  "ensure_entry path en =
     (if map_of (en_entries en) path = None then en\<lparr>en_entries := AList.update path (newEntry path) (en_entries en)\<rparr> else en)"

text \<open>A change to the entry of a path, where it still is in the index.\<close>

definition alter_entry :: "jstring \<Rightarrow> (index_entry \<Rightarrow> index_entry) \<Rightarrow> engine \<Rightarrow> engine" where
  "alter_entry path f en =
     (case map_of (en_entries en) path of
        None \<Rightarrow> en
      | Some e \<Rightarrow> en\<lparr>en_entries := AList.update path (f e) (en_entries en)\<rparr>)"

definition fail_in_pass :: "'v shell \<Rightarrow> jstring \<Rightarrow> js_error \<Rightarrow> 'v pass \<Rightarrow> 'v pass" where
  "fail_in_pass sh path err ps =
     (let (en, report) = recordFailure (sh_nfc sh) path err (sh_now sh) (ps_engine ps, ps_report ps)
      in ps\<lparr>ps_engine := en, ps_report := report\<rparr>)"

section \<open>The batch\<close>

definition MAX_BATCH_ENTRIES :: nat where "MAX_BATCH_ENTRIES = 256"
definition PUTMANY_FRAME_OVERHEAD :: int where "PUTMANY_FRAME_OVERHEAD = 64"

definition wireMeta :: "batch_entry \<Rightarrow> json" where
  "wireMeta e = JObj ([(lit ''size'', JNum (be_size e)), (lit ''ctime'', JNum (be_ctime e)), (lit ''mtime'', JNum (be_mtime e)),
     (lit ''folder'', JBool (be_folder e)), (lit ''deleted'', JBool (be_deleted e))]
     @ (case be_prev e of Some p \<Rightarrow> if p \<noteq> [] then [(lit ''prev'', JStr p)] else [] | None \<Rightarrow> []))"

definition wireEntry :: "batch_entry \<Rightarrow> json" where
  "wireEntry e = JObj [(lit ''path'', JStr (be_path e)), (lit ''meta'', wireMeta e), (lit ''chunks'', JArr (map JStr (be_names e))),
     (lit ''mac'', JStr (be_mac e)), (lit ''parent'', JStr (be_parent e)), (lit ''base'', JNum (be_base e)),
     (lit ''prevBase'', JNum (be_prevBase e))]"

definition encodedEntryBytes :: "batch_entry \<Rightarrow> int" where
  "encodedEntryBytes e = int (length (stringify (wireEntry e))) + 1"

definition batchCap :: "'v shell \<Rightarrow> int" where
  "batchCap sh =
     (if sh_active sh then min (limitOn lm_maxBatchBytes (sh_limits sh)) (2 * 1024 * 1024)
      else limitOn lm_maxBatchBytes (sh_limits sh))"

definition budget_of :: "queued \<Rightarrow> int" where
  "budget_of q = entryBudget (qu_size q) (length (be_names (qu_entry q)))"

definition remote_uid :: "jstring \<Rightarrow> engine \<Rightarrow> int" where
  "remote_uid path en = (case map_of (en_remote en) path of Some r \<Rightarrow> rs_uid r | None \<Rightarrow> 0)"

definition set_remote :: "jstring \<Rightarrow> remote \<Rightarrow> engine \<Rightarrow> engine" where
  "set_remote path r en = en\<lparr>en_remote := AList.update path r (en_remote en)\<rparr>"

definition plain_remote :: "remote_state \<Rightarrow> remote" where
  "plain_remote r = remote_at r (None, None)"

text \<open>The old name of a rename that has gone up.\<close>

definition retire_previous :: "(jstring \<Rightarrow> jstring) \<Rightarrow> jstring \<Rightarrow> jstring \<Rightarrow> int \<Rightarrow> int \<Rightarrow> engine \<Rightarrow> js_error + engine" where
  "retire_previous nfc path previous mtime uid en =
     (let old = canonicalSpelling nfc previous in
      if old \<noteq> path then
        (let en1 = en\<lparr>en_entries := AList.delete old (en_entries en)\<rparr> in
         if remote_uid old en1 \<le> uid then
           Inr (let en2 = set_remote old (remote_at
                   \<lparr>rs_uid = uid, rs_folder = False, rs_deleted = True, rs_mtime = mtime, rs_size = 0, rs_hash = []\<rparr>
                   (spellingHeads (map_of (en_remote en1) old) old previous uid)) en1
                in en2\<lparr>en_pending := removeAll old (en_pending en2)\<rparr>)
         else Inr en1)
      else
        (case map_of (en_remote en) path of
           None \<Rightarrow> Inl (plain_error (lit ''TypeError''))
         | Some state \<Rightarrow>
             Inr (set_remote path (state\<lparr>rm_heads := Some (AList.update previous
               (max (case rm_heads state of Some h \<Rightarrow> (case map_of h previous of Some u \<Rightarrow> u | None \<Rightarrow> 0) | None \<Rightarrow> 0) uid)
               (case rm_heads state of Some h \<Rightarrow> h | None \<Rightarrow> []))\<rparr>) en)))"

definition counted :: "bool \<Rightarrow> sync_report \<Rightarrow> sync_report" where
  "counted count r = (if count then r\<lparr>sr_uploaded := sr_uploaded r + 1\<rparr> else r)"

fun run_commit :: "'v shell \<Rightarrow> jstring \<Rightarrow> int \<Rightarrow> bool \<Rightarrow> commit \<Rightarrow> ('v pass, unit) act" where
  "run_commit sh path uid remoteIsNewer (Commit_folder count) ps =
     (let ps1 = in_engine (alter_entry path (\<lambda>e. synced e [] [] uid (sh_now sh))) ps;
          ps2 = (if remoteIsNewer then ps1 else in_engine (set_remote path (plain_remote
                  \<lparr>rs_uid = uid, rs_folder = True, rs_deleted = False, rs_mtime = 0, rs_size = 0, rs_hash = []\<rparr>)) ps1)
      in (Inr (), reporting (counted count) ps2))"
| "run_commit sh path uid remoteIsNewer (Commit_file hash chunks sz mtime previous count) ps =
     (let ps1 = in_engine (alter_entry path (\<lambda>e. synced e hash chunks uid (sh_now sh))) ps;
          ps2 = (if remoteIsNewer then ps1 else in_engine (\<lambda>en. set_remote path (remote_at
                  \<lparr>rs_uid = uid, rs_folder = False, rs_deleted = False, rs_mtime = mtime, rs_size = sz, rs_hash = hash\<rparr>
                  (spellingHeads (map_of (en_remote en) path) path path uid)) en) ps1)
      in if previous = [] then (Inr (), reporting (counted count) ps2)
         else (case retire_previous (sh_nfc sh) path previous mtime uid (ps_engine ps2) of
                 Inl err \<Rightarrow> (Inl err, ps2)
               | Inr en \<Rightarrow> (Inr (), reporting (counted count) (ps2\<lparr>ps_engine := en\<rparr>))))"
| "run_commit sh path uid remoteIsNewer Commit_deletion ps =
     (let ps1 = (if remoteIsNewer then ps else in_engine (set_remote path (plain_remote
                  \<lparr>rs_uid = uid, rs_folder = False, rs_deleted = True, rs_mtime = sh_now sh, rs_size = 0, rs_hash = []\<rparr>)) ps);
          ps2 = in_engine (\<lambda>en. en\<lparr>en_entries := AList.delete path (en_entries en)\<rparr>) ps1
      in (Inr (), reporting (\<lambda>r. r\<lparr>sr_deletedRemotely := sr_deletedRemotely r + 1\<rparr>) ps2))"

text \<open>One result of the exchange.\<close>

definition settle_result :: "'v shell \<Rightarrow> queued \<Rightarrow> js_error + int \<Rightarrow> ('v pass, unit) act" where
  "settle_result sh q result ps =
     (case result of
        Inl err \<Rightarrow> (Inr (), fail_in_pass sh (qu_path q) err ps)
      | Inr uid \<Rightarrow>
          (let ps1 = in_engine (\<lambda>en. en\<lparr>en_staleHeads := AList.delete (qu_path q) (en_staleHeads en),
                                        en_asked := AList.delete (qu_path q) (en_asked en)\<rparr>) ps;
               newer = remote_uid (qu_path q) (ps_engine ps1) > uid
           in case run_commit sh (qu_path q) uid newer (qu_commit q) ps1 of
                (Inl err, ps2) \<Rightarrow> (Inl err, ps2)
              | (Inr _, ps2) \<Rightarrow>
                  (Inr (), if newer then in_engine (\<lambda>en. en\<lparr>en_again := True\<rparr>)
                                          (reporting (\<lambda>r. r\<lparr>sr_waiting := sr_waiting r + 1\<rparr>) ps2)
                           else ps2)))"

fun settle_results :: "'v shell \<Rightarrow> queued list \<Rightarrow> (js_error + int) list \<Rightarrow> ('v pass, unit) act" where
  "settle_results sh [] results = give ()"
| "settle_results sh (q # qs) [] = throw (plain_error (lit ''TypeError''))"
| "settle_results sh (q # qs) (r # rs) = and_then (settle_result sh q r) (\<lambda>_. settle_results sh qs rs)"

definition goes_alone :: "'v shell \<Rightarrow> queued list \<Rightarrow> bool" where
  "goes_alone sh batch \<longleftrightarrow> (case batch of [q] \<Rightarrow> budget_of q > batchCap sh | _ \<Rightarrow> False)"

definition flush :: "'v shell \<Rightarrow> ('v pass, unit) act" where
  "flush sh ps =
     (if ps_outbox ps = [] then (Inr (), ps)
      else
        (let batch = ps_outbox ps; ps1 = ps\<lparr>ps_outbox := [], ps_outboxBudget := 0, ps_outboxFrame := 0\<rparr> in
         case sh_send sh (goes_alone sh batch) batch ps1 of
           (Inl err, ps2) \<Rightarrow> (Inr (), foldl (\<lambda>ps q. fail_in_pass sh (qu_path q) err ps) ps2 batch)
         | (Inr (results, sent, bytes), ps2) \<Rightarrow>
             settle_results sh batch results
               (reporting (\<lambda>r. r\<lparr>sr_chunksSent := sr_chunksSent r + sent, sr_bytesSent := sr_bytesSent r + bytes\<rparr>) ps2)))"

definition queue_write :: "'v shell \<Rightarrow> queued \<Rightarrow> ('v pass, unit) act" where
  "queue_write sh q ps =
     (let cap = batchCap sh; budget = budget_of q; encoded = encodedEntryBytes (qu_entry q) in
      and_then
        (\<lambda>ps. if ps_outbox ps \<noteq> [] \<and> (budget > cap \<or> ps_outboxBudget ps + budget > cap
                 \<or> ps_outboxFrame ps + encoded > cap - PUTMANY_FRAME_OVERHEAD)
              then flush sh ps else (Inr (), ps))
        (\<lambda>_ ps.
          (let ps1 = ps\<lparr>ps_outbox := ps_outbox ps @ [q], ps_outboxBudget := ps_outboxBudget ps + budget,
                        ps_outboxFrame := ps_outboxFrame ps + encoded\<rparr>
           in if length (ps_outbox ps1) \<ge> MAX_BATCH_ENTRIES \<or> ps_outboxBudget ps1 \<ge> cap
                 \<or> ps_outboxFrame ps1 \<ge> cap - PUTMANY_FRAME_OVERHEAD
              then flush sh ps1 else (Inr (), ps1))) ps)"

section \<open>Uploading\<close>

definition authFor :: "platform \<Rightarrow> schedule \<Rightarrow> batch_entry \<Rightarrow> jstring \<Rightarrow> batch_entry" where
  "authFor pf keys e builtOn =
     (let parent = parentOf pf builtOn in
      e\<lparr>be_parent := parent,
        be_mac := macEntry pf keys \<lparr>ef_path = be_path e, ef_size = be_size e, ef_ctime = be_ctime e, ef_mtime = be_mtime e,
          ef_folder = be_folder e, ef_deleted = be_deleted e, ef_prev = be_prev e, ef_chunks = be_names e, ef_parent = parent\<rparr>\<rparr>)"

definition sealedPath :: "'v shell \<Rightarrow> jstring \<Rightarrow> ('v pass, jstring) act" where
  "sealedPath sh path ps =
     (let sealed = sealPath (sh_platform sh) (sh_keys sh) path
      in (Inr sealed, in_engine (\<lambda>en. en\<lparr>en_unsealed := AList.update sealed path (en_unsealed en)\<rparr>) ps))"

text \<open>\<open>new ProtocolError(code, ...)\<close> where an error is caught.\<close>

definition refused_with :: "protocol_error \<Rightarrow> js_error" where
  "refused_with e = \<lparr>er_code = Some (pe_code e), er_connection = False, er_message = pe_code e\<rparr>"

text \<open>\<open>rehash\<close> over the vault: the file is read whole, as this interface has no stream, and the index learns its names.\<close>

definition scan_file :: "'v shell \<Rightarrow> jstring \<Rightarrow> ('v pass, scanned) act" where
  "scan_file sh path =
     and_then (on_vault (vt_read (sh_vault sh) path)) (\<lambda>bytes ps.
       (let scan = rehash_file (sh_platform sh) (sh_keys sh) (map_option lm_chunkMax (sh_limits sh)) (sh_isText sh path) None None bytes
        in (Inr scan, in_engine (alter_entry path (record_scan scan)) ps)))"

definition plan_in_pass :: "'v shell \<Rightarrow> jstring \<Rightarrow> scanned option \<Rightarrow> ('v pass, upload_plan) act" where
  "plan_in_pass sh path fresh ps =
     (let entry = entryFor path (ps_engine ps) in
      if fresh = None \<and> \<not> (ie_chunks entry \<noteq> [] \<and> ie_hash entry \<noteq> []) then
        and_then (scan_file sh path) (\<lambda>scan. give (Cut scan)) ps
      else (Inr (planUpload entry fresh (case fresh of Some scan \<Rightarrow> scan | None \<Rightarrow> Streamed [] [] 0)), ps))"

definition blank_entry :: batch_entry where
  "blank_entry = \<lparr>be_path = [], be_size = 0, be_ctime = 0, be_mtime = 0, be_folder = False, be_deleted = False, be_prev = None,
     be_names = [], be_mac = [], be_parent = [], be_base = 0, be_prevBase = 0\<rparr>"

definition hold_upload_back :: "'v shell \<Rightarrow> jstring \<Rightarrow> int option \<Rightarrow> 'v pass \<Rightarrow> 'v pass" where
  "hold_upload_back sh path basedOn ps =
     (let ps1 = reporting (heldBack path) ps in
      case answeredVersion basedOn (map_option remote_state.truncate (map_of (en_remote (ps_engine ps)) path)) of
        None \<Rightarrow> ps1
      | Some (uid, hash) \<Rightarrow> in_engine (alter_entry path (\<lambda>e. reconciled e hash uid (sh_now sh))) ps1)"

definition upload_folder :: "'v shell \<Rightarrow> jstring \<Rightarrow> int \<Rightarrow> bool \<Rightarrow> ('v pass, unit) act" where
  "upload_folder sh path base count =
     and_then (sealedPath sh path) (\<lambda>sealed.
       queue_write sh \<lparr>qu_path = path, qu_size = 0,
         qu_entry = (authFor (sh_platform sh) (sh_keys sh) (blank_entry\<lparr>be_path := sealed, be_folder := True\<rparr>) [])\<lparr>be_base := base\<rparr>,
         qu_plan = Known [], qu_commit = Commit_folder count\<rparr>)"

definition upload_file :: "'v shell \<Rightarrow> jstring \<Rightarrow> int \<Rightarrow> bool \<Rightarrow> scanned option \<Rightarrow> ('v pass, unit) act" where
  "upload_file sh path base count fresh =
     and_then (plan_in_pass sh path fresh) (\<lambda>plan ps.
       (let entry = entryFor path (ps_engine ps); previous = ie_prev entry;
            prevBase = (if previous \<noteq> [] then
              (case map_of (en_entries (ps_engine ps)) (canonicalSpelling (sh_nfc sh) previous) of Some e \<Rightarrow> ie_syncuid e | None \<Rightarrow> 0) else 0)
        in and_then (sealedPath sh path) (\<lambda>sealed.
             and_then (if previous \<noteq> [] then and_then (sealedPath sh previous) (\<lambda>s. give (Some s)) else give None) (\<lambda>prev.
               queue_write sh \<lparr>qu_path = path, qu_size = ie_size entry,
                 qu_entry = (authFor (sh_platform sh) (sh_keys sh) (blank_entry\<lparr>be_path := sealed, be_size := ie_size entry,
                     be_ctime := ie_ctime entry, be_mtime := ie_mtime entry, be_prev := prev, be_names := plan_names plan\<rparr>)
                     (ie_synchash entry))\<lparr>be_base := base, be_prevBase := prevBase\<rparr>,
                 qu_plan = plan,
                 qu_commit = Commit_file (ie_hash entry) (ie_chunks entry) (ie_size entry) (ie_mtime entry) previous count\<rparr>)) ps))"

definition upload :: "'v shell \<Rightarrow> jstring \<Rightarrow> int option \<Rightarrow> bool \<Rightarrow> scanned option \<Rightarrow> ('v pass, unit) act" where
  "upload sh path basedOn count fresh ps =
     (case pathBase (map_of (en_remote (ps_engine ps)) path) path basedOn of
        Inl e \<Rightarrow> (Inl (refused_with e), ps)
      | Inr base \<Rightarrow>
          if sh_readOnly sh then (Inr (), hold_upload_back sh path basedOn ps)
          else if ie_folder (entryFor path (ps_engine ps)) then upload_folder sh path base count ps
          else upload_file sh path base count fresh ps)"

text \<open>\<open>deleteRemote\<close> of \<open>act\<close>.\<close>

definition delete_remote :: "'v shell \<Rightarrow> jstring \<Rightarrow> ('v pass, unit) act" where
  "delete_remote sh path ps =
     (let remote = map_of (en_remote (ps_engine ps)) path; entry = entryFor path (ps_engine ps);
          wire = (case remote of Some r \<Rightarrow> (case rm_wire r of Some w \<Rightarrow> w | None \<Rightarrow> path) | None \<Rightarrow> path)
      in if sh_readOnly sh then (Inr (), reporting (heldBack path) ps)
         else and_then (sealedPath sh wire) (\<lambda>sealed.
           queue_write sh \<lparr>qu_path = path, qu_size = 0,
             qu_entry = (authFor (sh_platform sh) (sh_keys sh)
                 (blank_entry\<lparr>be_path := sealed, be_mtime := sh_now sh, be_deleted := True\<rparr>) (ie_synchash entry))
                 \<lparr>be_base := (case remote of Some r \<Rightarrow> rs_uid r | None \<Rightarrow> 0)\<rparr>,
             qu_plan = Known [], qu_commit = Commit_deletion\<rparr>) ps)"

section \<open>The outbox\<close>

lemma pass_frame [simp]:
  "ps_outbox (in_engine f ps) = ps_outbox ps" "ps_outbox (reporting g ps) = ps_outbox ps" "ps_outbox (fail_in_pass sh p err ps) = ps_outbox ps"
  "ps_outboxBudget (in_engine f ps) = ps_outboxBudget ps" "ps_outboxBudget (reporting g ps) = ps_outboxBudget ps"
  "ps_outboxBudget (fail_in_pass sh p err ps) = ps_outboxBudget ps"
  "ps_outboxFrame (in_engine f ps) = ps_outboxFrame ps" "ps_outboxFrame (reporting g ps) = ps_outboxFrame ps"
  "ps_outboxFrame (fail_in_pass sh p err ps) = ps_outboxFrame ps"
  "ps_vault (in_engine f ps) = ps_vault ps" "ps_vault (reporting g ps) = ps_vault ps" "ps_vault (fail_in_pass sh p err ps) = ps_vault ps"
  "ps_engine (reporting g ps) = ps_engine ps" "ps_engine (in_engine f ps) = f (ps_engine ps)"
  by (simp_all add: in_engine_def reporting_def fail_in_pass_def case_prod_beta)

text \<open>The parts of the pass that sending leaves alone.\<close>

definition outside :: "'v pass \<Rightarrow> queued list \<times> int \<times> int \<times> 'v" where
  "outside ps = (ps_outbox ps, ps_outboxBudget ps, ps_outboxFrame ps, ps_vault ps)"

lemma outside_frame [simp]:
  "outside (in_engine f ps) = outside ps" "outside (reporting g ps) = outside ps" "outside (fail_in_pass sh p err ps) = outside ps"
  "outside (ps\<lparr>ps_engine := en\<rparr>) = outside ps"
  by (simp_all add: outside_def)

lemma alter_entry_remote [simp]: "en_remote (alter_entry p f en) = en_remote en"
  by (simp add: alter_entry_def split: option.splits)

lemma set_remote_remote [simp]: "map_of (en_remote (set_remote p r en)) p = Some r"
  by (simp add: set_remote_def js_map_simps)

lemma run_commit_outside: "outside (snd (run_commit sh p uid newer c ps)) = outside ps"
  by (cases c) (auto simp: Let_def split: sum.splits)

lemma run_commit_returns:
  assumes "newer = (remote_uid p (ps_engine ps) > uid)" and "0 \<le> uid"
  shows "fst (run_commit sh p uid newer c ps) = Inr ()"
proof -
  have known: "map_of (en_remote (ps_engine ps)) p \<noteq> None" if newer
    using assms that by (auto simp: remote_uid_def split: option.splits)
  show ?thesis using known
    by (cases c) (auto simp: Let_def retire_previous_def split: sum.splits option.splits if_splits)
qed

definition forgiven :: "queued \<Rightarrow> 'v pass \<Rightarrow> 'v pass" where
  "forgiven q ps = in_engine (\<lambda>en. en\<lparr>en_staleHeads := AList.delete (qu_path q) (en_staleHeads en),
     en_asked := AList.delete (qu_path q) (en_asked en)\<rparr>) ps"

lemma forgiven_simps [simp]: "outside (forgiven q ps) = outside ps"
  "en_remote (ps_engine (forgiven q ps)) = en_remote (ps_engine ps)" "en_entries (ps_engine (forgiven q ps)) = en_entries (ps_engine ps)"
  by (simp_all add: forgiven_def)

lemma remote_uid_forgiven: "remote_uid p (ps_engine (forgiven q ps)) = remote_uid p (ps_engine ps)"
  by (simp add: remote_uid_def)

lemma settle_result_Inr:
  "settle_result sh q (Inr uid) ps =
     (let newer = remote_uid (qu_path q) (ps_engine ps) > uid in
      case run_commit sh (qu_path q) uid newer (qu_commit q) (forgiven q ps) of
        (Inl err, ps2) \<Rightarrow> (Inl err, ps2)
      | (Inr _, ps2) \<Rightarrow>
          (Inr (), if newer then in_engine (\<lambda>en. en\<lparr>en_again := True\<rparr>) (reporting (\<lambda>r. r\<lparr>sr_waiting := sr_waiting r + 1\<rparr>) ps2)
                   else ps2))"
  unfolding settle_result_def forgiven_def [symmetric] Let_def sum.case remote_uid_forgiven by (rule refl)

lemma settle_result_outside: "outside (snd (settle_result sh q r ps)) = outside ps"
proof (cases r)
  case (Inr uid)
  let ?newer = "remote_uid (qu_path q) (ps_engine ps) > uid"
  obtain x ps2 where rc: "run_commit sh (qu_path q) uid ?newer (qu_commit q) (forgiven q ps) = (x, ps2)" by force
  then have "outside ps2 = outside ps" using run_commit_outside [of sh "qu_path q" uid ?newer "qu_commit q" "forgiven q ps"] by simp
  then show ?thesis unfolding Inr settle_result_Inr Let_def rc by (cases x) simp_all
qed (simp add: settle_result_def)

lemma settle_result_returns:
  assumes "\<And>uid. r = Inr uid \<Longrightarrow> 0 \<le> uid"
  shows "fst (settle_result sh q r ps) = Inr ()"
proof (cases r)
  case (Inr uid)
  let ?newer = "remote_uid (qu_path q) (ps_engine ps) > uid"
  have "fst (run_commit sh (qu_path q) uid ?newer (qu_commit q) (forgiven q ps)) = Inr ()"
    by (rule run_commit_returns) (use assms Inr in \<open>simp_all add: remote_uid_def\<close>)
  then obtain ps2 where rc: "run_commit sh (qu_path q) uid ?newer (qu_commit q) (forgiven q ps) = (Inr (), ps2)" by (metis prod.collapse)
  then show ?thesis unfolding Inr settle_result_Inr Let_def by simp
qed (simp add: settle_result_def)

lemma settle_results_outside: "outside (snd (settle_results sh qs rs ps)) = outside ps"
proof (induction qs rs arbitrary: ps rule: settle_results.induct)
  case (3 sh q qs r rs)
  obtain x ps1 where s: "settle_result sh q r ps = (x, ps1)" by force
  then have "outside ps1 = outside ps" using settle_result_outside [of sh q r ps] by simp
  with 3 s show ?case by (cases x) simp_all
qed simp_all

lemma settle_results_return:
  "length rs = length qs \<Longrightarrow> (\<forall>uid. Inr uid \<in> set rs \<longrightarrow> 0 \<le> uid) \<Longrightarrow> fst (settle_results sh qs rs ps) = Inr ()"
proof (induction qs rs arbitrary: ps rule: settle_results.induct)
  case (3 sh q qs r rs)
  have "fst (settle_result sh q r ps) = Inr ()" by (rule settle_result_returns) (use 3(3) in auto)
  then obtain ps1 where s: "settle_result sh q r ps = (Inr (), ps1)" by (metis prod.collapse)
  have "fst (settle_results sh qs rs ps1) = Inr ()" by (rule 3(1)) (use 3(2,3) in auto)
  with s show ?case by simp
qed simp_all

text \<open>A server that takes down each exchange and answers every entry of it.\<close>

type_synonym exchanges = "(bool \<times> queued list) list"

definition answers_well :: "(queued list \<Rightarrow> js_error + batch_answer) \<Rightarrow> bool" where
  "answers_well answer \<longleftrightarrow> (\<forall>batch results n b. answer batch = Inr (results, n, b) \<longrightarrow>
     length results = length batch \<and> (\<forall>uid. Inr uid \<in> set results \<longrightarrow> 0 \<le> uid))"

definition taking_down :: "(queued list \<Rightarrow> js_error + batch_answer) \<Rightarrow> exchanges shell \<Rightarrow> exchanges shell" where
  "taking_down answer sh = sh\<lparr>sh_send := (\<lambda>alone batch ps. (answer batch, ps\<lparr>ps_vault := ps_vault ps @ [(alone, batch)]\<rparr>))\<rparr>"

definition frame_of :: "queued list \<Rightarrow> int" where
  "frame_of batch = sum_list (map (\<lambda>q. encodedEntryBytes (qu_entry q)) batch)"

definition total_budget :: "queued list \<Rightarrow> int" where
  "total_budget batch = sum_list (map budget_of batch)"

text \<open>A batch that may go: within the count, and within both caps or a single write.\<close>

definition may_go :: "'v shell \<Rightarrow> queued list \<Rightarrow> bool" where
  "may_go sh batch \<longleftrightarrow> batch \<noteq> [] \<and> length batch \<le> MAX_BATCH_ENTRIES \<and>
     (length batch = 1 \<or> total_budget batch \<le> batchCap sh \<and> frame_of batch \<le> batchCap sh - PUTMANY_FRAME_OVERHEAD)"

text \<open>What stays in the outbox is below every bound, and its two counters are what it adds up to.\<close>

definition outbox_ok :: "'v shell \<Rightarrow> 'v pass \<Rightarrow> bool" where
  "outbox_ok sh ps \<longleftrightarrow> ps_outboxBudget ps = total_budget (ps_outbox ps) \<and> ps_outboxFrame ps = frame_of (ps_outbox ps) \<and>
     (ps_outbox ps \<noteq> [] \<longrightarrow> length (ps_outbox ps) < MAX_BATCH_ENTRIES \<and> ps_outboxBudget ps < batchCap sh \<and>
        ps_outboxFrame ps < batchCap sh - PUTMANY_FRAME_OVERHEAD)"

lemma foldl_fail_outside: "outside (foldl (\<lambda>ps q. fail_in_pass sh (qu_path q) err ps) ps qs) = outside ps"
  by (induction qs arbitrary: ps) simp_all

lemma flush_sends:
  assumes "answers_well answer" and "ps_outbox ps \<noteq> []"
  shows "\<exists>ps'. flush (taking_down answer sh) ps = (Inr (), ps') \<and>
    outside ps' = ([], 0, 0, ps_vault ps @ [(goes_alone sh (ps_outbox ps), ps_outbox ps)])"
proof -
  let ?sh = "taking_down answer sh" and ?batch = "ps_outbox ps"
  let ?ps1 = "ps\<lparr>ps_outbox := [], ps_outboxBudget := 0, ps_outboxFrame := 0, ps_vault := ps_vault ps @ [(goes_alone sh ?batch, ?batch)]\<rparr>"
  have alone: "goes_alone ?sh ?batch = goes_alone sh ?batch"
    by (simp add: goes_alone_def batchCap_def taking_down_def split: list.splits)
  have out: "outside ?ps1 = ([], 0, 0, ps_vault ps @ [(goes_alone sh ?batch, ?batch)])" by (simp add: outside_def)
  have send: "sh_send ?sh a b q = (answer b, q\<lparr>ps_vault := ps_vault q @ [(a, b)]\<rparr>)" for a b and q :: "exchanges pass"
    by (simp add: taking_down_def)
  show ?thesis
  proof (cases "answer ?batch")
    case (Inl err)
    then have "flush ?sh ps = (Inr (), foldl (\<lambda>ps q. fail_in_pass ?sh (qu_path q) err ps) ?ps1 ?batch)"
      using assms(2) by (simp add: flush_def Let_def send alone)
    then show ?thesis using out by (simp add: foldl_fail_outside)
  next
    case (Inr a)
    then obtain results n b where a: "answer ?batch = Inr (results, n, b)" by (metis prod_cases3)
    let ?ps2 = "reporting (\<lambda>r. r\<lparr>sr_chunksSent := sr_chunksSent r + n, sr_bytesSent := sr_bytesSent r + b\<rparr>) ?ps1"
    have "flush ?sh ps = settle_results ?sh ?batch results ?ps2"
      using assms(2) by (simp add: flush_def Let_def send alone a)
    moreover obtain x ps' where r: "settle_results ?sh ?batch results ?ps2 = (x, ps')" by (cases "settle_results ?sh ?batch results ?ps2")
    moreover have "length results = length ?batch" "\<forall>uid. Inr uid \<in> set results \<longrightarrow> 0 \<le> uid"
      using assms(1) a unfolding answers_well_def by blast+
    then have "fst (settle_results ?sh ?batch results ?ps2) = Inr ()" by (rule settle_results_return)
    then have "x = Inr ()" by (simp add: r)
    moreover have "outside ps' = outside ?ps1" using settle_results_outside [of ?sh ?batch results ?ps2] r by simp
    ultimately show ?thesis using out by simp
  qed
qed

lemma outsideD: "outside ps = (a, b, c, d) \<Longrightarrow> ps_outbox ps = a \<and> ps_outboxBudget ps = b \<and> ps_outboxFrame ps = c \<and> ps_vault ps = d"
  by (simp add: outside_def)

lemma sums [simp]:
  "total_budget [] = 0" "frame_of [] = 0" "total_budget (b @ [q]) = total_budget b + budget_of q"
  "frame_of (b @ [q]) = frame_of b + encodedEntryBytes (qu_entry q)"
  by (simp_all add: total_budget_def frame_of_def)

lemma queue_write_sends:
  assumes "answers_well answer" and "outbox_ok sh ps"
  shows "\<exists>ps' sent. queue_write (taking_down answer sh) q ps = (Inr (), ps') \<and> outbox_ok sh ps' \<and>
    ps_vault ps' = ps_vault ps @ sent \<and> concat (map snd sent) @ ps_outbox ps' = ps_outbox ps @ [q] \<and>
    (\<forall>(alone, batch) \<in> set sent. may_go sh batch \<and> (alone \<longleftrightarrow> (\<exists>q'. batch = [q'] \<and> budget_of q' > batchCap sh)))"
proof -
  let ?sh = "taking_down answer sh" and ?cap = "batchCap sh" and ?over = PUTMANY_FRAME_OVERHEAD
  let ?size = "encodedEntryBytes (qu_entry q)"
  have cap: "batchCap ?sh = ?cap" by (simp add: taking_down_def batchCap_def)
  have alone: "goes_alone sh b \<longleftrightarrow> (\<exists>q'. b = [q'] \<and> budget_of q' > ?cap)" for b by (auto simp: goes_alone_def split: list.splits)
  define first where "first ps = (ps_outbox ps \<noteq> [] \<and> (budget_of q > ?cap \<or> ps_outboxBudget ps + budget_of q > ?cap
      \<or> ps_outboxFrame ps + ?size > ?cap - ?over))" for ps :: "exchanges pass"
  define push where "push ps = ps\<lparr>ps_outbox := ps_outbox ps @ [q], ps_outboxBudget := ps_outboxBudget ps + budget_of q,
      ps_outboxFrame := ps_outboxFrame ps + ?size\<rparr>" for ps :: "exchanges pass"
  define full where "full ps = (length (ps_outbox ps) \<ge> MAX_BATCH_ENTRIES \<or> ps_outboxBudget ps \<ge> ?cap \<or> ps_outboxFrame ps \<ge> ?cap - ?over)"
    for ps :: "exchanges pass"
  have unfold: "queue_write ?sh q ps = and_then (\<lambda>ps. if first ps then flush ?sh ps else (Inr (), ps))
      (\<lambda>_ ps. if full (push ps) then flush ?sh (push ps) else (Inr (), push ps)) ps"
    unfolding queue_write_def cap first_def push_def full_def Let_def by (rule refl)
  have pushed: "ps_outbox (push ps) = ps_outbox ps @ [q]" "ps_vault (push ps) = ps_vault ps" for ps by (simp_all add: push_def)
  have second: "\<exists>ps' sent. (if full (push ps1) then flush ?sh (push ps1) else (Inr (), push ps1)) = (Inr (), ps') \<and> outbox_ok sh ps' \<and>
      ps_vault ps' = ps_vault ps1 @ sent \<and> concat (map snd sent) @ ps_outbox ps' = ps_outbox ps1 @ [q] \<and>
      (\<forall>(alone, batch) \<in> set sent. may_go sh batch \<and> (alone \<longleftrightarrow> (\<exists>q'. batch = [q'] \<and> budget_of q' > ?cap)))"
    if ok: "outbox_ok sh ps1" and fits: "\<not> first ps1" for ps1
  proof (cases "full (push ps1)")
    case True
    obtain ps' where f: "flush ?sh (push ps1) = (Inr (), ps')"
      and o: "outside ps' = ([], 0, 0, ps_vault ps1 @ [(goes_alone sh (ps_outbox ps1 @ [q]), ps_outbox ps1 @ [q])])"
      using flush_sends [OF assms(1), of "push ps1" sh] unfolding pushed by blast
    have "may_go sh (ps_outbox ps1 @ [q])"
      using ok fits by (cases "ps_outbox ps1 = []") (auto simp: may_go_def outbox_ok_def first_def MAX_BATCH_ENTRIES_def)
    with True f outsideD [OF o] show ?thesis
      by (intro exI [of _ ps'] exI [of _ "[(goes_alone sh (ps_outbox ps1 @ [q]), ps_outbox ps1 @ [q])]"])
         (auto simp: outbox_ok_def alone)
  next
    case False
    then have "outbox_ok sh (push ps1)" using ok by (auto simp: outbox_ok_def full_def push_def)
    with False pushed show ?thesis by (intro exI [of _ "push ps1"] exI [of _ "[]"]) simp
  qed
  show ?thesis
  proof (cases "first ps")
    case False
    then show ?thesis using second [OF assms(2) False] by (simp add: unfold and_then_def)
  next
    case True
    then have ne: "ps_outbox ps \<noteq> []" by (simp add: first_def)
    obtain ps1 where f: "flush ?sh ps = (Inr (), ps1)"
      and o: "outside ps1 = ([], 0, 0, ps_vault ps @ [(goes_alone sh (ps_outbox ps), ps_outbox ps)])"
      using flush_sends [OF assms(1) ne] by blast
    note o = outsideD [OF o]
    have "outbox_ok sh ps1" "\<not> first ps1" using o by (simp_all add: outbox_ok_def first_def)
    from second [OF this] obtain ps' sent where s: "(if full (push ps1) then flush ?sh (push ps1) else (Inr (), push ps1)) = (Inr (), ps')"
      "outbox_ok sh ps'" "ps_vault ps' = ps_vault ps1 @ sent" "concat (map snd sent) @ ps_outbox ps' = ps_outbox ps1 @ [q]"
      "\<forall>(alone, batch) \<in> set sent. may_go sh batch \<and> (alone \<longleftrightarrow> (\<exists>q'. batch = [q'] \<and> budget_of q' > ?cap))" by blast
    have "may_go sh (ps_outbox ps)" using assms(2) ne by (auto simp: may_go_def outbox_ok_def)
    with s o show ?thesis
      by (intro exI [of _ ps'] exI [of _ "(goes_alone sh (ps_outbox ps), ps_outbox ps) # sent"])
         (auto simp: unfold and_then_def True f alone)
  qed
qed

fun queue_all :: "'v shell \<Rightarrow> queued list \<Rightarrow> ('v pass, unit) act" where
  "queue_all sh [] = give ()"
| "queue_all sh (q # qs) = and_then (queue_write sh q) (\<lambda>_. queue_all sh qs)"

text \<open>C40. No write is lost or sent twice on its way through the outbox. Whatever is queued, and whichever exchanges the
  server refuses, the batches that went followed by what still waits are the writes in the order they came; each
  batch holds at most 256 entries and keeps to the cap on its budget and on its frame, unless it is a single
  write; and a write goes as a \<open>put\<close> of its own exactly if its budget alone is over the cap.\<close>

theorem batches_are_exact:
  assumes "answers_well answer" and "ps_outbox ps = []" and "ps_outboxBudget ps = 0" and "ps_outboxFrame ps = 0" and "ps_vault ps = []"
  shows "\<exists>ps'. queue_all (taking_down answer sh) qs ps = (Inr (), ps') \<and>
    concat (map snd (ps_vault ps')) @ ps_outbox ps' = qs \<and>
    (\<forall>(alone, batch) \<in> set (ps_vault ps'). may_go sh batch \<and> (alone \<longleftrightarrow> (\<exists>q. batch = [q] \<and> budget_of q > batchCap sh)))"
proof -
  have "\<exists>ps' sent. queue_all (taking_down answer sh) qs ps = (Inr (), ps') \<and> ps_vault ps' = ps_vault ps @ sent \<and>
    concat (map snd sent) @ ps_outbox ps' = ps_outbox ps @ qs \<and>
    (\<forall>(alone, batch) \<in> set sent. may_go sh batch \<and> (alone \<longleftrightarrow> (\<exists>q. batch = [q] \<and> budget_of q > batchCap sh)))"
    if "outbox_ok sh ps" for ps using that
  proof (induction qs arbitrary: ps)
    case (Cons q qs)
    obtain ps1 sent1 where one: "queue_write (taking_down answer sh) q ps = (Inr (), ps1)" "outbox_ok sh ps1"
      "ps_vault ps1 = ps_vault ps @ sent1" "concat (map snd sent1) @ ps_outbox ps1 = ps_outbox ps @ [q]"
      "\<forall>(alone, batch) \<in> set sent1. may_go sh batch \<and> (alone \<longleftrightarrow> (\<exists>q'. batch = [q'] \<and> budget_of q' > batchCap sh))"
      using queue_write_sends [OF assms(1) Cons.prems] by blast
    obtain ps' sent2 where two: "queue_all (taking_down answer sh) qs ps1 = (Inr (), ps')" "ps_vault ps' = ps_vault ps1 @ sent2"
      "concat (map snd sent2) @ ps_outbox ps' = ps_outbox ps1 @ qs"
      "\<forall>(alone, batch) \<in> set sent2. may_go sh batch \<and> (alone \<longleftrightarrow> (\<exists>q'. batch = [q'] \<and> budget_of q' > batchCap sh))"
      using Cons.IH [OF one(2)] by blast
    have "concat (map snd (sent1 @ sent2)) @ ps_outbox ps' = ps_outbox ps @ q # qs"
      using one(4) two(3) by (metis append.assoc append_Cons append_Nil concat_append map_append)
    with one two show ?case by (intro exI [of _ ps'] exI [of _ "sent1 @ sent2"]) auto
  qed (intro exI, auto)
  moreover have "outbox_ok sh ps" using assms by (simp add: outbox_ok_def)
  ultimately show ?thesis using assms(2,5) by fastforce
qed

section \<open>What a committed write leaves\<close>

lemma alter_entry_map:
  "map_of (en_entries (alter_entry p f en)) q = (if q = p then map_option f (map_of (en_entries en) p) else map_of (en_entries en) q)"
  by (simp add: alter_entry_def js_map_simps split: option.splits)

lemma alter_entry_frame [simp]:
  "en_pending (alter_entry p f en) = en_pending en" "en_staleHeads (alter_entry p f en) = en_staleHeads en"
  "en_asked (alter_entry p f en) = en_asked en" "en_retries (alter_entry p f en) = en_retries en"
  by (simp_all add: alter_entry_def split: option.splits)

lemma set_remote_frame [simp]:
  "en_pending (set_remote p r en) = en_pending en" "en_staleHeads (set_remote p r en) = en_staleHeads en"
  "en_asked (set_remote p r en) = en_asked en" "en_entries (set_remote p r en) = en_entries en"
  "map_of (en_remote (set_remote p r en)) q = (if q = p then Some r else map_of (en_remote en) q)"
  by (simp_all add: set_remote_def js_map_simps)

lemma remote_at_fields [simp]:
  "rs_uid (remote_at r wh) = rs_uid r" "rs_deleted (remote_at r wh) = rs_deleted r" "rs_folder (remote_at r wh) = rs_folder r"
  "rs_hash (remote_at r wh) = rs_hash r" "remote_state.truncate (remote_at r wh) = r"
  by (simp_all add: remote_at_def remote_state.defs)

lemma synced_fields: "ie_synchash (synced e hash chunks uid now) = hash" "ie_hash (synced e hash chunks uid now) = hash"
  "ie_syncuid (synced e hash chunks uid now) = uid"
  by (simp_all add: synced_def Let_def)

text \<open>The remote record and the entry a committed file leaves agree on one content.\<close>

definition agreed_on :: "jstring \<Rightarrow> jstring \<Rightarrow> int \<Rightarrow> engine \<Rightarrow> bool" where
  "agreed_on path hash uid en \<longleftrightarrow>
     (\<exists>r e. map_of (en_remote en) path = Some r \<and> map_of (en_entries en) path = Some e \<and>
        rs_uid r = uid \<and> rs_hash r = hash \<and> \<not> rs_deleted r \<and> \<not> rs_folder r \<and> ie_synchash e = hash \<and> ie_syncuid e = uid)"

lemma retire_previous_spec:
  assumes "retire_previous nfc path previous mtime uid en = Inr en'" and "agreed_on path hash uid en"
  shows "agreed_on path hash uid en'" "en_staleHeads en' = en_staleHeads en" "en_asked en' = en_asked en"
    "nfc previous \<noteq> path \<Longrightarrow> map_of (en_entries en') (nfc previous) = None"
    "nfc previous \<noteq> path \<Longrightarrow> remote_uid (nfc previous) en \<le> uid \<Longrightarrow>
       (\<exists>r. map_of (en_remote en') (nfc previous) = Some r \<and> rs_deleted r \<and> rs_uid r = uid) \<and> nfc previous \<notin> set (en_pending en')"
  using assms
  by (auto simp: retire_previous_def canonicalSpelling_def agreed_on_def Let_def js_map_simps remote_uid_def set_remote_def
      split: if_splits option.splits)

lemma commit_file_spec:
  assumes "run_commit sh path uid False (Commit_file hash chunks sz mtime previous count) ps = (Inr (), ps')"
    and "map_of (en_entries (ps_engine ps)) path = Some e"
  shows "agreed_on path hash uid (ps_engine ps')" "en_staleHeads (ps_engine ps') = en_staleHeads (ps_engine ps)"
    "en_asked (ps_engine ps') = en_asked (ps_engine ps)"
    "previous \<noteq> [] \<Longrightarrow> sh_nfc sh previous \<noteq> path \<Longrightarrow> map_of (en_entries (ps_engine ps')) (sh_nfc sh previous) = None"
    "previous \<noteq> [] \<Longrightarrow> sh_nfc sh previous \<noteq> path \<Longrightarrow> remote_uid (sh_nfc sh previous) (ps_engine ps) \<le> uid \<Longrightarrow>
       (\<exists>r. map_of (en_remote (ps_engine ps')) (sh_nfc sh previous) = Some r \<and> rs_deleted r \<and> rs_uid r = uid)
       \<and> sh_nfc sh previous \<notin> set (en_pending (ps_engine ps'))"
proof -
  define en where "en = ps_engine (in_engine (\<lambda>en. set_remote path (remote_at
                  \<lparr>rs_uid = uid, rs_folder = False, rs_deleted = False, rs_mtime = mtime, rs_size = sz, rs_hash = hash\<rparr>
                  (spellingHeads (map_of (en_remote en) path) path path uid)) en)
                (in_engine (alter_entry path (\<lambda>e. synced e hash chunks uid (sh_now sh))) ps))"
  have agreed: "agreed_on path hash uid en"
    using assms(2) by (simp add: agreed_on_def en_def alter_entry_map synced_fields)
  have frame: "en_staleHeads en = en_staleHeads (ps_engine ps)" "en_asked en = en_asked (ps_engine ps)"
    "q \<noteq> path \<Longrightarrow> remote_uid q en = remote_uid q (ps_engine ps)" for q
    by (simp_all add: en_def remote_uid_def)
  have cases: "previous = [] \<and> ps_engine ps' = en \<or> previous \<noteq> [] \<and> retire_previous (sh_nfc sh) path previous mtime uid en = Inr (ps_engine ps')"
    using assms(1) by (auto simp: Let_def en_def split: if_splits sum.splits)
  show "agreed_on path hash uid (ps_engine ps')" using cases agreed retire_previous_spec(1) by metis
  show "en_staleHeads (ps_engine ps') = en_staleHeads (ps_engine ps)" "en_asked (ps_engine ps') = en_asked (ps_engine ps)"
    using cases agreed retire_previous_spec(2,3) frame by metis+
  show "previous \<noteq> [] \<Longrightarrow> sh_nfc sh previous \<noteq> path \<Longrightarrow> map_of (en_entries (ps_engine ps')) (sh_nfc sh previous) = None"
    using cases agreed retire_previous_spec(4) by metis
  show "previous \<noteq> [] \<Longrightarrow> sh_nfc sh previous \<noteq> path \<Longrightarrow> remote_uid (sh_nfc sh previous) (ps_engine ps) \<le> uid \<Longrightarrow>
       (\<exists>r. map_of (en_remote (ps_engine ps')) (sh_nfc sh previous) = Some r \<and> rs_deleted r \<and> rs_uid r = uid)
       \<and> sh_nfc sh previous \<notin> set (en_pending (ps_engine ps'))"
    using cases agreed retire_previous_spec(5) frame(3) by metis
qed

lemma decide_agreed:
  assumes "rs_hash r = hash" "\<not> rs_deleted r" "\<not> rs_folder r" "ie_synchash e = hash" "hash \<noteq> []"
  shows "\<not> ls_folder l \<Longrightarrow> verdict_of (decide (Some l) (Some r) e m) = Some (if ls_hash l = hash then Keep else Push)"
    "verdict_of (decide None (Some r) e m) = Some Remove_there"
  using assms by (auto simp: decide_def decideMissingLocally_def Let_def)

text \<open>C39. A write the server accepted is settled, and the next pass reads it so. Once the answer to a queued file is applied,
  and nothing newer is known, the decision for the path is to keep a file that still holds the content sent, to
  upload one that was edited since, and to delete on the server one that was removed; the count of
  refusals is forgotten; and the old name of a rename is gone from the index and recorded as
  deleted, so it is neither downloaded back nor read as a deletion made here.\<close>

theorem accepted_upload_settles:
  assumes "map_of (en_entries (ps_engine ps)) (qu_path q) = Some e" and "hash \<noteq> []"
    and "qu_commit q = Commit_file hash chunks sz mtime previous count"
    and "remote_uid (qu_path q) (ps_engine ps) \<le> uid" and "settle_result sh q (Inr uid) ps = (Inr (), ps')"
  shows "\<exists>r e'. map_of (en_remote (ps_engine ps')) (qu_path q) = Some r \<and> map_of (en_entries (ps_engine ps')) (qu_path q) = Some e' \<and>
    (\<forall>l m. \<not> ls_folder l \<longrightarrow>
       verdict_of (decide (Some l) (Some (remote_state.truncate r)) e' m) = Some (if ls_hash l = hash then Keep else Push)) \<and>
    (\<forall>m. verdict_of (decide None (Some (remote_state.truncate r)) e' m) = Some Remove_there) \<and>
    refused_so_far (qu_path q) (ps_engine ps') = 0 \<and>
    (let old = sh_nfc sh previous in previous \<noteq> [] \<and> old \<noteq> qu_path q \<longrightarrow>
       map_of (en_entries (ps_engine ps')) old = None \<and>
       (remote_uid old (ps_engine ps) \<le> uid \<longrightarrow>
          (\<exists>r. map_of (en_remote (ps_engine ps')) old = Some r \<and> rs_deleted r) \<and> old \<notin> set (en_pending (ps_engine ps'))))"
proof -
  have "\<not> remote_uid (qu_path q) (ps_engine ps) > uid" using assms(4) by simp
  then have rc: "run_commit sh (qu_path q) uid False (Commit_file hash chunks sz mtime previous count) (forgiven q ps) = (Inr (), ps')"
    using assms(3,5) by (auto simp: settle_result_Inr Let_def simp del: run_commit.simps split: prod.splits sum.splits)
  have e: "map_of (en_entries (ps_engine (forgiven q ps))) (qu_path q) = Some e" using assms(1) by simp
  note spec = commit_file_spec [OF rc e]
  from spec(1) obtain r e' where re: "map_of (en_remote (ps_engine ps')) (qu_path q) = Some r" "map_of (en_entries (ps_engine ps')) (qu_path q) = Some e'"
    "rs_hash r = hash" "\<not> rs_deleted r" "\<not> rs_folder r" "ie_synchash e' = hash"
    by (auto simp: agreed_on_def)
  have "refused_so_far (qu_path q) (ps_engine ps') = 0"
    using spec(2,3) by (simp add: refused_so_far_def forgiven_def)
  moreover have "rs_hash (remote_state.truncate r) = hash" "\<not> rs_deleted (remote_state.truncate r)" "\<not> rs_folder (remote_state.truncate r)"
    using re by (simp_all add: remote_state.defs)
  note dec = decide_agreed [OF this re(6) assms(2)]
  ultimately show ?thesis
    using re(1,2) dec spec(4,5) by (intro exI [of _ r] exI [of _ e']) (auto simp: Let_def remote_uid_forgiven)
qed

text \<open>A pass, an index and a device to try the claims on.\<close>

definition plain_shell :: "'v vault \<Rightarrow> 'v shell" where
  "plain_shell V = \<lparr>sh_vault = V, sh_platform = plain_platform, sh_keys = sample_keys, sh_nfc = id, sh_lower = id,
     sh_limits = None, sh_active = False, sh_readOnly = False, sh_now = 50,
     sh_date = \<lparr>dt_year = 2025, dt_month = 0, dt_day = 2, dt_hours = 3, dt_minutes = 4\<rparr>, sh_device = lit ''d'',
     sh_isText = (\<lambda>_. True), sh_send = (\<lambda>_ batch. give (map (\<lambda>_. Inr 7) batch, 0, 0)), sh_fetch = (\<lambda>_ _. give [])\<rparr>"

definition fresh_pass :: "'v \<Rightarrow> 'v pass" where
  "fresh_pass v = \<lparr>ps_vault = v, ps_engine = fresh_engine, ps_report = emptyReport, ps_outbox = [], ps_outboxBudget = 0,
     ps_outboxFrame = 0, ps_inbox = [], ps_inboxBytes = 0, ps_localByIdentity = [], ps_deletingThisPass = [],
     ps_pendingDeletes = [], ps_deleteBaseline = [], ps_wroteThisPass = [], ps_nowBlocked = []\<rparr>"

definition sample_queued :: queued where
  "sample_queued = \<lparr>qu_path = lit ''b.md'', qu_size = 1, qu_entry = blank_entry, qu_plan = Known [[97]],
     qu_commit = Commit_file [97] [[97]] 1 3 (lit ''a.md'') True\<rparr>"

definition sample_pass :: "'v \<Rightarrow> 'v pass" where
  "sample_pass v = in_engine (ensure_entry (lit ''b.md'') \<circ> ensure_entry (lit ''a.md'')) (fresh_pass v)"

lemma batches_are_exact_witness:
  "\<forall>V. \<exists>ps'. queue_all (taking_down (\<lambda>batch. Inr (map (\<lambda>_. Inr 7) batch, 0, 0)) (plain_shell V)) [sample_queued, sample_queued]
      (fresh_pass []) = (Inr (), ps') \<and> concat (map snd (ps_vault ps')) @ ps_outbox ps' = [sample_queued, sample_queued]"
proof
  fix V :: "exchanges vault"
  have "answers_well (\<lambda>batch. Inr (map (\<lambda>_. Inr 7) batch, 0, 0))" by (auto simp: answers_well_def)
  then show "\<exists>ps'. queue_all (taking_down (\<lambda>batch. Inr (map (\<lambda>_. Inr 7) batch, 0, 0)) (plain_shell V)) [sample_queued, sample_queued]
      (fresh_pass []) = (Inr (), ps') \<and> concat (map snd (ps_vault ps')) @ ps_outbox ps' = [sample_queued, sample_queued]"
    using batches_are_exact [where ps = "fresh_pass []" and sh = "plain_shell V" and qs = "[sample_queued, sample_queued]"]
    by (fastforce simp: fresh_pass_def)
qed

definition no_files :: memory_vault where
  "no_files = \<lparr>mv_files = [], mv_folders = [], mv_notified = [], mv_reads = 0, mv_nameTakenOnce = None, mv_failRemoveOnce = None\<rparr>"

lemma accepted_upload_settles_witness:
  "\<exists>ps' r e'. settle_result (plain_shell (memoryVault plain_platform (editing (\<lambda>_ v. v)))) sample_queued (Inr 7) (sample_pass no_files) = (Inr (), ps') \<and>
     map_of (en_remote (ps_engine ps')) (lit ''b.md'') = Some r \<and> map_of (en_entries (ps_engine ps')) (lit ''b.md'') = Some e' \<and>
     verdict_of (decide None (Some (remote_state.truncate r)) e' True) = Some Remove_there \<and>
     map_of (en_entries (ps_engine ps')) (lit ''a.md'') = None"
proof -
  let ?sh = "plain_shell (memoryVault plain_platform (editing (\<lambda>_ v. v)))"
  have entry: "map_of (en_entries (ps_engine (sample_pass no_files))) (qu_path sample_queued) = Some (newEntry (lit ''b.md''))"
    by (simp add: sample_pass_def ensure_entry_def fresh_pass_def fresh_engine_def sample_queued_def js_map_simps)
  have uid: "remote_uid (qu_path sample_queued) (ps_engine (sample_pass no_files)) \<le> 7"
    by (simp add: sample_pass_def ensure_entry_def fresh_pass_def fresh_engine_def sample_queued_def remote_uid_def)
  have commit: "qu_commit sample_queued = Commit_file [97] [[97]] 1 3 (lit ''a.md'') True" by (simp add: sample_queued_def)
  have "fst (settle_result ?sh sample_queued (Inr 7) (sample_pass no_files)) = Inr ()" by (rule settle_result_returns) simp
  then obtain ps' where s: "settle_result ?sh sample_queued (Inr 7) (sample_pass no_files) = (Inr (), ps')" by (metis prod.collapse)
  have "sh_nfc ?sh (lit ''a.md'') = lit ''a.md''" "lit ''a.md'' \<noteq> []" "lit ''a.md'' \<noteq> qu_path sample_queued"
    by (simp_all add: plain_shell_def sample_queued_def)
  moreover note accepted_upload_settles [OF entry _ commit uid s]
  ultimately show ?thesis using s by (auto simp: Let_def sample_queued_def simp del: lit_Cons)
qed

end
