(* ===== verification/Engine_Landing.thy ===== *)
theory Engine_Landing
  imports Engine_Outbox
begin

text \<open>
  How a pass changes files, from \<open>client/src/core/engine.ts\<close>: \<open>writePreserving\<close>, the one door every destructive write goes
  through, \<open>placeBeside\<close> and \<open>conflict\<close>, which put a version under a free name, \<open>land\<close> and \<open>landFromLocal\<close>, which write a
  version that came down, and \<open>applyDeletes\<close>, the removals at the end of a pass. Over any vault that honours
  \<open>preserving_vault\<close>, what was on the disk when it was overwritten or removed is still there afterwards, or was the
  version the pass decided about.
\<close>

section \<open>Names and checks\<close>

definition identity :: "'v shell \<Rightarrow> jstring \<Rightarrow> jstring" where
  "identity sh path = (case vt_canonical (sh_vault sh) of Some files_as \<Rightarrow> files_as path
     | None \<Rightarrow> foldPath (sh_nfc sh) (sh_lower sh) path)"

definition landed_at :: "'v shell \<Rightarrow> jstring \<Rightarrow> 'v pass \<Rightarrow> 'v pass" where
  "landed_at sh path ps = ps\<lparr>ps_wroteThisPass := ps_wroteThisPass ps @ [path],
     ps_localByIdentity := AList.update (identity sh path) path (ps_localByIdentity ps)\<rparr>"

definition digestOf :: "'v shell \<Rightarrow> jstring \<Rightarrow> ('v pass, jstring option) act" where
  "digestOf sh path =
     (case vt_contentDigest (sh_vault sh) of
        Some digest \<Rightarrow> on_vault (digest path)
      | None \<Rightarrow> or_else (and_then (on_vault (vt_read (sh_vault sh) path)) (\<lambda>bytes. give (Some (plainDigest (sh_platform sh) bytes))))
                        (\<lambda>_. give None))"

definition expecting :: "'v shell \<Rightarrow> jstring option \<Rightarrow> expected option" where
  "expecting sh digest = map_option (\<lambda>d. \<lparr>ex_contentId = d, ex_idOf = plainDigest (sh_platform sh)\<rparr>) digest"

text \<open>\<open>firstFreeName\<close> asking a vault: \<open>k\<close> further candidates from the \<open>n\<close>-th on.\<close>

fun free_name_from :: "(jstring \<Rightarrow> ('s, bool) act) \<Rightarrow> (nat \<Rightarrow> jstring) \<Rightarrow> nat \<Rightarrow> nat \<Rightarrow> ('s, jstring) act" where
  "free_name_from taken spell n 0 = throw (plain_error (lit ''cannot find an unused name beside it''))"
| "free_name_from taken spell n (Suc k) =
     and_then (taken (spell n)) (\<lambda>t. if \<not> t then give (spell n) else free_name_from taken spell (n + 1) k)"

definition freeConflictPath :: "'v shell \<Rightarrow> jstring \<Rightarrow> ('v, jstring) act" where
  "freeConflictPath sh path =
     (let base = conflictCopyPath path (sh_device sh) (sh_date sh); taken = vt_exists (sh_vault sh) in
      and_then (taken base) (\<lambda>t. if \<not> t then give base else free_name_from taken (numbered base) 1 999))"

fun place_attempts :: "nat \<Rightarrow> ('v, jstring) act \<Rightarrow> bytes \<Rightarrow> file_times \<Rightarrow> 'v vault \<Rightarrow> ('v, jstring) act" where
  "place_attempts 0 freeName bytes tms V =
     throw (plain_error (lit ''could not find a name beside the note that stayed free long enough to use''))"
| "place_attempts (Suc k) freeName bytes tms V =
     and_then freeName (\<lambda>name.
       (case vt_create V of
          None \<Rightarrow> and_then (vt_write V name bytes tms) (\<lambda>_. give name)
        | Some create \<Rightarrow>
            and_then (create name bytes tms) (\<lambda>done. if done then give name else place_attempts k freeName bytes tms V)))"

definition placeBeside :: "('v, jstring) act \<Rightarrow> bytes \<Rightarrow> file_times \<Rightarrow> 'v vault \<Rightarrow> ('v, jstring) act" where
  "placeBeside = place_attempts 100"

definition conflicted_once :: "sync_report \<Rightarrow> sync_report" where
  "conflicted_once r = r\<lparr>sr_conflicted := sr_conflicted r + 1\<rparr>"

section \<open>A write that preserves\<close>

definition writePreserving ::
  "'v shell \<Rightarrow> jstring \<Rightarrow> expected option \<Rightarrow> bytes \<Rightarrow> file_times \<Rightarrow> ('v pass, bool) act" where
  "writePreserving sh path expect content tms =
     (case vt_replace (sh_vault sh) of
        None \<Rightarrow> and_then (on_vault (vt_write (sh_vault sh) path content tms)) (\<lambda>_. give False)
      | Some replace \<Rightarrow>
          and_then (on_vault (freeConflictPath sh path)) (\<lambda>keepAt.
          and_then (on_vault (replace path expect content tms keepAt)) (\<lambda>out.
          and_then (case rp_keptAt out of
              None \<Rightarrow> give ()
            | Some stayed \<Rightarrow> modify (reporting conflicted_once \<circ> landed_at sh stayed)) (\<lambda>_.
          and_then (if rp_landed out then give () else
              and_then (on_vault (placeBeside (freeConflictPath sh path) content tms (sh_vault sh))) (\<lambda>beside.
                modify ((if rp_keptAt out = None then reporting conflicted_once else id) \<circ> landed_at sh beside))) (\<lambda>_.
          give (rp_keptAt out \<noteq> None \<or> \<not> rp_landed out))))))"

text \<open>Whether a path still is what the decision was taken about.\<close>

definition still_the_same :: "'v shell \<Rightarrow> jstring \<Rightarrow> local_state option \<Rightarrow> file_stat option \<Rightarrow> 'v pass \<Rightarrow> bool" where
  "still_the_same sh path based now ps =
     (case based of
        None \<Rightarrow>
          (case now of
             None \<Rightarrow> True
           | Some _ \<Rightarrow> (case map_of (ps_localByIdentity ps) (identity sh path) of
                         None \<Rightarrow> False | Some known \<Rightarrow> known \<in> set (ps_deletingThisPass ps)))
      | Some b \<Rightarrow>
          (case now of
             None \<Rightarrow> False
           | Some st \<Rightarrow>
               if st_folder st \<noteq> ls_folder b then False
               else if st_folder st then True
               else int (st_size st) = ls_size b \<and> \<lceil>st_mtime st\<rceil> = ls_mtime b))"

definition unchangedSince :: "'v shell \<Rightarrow> jstring \<Rightarrow> local_state option \<Rightarrow> ('v pass, bool) act" where
  "unchangedSince sh path based =
     or_else (and_then (on_vault (vt_stat (sh_vault sh) path)) (\<lambda>now. read_off (still_the_same sh path based now))) (\<lambda>_. give False)"

section \<open>Removals\<close>

definition removedSomethingElse ::
  "'v shell \<Rightarrow> jstring \<Rightarrow> local_state option \<Rightarrow> (jstring \<times> jstring) list \<Rightarrow> ('v pass, jstring option) act" where
  "removedSomethingElse sh path based baselines =
     (let digest = (case based of None \<Rightarrow> None | Some b \<Rightarrow> if ls_folder b then None else map_of baselines path) in
      case vt_removeExpecting (sh_vault sh) of
        None \<Rightarrow> and_then (on_vault (vt_remove (sh_vault sh) path)) (\<lambda>_. give None)
      | Some removeExpecting \<Rightarrow>
          and_then (on_vault (freeConflictPath sh path)) (\<lambda>keepAt.
          and_then (on_vault (removeExpecting path (expecting sh digest) keepAt)) (\<lambda>out. give (rp_keptAt out))))"

fun undone_by :: "'v shell \<Rightarrow> jstring \<Rightarrow> jstring list \<Rightarrow> ('v pass, (jstring \<times> bool) option) act" where
  "undone_by sh path [] = give None"
| "undone_by sh path (w # ws) =
     (if w = path then undone_by sh path ws
      else (case vt_sameFile (sh_vault sh) of
              Some sameFile \<Rightarrow>
                and_then (on_vault (sameFile w path)) (\<lambda>alike. if alike then give (Some (w, True)) else undone_by sh path ws)
            | None \<Rightarrow>
                if foldsTogether (sh_nfc sh) (sh_lower sh) w path then give (Some (w, False)) else undone_by sh path ws))"

definition wouldUndoAWrite :: "'v shell \<Rightarrow> jstring \<Rightarrow> ('v pass, (jstring \<times> bool) option) act" where
  "wouldUndoAWrite sh path ps = undone_by sh path (ps_wroteThisPass ps) ps"

definition drop_entry :: "jstring \<Rightarrow> 'v pass \<Rightarrow> 'v pass" where
  "drop_entry path = in_engine (\<lambda>en. en\<lparr>en_entries := AList.delete path (en_entries en)\<rparr>)"

definition apply_delete :: "'v shell \<Rightarrow> (jstring \<times> jstring) list \<Rightarrow> jstring \<times> local_state option \<Rightarrow> ('v pass, unit) act" where
  "apply_delete sh baselines del =
     (let (path, based) = del in
      or_else
        (and_then (wouldUndoAWrite sh path) (\<lambda>alike.
          case alike of
            Some (w, sure) \<Rightarrow>
              if sure then modify (drop_entry path)
              else modify (reporting (block_path path w None) \<circ> drop_entry path)
          | None \<Rightarrow>
              and_then (unchangedSince sh path based) (\<lambda>unchanged.
                if \<not> unchanged then
                  modify (in_engine (\<lambda>en. en\<lparr>en_again := True\<rparr>) \<circ> reporting (\<lambda>r. r\<lparr>sr_waiting := sr_waiting r + 1\<rparr>))
                else
                  and_then (removedSomethingElse sh path based baselines) (\<lambda>keptAt.
                    case keptAt of
                      Some stayed \<Rightarrow> modify (drop_entry path \<circ> reporting conflicted_once \<circ> landed_at sh stayed)
                    | None \<Rightarrow> modify (reporting (\<lambda>r. r\<lparr>sr_deletedLocally := sr_deletedLocally r + 1\<rparr>) \<circ> drop_entry path)))))
        (\<lambda>err. modify (fail_in_pass sh path err)))"

fun apply_each :: "'v shell \<Rightarrow> (jstring \<times> jstring) list \<Rightarrow> (jstring \<times> local_state option) list \<Rightarrow> ('v pass, unit) act" where
  "apply_each sh baselines [] = give ()"
| "apply_each sh baselines (del # dels) = and_then (apply_delete sh baselines del) (\<lambda>_. apply_each sh baselines dels)"

definition applyDeletes :: "'v shell \<Rightarrow> ('v pass, unit) act" where
  "applyDeletes sh ps =
     apply_each sh (ps_deleteBaseline ps) (ps_pendingDeletes ps) (ps\<lparr>ps_pendingDeletes := [], ps_deleteBaseline := []\<rparr>)"

text \<open>\<open>deleteLocal\<close> of \<open>act\<close>: the removal is put off, with the digest it was decided about.\<close>

definition delete_local :: "'v shell \<Rightarrow> jstring \<Rightarrow> local_state option \<Rightarrow> ('v pass, unit) act" where
  "delete_local sh path local =
     and_then (modify (\<lambda>ps. ps\<lparr>ps_deletingThisPass := set_add path (ps_deletingThisPass ps),
                               ps_pendingDeletes := ps_pendingDeletes ps @ [(path, local)]\<rparr>)) (\<lambda>_.
       (case local of
          None \<Rightarrow> give ()
        | Some l \<Rightarrow>
            if ls_folder l then give ()
            else and_then (digestOf sh path) (\<lambda>digest.
              (case digest of
                 None \<Rightarrow> give ()
               | Some d \<Rightarrow> modify (\<lambda>ps. ps\<lparr>ps_deleteBaseline := AList.update path d (ps_deleteBaseline ps)\<rparr>)))))"

section \<open>Versions that came down\<close>

text \<open>The wording of a refused assembly is \<open>say\<close> in the code's messages; here it is one error.\<close>

definition assembly_failed :: "assembly_error \<Rightarrow> js_error" where
  "assembly_failed e = plain_error (lit ''not the version it is offered as'')"

definition lift_result :: "js_error + 'a \<Rightarrow> ('s, 'a) act" where
  "lift_result r = (\<lambda>s. (r, s))"

definition conflict_of ::
  "'v shell \<Rightarrow> jstring \<Rightarrow> remote \<Rightarrow> bytes \<Rightarrow> ('v pass, unit) act" where
  "conflict_of sh path remote incoming =
     and_then (on_vault (placeBeside (freeConflictPath sh path) incoming
         \<lparr>tm_mtime = of_int (rs_mtime remote), tm_ctime = of_int (rs_mtime remote)\<rparr> (sh_vault sh))) (\<lambda>copyPath.
     and_then (modify (in_engine (alter_entry copyPath (\<lambda>e. observe e \<lparr>ob_folder = False, ob_mtime = of_int (rs_mtime remote),
         ob_ctime = of_int (rs_mtime remote), ob_size = int (length incoming), ob_changeId = None\<rparr>) \<circ> ensure_entry copyPath))) (\<lambda>_.
     and_then (\<lambda>ps. upload sh copyPath (map_option rs_uid (map_of (en_remote (ps_engine ps)) copyPath)) False None ps) (\<lambda>_.
     and_then (upload sh path (Some (rs_uid remote)) False None) (\<lambda>_.
     modify (reporting conflicted_once)))))"

text \<open>What is recorded when a version is at its path.\<close>

definition record_landed :: "'v shell \<Rightarrow> incoming \<Rightarrow> bytes \<Rightarrow> 'v pass \<Rightarrow> 'v pass" where
  "record_landed sh d content ps =
     in_engine (alter_entry (ic_path d) (\<lambda>e.
       (let e1 = observe e \<lparr>ob_folder = False, ob_mtime = of_int (rs_mtime (ic_remote d)), ob_ctime = of_int (rs_mtime (ic_remote d)),
                            ob_size = int (length content), ob_changeId = None\<rparr>;
            e2 = e1\<lparr>ie_chunks := ic_chunks d, ie_hash := contentId (ic_chunks d), ie_size := int (length content)\<rparr>
        in synced e2 (ie_hash e2) (ie_chunks e2) (rs_uid (ic_remote d)) (sh_now sh)))) (landed_at sh (ic_path d) ps)"

fun bodies_for :: "jstring list \<Rightarrow> (jstring \<times> bytes) list \<Rightarrow> js_error + bytes list" where
  "bodies_for [] held = Inr []"
| "bodies_for (name # names) held =
     (case map_of held name of
        None \<Rightarrow> Inl (plain_error (lit ''the server did not send '' @ name))
      | Some body \<Rightarrow> try_then (bodies_for names held) (\<lambda>bodies. Inr (body # bodies)))"

definition times_of :: "incoming \<Rightarrow> file_times" where
  "times_of d = \<lparr>tm_mtime = of_int (rs_mtime (ic_remote d)), tm_ctime = of_int (rs_mtime (ic_remote d))\<rparr>"

definition assembled :: "'v shell \<Rightarrow> incoming \<Rightarrow> (jstring \<times> bytes) list \<Rightarrow> js_error + bytes" where
  "assembled sh d held =
     try_then (bodies_for (ic_chunks d) held) (\<lambda>bodies.
       (case assemble (sh_platform sh) (sh_keys sh) (sh_limits sh) (map Some bodies) (nat (rs_size (ic_remote d))) of
          Inl e \<Rightarrow> Inl (assembly_failed e)
        | Inr content \<Rightarrow> Inr content))"

definition land :: "'v shell \<Rightarrow> incoming \<Rightarrow> (jstring \<times> bytes) list \<Rightarrow> ('v pass, bool) act" where
  "land sh d held =
     and_then (lift_result (assembled sh d held)) (\<lambda>content.
     and_then (unchangedSince sh (ic_path d) (ic_based d)) (\<lambda>unchanged.
       if \<not> unchanged then
         and_then (modify (in_engine (ensure_entry (ic_path d)))) (\<lambda>_.
         and_then (conflict_of sh (ic_path d) (ic_remote d) content) (\<lambda>_. give False))
       else
         and_then (writePreserving sh (ic_path d) (expecting sh (ic_baseDigest d)) content (times_of d)) (\<lambda>stayed.
           if stayed then give False else and_then (modify (record_landed sh d content)) (\<lambda>_. give True))))"

datatype reuse = Landed | Kept | Ask

definition landFromLocal :: "'v shell \<Rightarrow> incoming \<Rightarrow> jstring \<Rightarrow> ('v pass, reuse) act" where
  "landFromLocal sh d from_path =
     and_then (or_else (and_then (on_vault (vt_read (sh_vault sh) from_path)) (\<lambda>bytes. give (Some bytes))) (\<lambda>_. give None)) (\<lambda>got.
       (case got of
          None \<Rightarrow> give Ask
        | Some bytes \<Rightarrow>
            if int (length bytes) \<noteq> rs_size (ic_remote d) then give Ask
            else
              (let isText = sh_isText sh from_path;
                   parts = map ch_bytes (chunkBytes bytes (sizesFor (length bytes) isText (map_option lm_chunkMax (sh_limits sh))) isText);
                   names = sealedNames (sh_platform sh) (sh_keys sh) parts SEAL_WINDOW
               in if contentId names \<noteq> contentId (ic_chunks d) then give Ask
                  else and_then (unchangedSince sh (ic_path d) (ic_based d)) (\<lambda>unchanged.
                    if \<not> unchanged then give Ask
                    else and_then (writePreserving sh (ic_path d) (expecting sh (ic_baseDigest d)) bytes (times_of d)) (\<lambda>stayed.
                      if stayed then give Kept else and_then (modify (record_landed sh d bytes)) (\<lambda>_. give Landed))))))"

section \<open>Names that are free\<close>

lemma numbered_longer: "length base < length (numbered base n)"
proof -
  have "length base = length (fst (splitName base)) + length (snd (splitName base))"
    by (metis length_append splitName_append)
  then show ?thesis by (simp add: numbered_def case_prod_beta)
qed

lemma conflictCopyPath_longer: "length path < length (conflictCopyPath path device d)"
proof -
  have "length path = length (fst (splitName path)) + length (snd (splitName path))"
    by (metis length_append splitName_append)
  then show ?thesis by (simp add: conflictCopyPath_def case_prod_beta Let_def)
qed

text \<open>Calls of the pass on the vault.\<close>

lemma on_vault_ps: "on_vault opr ps = (fst (opr (ps_vault ps)), ps\<lparr>ps_vault := snd (opr (ps_vault ps))\<rparr>)"
  by (simp add: on_vault_def case_prod_beta Let_def)

lemma landing_frame [simp]:
  "ps_vault (landed_at sh p ps) = ps_vault ps" "ps_vault (drop_entry p ps) = ps_vault ps" "ps_vault (record_landed sh d c ps) = ps_vault ps"
  by (simp_all add: landed_at_def drop_entry_def record_landed_def)

text \<open>
  The files, by path. Whatever an editor did to the one at \<open>path\<close> until its version was taken off its name, it did not
  take a name that was free.
\<close>

definition undisturbed :: "('v \<Rightarrow> jstring \<Rightarrow> bytes option) \<Rightarrow> (jstring \<Rightarrow> 'v \<Rightarrow> 'v) \<Rightarrow> jstring \<Rightarrow> bool" where
  "undisturbed files edit path \<longleftrightarrow> (\<forall>v k. k \<noteq> path \<longrightarrow> files v k = None \<longrightarrow> files (edit path v) k = None)"

text \<open>Of the files \<open>before\<close>, none is lost \<open>after\<close> but, perhaps, a version at \<open>path\<close> that \<open>gone\<close> allows.\<close>

definition nothing_lost ::
  "jstring \<Rightarrow> (bytes \<Rightarrow> bool) \<Rightarrow> (jstring \<Rightarrow> bytes option) \<Rightarrow> (jstring \<Rightarrow> bytes option) \<Rightarrow> bool" where
  "nothing_lost path gone before after \<longleftrightarrow>
     (\<forall>q bs. q \<noteq> path \<longrightarrow> before q = Some bs \<longrightarrow> after q = Some bs) \<and>
     (\<forall>old. before path = Some old \<longrightarrow> gone old \<or> (\<exists>q. after q = Some old))"

text \<open>What a removal may take: the file as the decision knew it.\<close>

definition decided_about :: "'v shell \<Rightarrow> (jstring \<times> jstring) list \<Rightarrow> jstring \<Rightarrow> bytes \<Rightarrow> bool" where
  "decided_about sh baselines path old \<longleftrightarrow> map_of baselines path = Some (plainDigest (sh_platform sh) old)"

section \<open>Over any preserving vault\<close>

context preserving_vault
begin

lemma free_name_from_ok:
  "free_name_from (vt_exists V) spell n k v = (r, v') \<Longrightarrow>
     content v' = content v \<and> (\<forall>p. r = Inr p \<longrightarrow> content v p = None \<and> (\<exists>i. p = spell i))"
proof (induction "vt_exists V" spell n k arbitrary: v rule: free_name_from.induct)
  case (2 spell n k)
  obtain t v1 where t: "vt_exists V (spell n) v = (t, v1)" by force
  note ok = exists_ok [OF t]
  show ?case
  proof (cases t)
    case (Inr b)
    show ?thesis
    proof (cases b)
      case True
      with 2(2) t Inr have "free_name_from (vt_exists V) spell (n + 1) k v1 = (r, v')" by simp
      from 2(1) [OF _ this] True ok show ?thesis by simp
    next
      case False
      with 2(2) t Inr ok show ?thesis by auto
    qed
  qed (use 2(2) t ok in auto)
qed auto

lemma freeConflictPath_ok:
  assumes "sh_vault sh = V" and "freeConflictPath sh path v = (r, v')"
  shows "content v' = content v \<and> (\<forall>p. r = Inr p \<longrightarrow> content v p = None \<and> p \<noteq> path)"
proof -
  let ?base = "conflictCopyPath path (sh_device sh) (sh_date sh)"
  have longer: "length path < length ?base" by (rule conflictCopyPath_longer)
  obtain t v1 where t: "vt_exists V ?base v = (t, v1)" by force
  note ok = exists_ok [OF t]
  show ?thesis
  proof (cases t)
    case (Inr b)
    show ?thesis
    proof (cases b)
      case True
      with assms t Inr have "free_name_from (vt_exists V) (numbered ?base) 1 999 v1 = (r, v')"
        by (simp add: freeConflictPath_def Let_def)
      note found = free_name_from_ok [OF this]
      have "p \<noteq> path" if "r = Inr p" for p
        using found that longer numbered_longer [of ?base] by (metis less_irrefl order_less_trans)
      with found ok show ?thesis by simp
    next
      case False
      with assms t Inr ok longer show ?thesis by (auto simp: freeConflictPath_def Let_def)
    qed
  qed (use assms t ok in \<open>auto simp: freeConflictPath_def Let_def\<close>)
qed

text \<open>A copy put beside a note replaces nothing, and where it fails nothing has changed.\<close>

lemma place_attempts_ok:
  assumes "sh_vault sh = V"
  shows "place_attempts k (freeConflictPath sh path) bytes tms V v = (r, v') \<Longrightarrow>
    (case r of Inr name \<Rightarrow> content v name = None \<and> content v' = (content v)(name := Some bytes) | Inl _ \<Rightarrow> content v' = content v)"
proof (induction k arbitrary: v)
  case (Suc k)
  obtain n v1 where n: "freeConflictPath sh path v = (n, v1)" by force
  note free = freeConflictPath_ok [OF assms n]
  show ?case
  proof (cases n)
    case (Inl e)
    with Suc.prems n free show ?thesis by auto
  next
    case (Inr name)
    obtain c v2 where c: "cre name bytes tms v1 = (c, v2)" by force
    note created = create_ok [OF c]
    from Suc.prems n Inr c have rest: "(case c of Inl e \<Rightarrow> (Inl e, v2)
        | Inr ok \<Rightarrow> if ok then (Inr name, v2) else place_attempts k (freeConflictPath sh path) bytes tms V v2) = (r, v')"
      by (auto simp: offered split: sum.splits if_splits)
    show ?thesis
    proof (cases "c = Inr False")
      case True
      with rest have "place_attempts k (freeConflictPath sh path) bytes tms V v2 = (r, v')" by simp
      from Suc.IH [OF this] created True free show ?thesis by (cases r) simp_all
    next
      case False
      with rest created free show ?thesis by (auto split: sum.splits if_splits)
    qed
  qed
qed auto

lemma nothing_lost_same: "nothing_lost path gone before before"
  by (auto simp: nothing_lost_def)

lemma nothing_lost_more:
  "nothing_lost path gone before mid \<Longrightarrow> mid name = None \<Longrightarrow> nothing_lost path gone before (mid(name := Some c))"
  unfolding nothing_lost_def by (metis fun_upd_other fun_upd_same option.distinct(1))

lemma replace_loses_nothing:
  assumes "rep path e bs tms k v = (r, v')" and "k \<noteq> path" and "content v k = None" and "undisturbed content meanwhile path"
  shows "nothing_lost path (agrees e) (content (meanwhile path v)) (content v')"
    "r = Inr out \<Longrightarrow> rp_landed out \<Longrightarrow> content v' path = Some bs"
proof -
  have free: "content (meanwhile path v) k = None" using assms(2-4) by (simp add: undisturbed_def)
  show "nothing_lost path (agrees e) (content (meanwhile path v)) (content v')"
  proof (cases r)
    case (Inl err)
    with assms(1) failed_ok(1) show ?thesis by (simp add: nothing_lost_same)
  next
    case (Inr out)
    from replace_ok [OF assms(1) [unfolded Inr] assms(2) free] free show ?thesis
      unfolding nothing_lost_def by (auto split: option.splits)
  qed
  show "r = Inr out \<Longrightarrow> rp_landed out \<Longrightarrow> content v' path = Some bs"
    using replace_ok [OF _ assms(2) free] assms(1) by blast
qed

lemma writePreserving_steps:
  assumes V: "sh_vault sh = V" and w: "writePreserving sh path expect bytes tms ps = (r, ps')"
  obtains (no_name) err where "r = Inl err" "content (ps_vault ps') = content (ps_vault ps)"
  | (not_replaced) k v1 err where "r = Inl err" "content v1 = content (ps_vault ps)" "content v1 k = None" "k \<noteq> path"
      "rep path expect bytes tms k v1 = (Inl err, ps_vault ps')"
  | (in_place) k v1 out where "content v1 = content (ps_vault ps)" "content v1 k = None" "k \<noteq> path"
      "rep path expect bytes tms k v1 = (Inr out, ps_vault ps')" "rp_landed out" "r = Inr (rp_keptAt out \<noteq> None)"
  | (beside) k v1 out v2 b where "content v1 = content (ps_vault ps)" "content v1 k = None" "k \<noteq> path"
      "rep path expect bytes tms k v1 = (Inr out, v2)" "\<not> rp_landed out"
      "place_attempts 100 (freeConflictPath sh path) bytes tms V v2 = (b, ps_vault ps')"
      "case b of Inl err \<Rightarrow> r = Inl err | Inr _ \<Rightarrow> r = Inr True"
proof -
  obtain n v1 where n: "freeConflictPath sh path (ps_vault ps) = (n, v1)" by force
  note free = freeConflictPath_ok [OF V n]
  show thesis
  proof (cases n)
    case (Inl e)
    with w n have "r = Inl e" "ps_vault ps' = v1" by (auto simp: writePreserving_def V offered on_vault_ps and_then_def)
    with free show thesis by (intro no_name [of e]) simp_all
  next
    case (Inr k)
    then have k: "content v1 = content (ps_vault ps)" "content v1 k = None" "k \<noteq> path" using free by simp_all
    obtain o' v2 where o': "rep path expect bytes tms k v1 = (o', v2)" by force
    show thesis
    proof (cases o')
      case (Inl e)
      with w n Inr o' have "r = Inl e" "ps_vault ps' = v2"
        by (auto simp: writePreserving_def V offered on_vault_ps and_then_def)
      with k o' Inl show thesis by (intro not_replaced) simp_all
    next
      case out: (Inr out)
      show thesis
      proof (cases "rp_landed out")
        case True
        with w n Inr o' out have "r = Inr (rp_keptAt out \<noteq> None)" "ps_vault ps' = v2"
          by (auto simp: writePreserving_def V offered on_vault_ps and_then_def reporting_def split: option.splits)
        with k o' out True show thesis by (intro in_place) simp_all
      next
        case False
        obtain b v3 where b: "place_attempts 100 (freeConflictPath sh path) bytes tms V v2 = (b, v3)" by force
        with w n Inr o' out False have "ps_vault ps' = v3" "case b of Inl err \<Rightarrow> r = Inl err | Inr _ \<Rightarrow> r = Inr True"
          by (auto simp: writePreserving_def placeBeside_def V offered on_vault_ps and_then_def reporting_def split: option.splits sum.splits if_splits)
        with k o' out False b show thesis by (intro beside) simp_all
      qed
    qed
  qed
qed

lemma writePreserving_keeps:
  assumes V: "sh_vault sh = V" and w: "writePreserving sh path expect bytes tms ps = (r, ps')" and quiet: "undisturbed content meanwhile path"
  shows "content (ps_vault ps') = content (ps_vault ps) \<and> (\<exists>err. r = Inl err) \<or>
    (\<exists>v. content v = content (ps_vault ps) \<and> nothing_lost path (agrees expect) (content (meanwhile path v)) (content (ps_vault ps')) \<and>
      (r = Inr False \<longrightarrow> content (ps_vault ps') path = Some bytes) \<and>
      (r = Inr True \<longrightarrow> (\<exists>q. content (ps_vault ps') q = Some bytes)))"
  using V w
proof (cases rule: writePreserving_steps)
  case (not_replaced k v1 err)
  from replace_loses_nothing(1) [OF not_replaced(5,4,3) quiet] not_replaced show ?thesis by blast
next
  case (in_place k v1 out)
  from replace_loses_nothing [OF in_place(4,3,2) quiet] in_place show ?thesis by (intro disjI2 exI [of _ v1]) auto
next
  case (beside k v1 out v2 b)
  have lost: "nothing_lost path (agrees expect) (content (meanwhile path v1)) (content v2)"
    by (rule replace_loses_nothing(1) [OF beside(4,3,2) quiet])
  note placed = place_attempts_ok [OF V beside(6)]
  show ?thesis
  proof (cases b)
    case (Inl err)
    with placed have "content (ps_vault ps') = content v2" by simp
    then have "nothing_lost path (agrees expect) (content (meanwhile path v1)) (content (ps_vault ps'))" using lost by simp
    with beside Inl show ?thesis by (intro disjI2 exI [of _ v1]) auto
  next
    case (Inr name)
    with placed have new: "content v2 name = None" "content (ps_vault ps') = (content v2)(name := Some bytes)" by simp_all
    from nothing_lost_more [OF lost new(1), of bytes] new beside Inr show ?thesis by (intro disjI2 exI [of _ v1]) auto
  qed
qed blast

end

context preserving_vault
begin

lemma undone_by_keeps:
  assumes V: "sh_vault sh = V"
  shows "undone_by sh path ws ps = (r, ps') \<Longrightarrow> content (ps_vault ps') = content (ps_vault ps)"
proof (induction ws arbitrary: ps)
  case (Cons w ws)
  show ?case
  proof (cases "vt_sameFile V")
    case None
    with Cons V show ?thesis by (auto split: if_splits)
  next
    case (Some alike)
    obtain t v1 where t: "alike w path (ps_vault ps) = (t, v1)" by force
    note quiet = same_ok [OF Some t]
    show ?thesis
    proof (cases "w = path")
      case True
      with Cons show ?thesis by auto
    next
      case False
      with Cons.prems t Some V have "ps_vault ps' = v1 \<or> undone_by sh path ws (ps\<lparr>ps_vault := v1\<rparr>) = (r, ps')"
        by (auto simp: and_then_def on_vault_ps split: sum.splits if_splits)
      with Cons.IH [of "ps\<lparr>ps_vault := v1\<rparr>"] quiet show ?thesis by auto
    qed
  qed
qed auto

lemma unchangedSince_keeps:
  assumes V: "sh_vault sh = V" and u: "unchangedSince sh path based ps = (r, ps')"
  shows "content (ps_vault ps') = content (ps_vault ps) \<and> (\<exists>b. r = Inr b)"
proof -
  obtain t v1 where t: "vt_stat V path (ps_vault ps) = (t, v1)" by force
  from stat_ok [OF t] t u V show ?thesis
    by (auto simp: unchangedSince_def or_else_def and_then_def on_vault_ps split: sum.splits)
qed

lemma removedSomethingElse_keeps:
  assumes V: "sh_vault sh = V" and rm: "removedSomethingElse sh path based baselines ps = (r, ps')"
    and quiet: "undisturbed content meanwhile path"
  shows "content (ps_vault ps') = content (ps_vault ps) \<or>
    (\<exists>v. content v = content (ps_vault ps) \<and>
       nothing_lost path (decided_about sh baselines path) (content (meanwhile path v)) (content (ps_vault ps')))"
proof -
  obtain n v1 where n: "freeConflictPath sh path (ps_vault ps) = (n, v1)" by force
  note free = freeConflictPath_ok [OF V n]
  define digest where "digest = (case based of None \<Rightarrow> None | Some b \<Rightarrow> if ls_folder b then None else map_of baselines path)"
  have gone: "decided_about sh baselines path old" if "agrees (expecting sh digest) old" for old
    using that by (auto simp: agrees_def expecting_def digest_def decided_about_def split: option.splits if_splits)
  show ?thesis
  proof (cases n)
    case (Inl e)
    with rm n V free show ?thesis by (auto simp: removedSomethingElse_def offered on_vault_ps Let_def and_then_def)
  next
    case (Inr k)
    then have k: "content v1 = content (ps_vault ps)" "content v1 k = None" "k \<noteq> path" using free by simp_all
    with quiet have k': "content (meanwhile path v1) k = None" by (simp add: undisturbed_def)
    obtain t v2 where t: "rem path (expecting sh digest) k v1 = (t, v2)" by force
    have after: "ps_vault ps' = v2"
      using rm n Inr V t
      by (auto simp: removedSomethingElse_def offered on_vault_ps Let_def and_then_def digest_def split: sum.splits)
    have "nothing_lost path (decided_about sh baselines path) (content (meanwhile path v1)) (content v2)"
    proof (cases t)
      case (Inl err)
      with t failed_ok(2) show ?thesis by (simp add: nothing_lost_same)
    next
      case (Inr out)
      from remove_ok [OF t [unfolded Inr] k(3) k'] k' gone show ?thesis
        unfolding nothing_lost_def by (auto split: option.splits)
    qed
    with k(1) after show ?thesis by blast
  qed
qed

lemma apply_delete_keeps:
  assumes V: "sh_vault sh = V" and del: "apply_delete sh baselines (path, based) ps = (r, ps')"
    and quiet: "undisturbed content meanwhile path"
  shows "r = Inr () \<and> (content (ps_vault ps') = content (ps_vault ps) \<or>
    (\<exists>v. content v = content (ps_vault ps) \<and>
       nothing_lost path (decided_about sh baselines path) (content (meanwhile path v)) (content (ps_vault ps'))))"
proof -
  obtain a ps1 where a: "undone_by sh path (ps_wroteThisPass ps) ps = (a, ps1)" by force
  note a_quiet = undone_by_keeps [OF V a]
  obtain u ps2 where u: "unchangedSince sh path based ps1 = (u, ps2)" by force
  note u_quiet = unchangedSince_keeps [OF V u]
  obtain d ps3 where d: "removedSomethingElse sh path based baselines ps2 = (d, ps3)" by force
  note d_keeps = removedSomethingElse_keeps [OF V d quiet]
  from del a u d have "r = Inr () \<and> (ps_vault ps' = ps_vault ps1 \<or> ps_vault ps' = ps_vault ps2 \<or> ps_vault ps' = ps_vault ps3)"
    by (auto simp: apply_delete_def wouldUndoAWrite_def or_else_def and_then_def split: sum.splits option.splits if_splits)
  with a_quiet u_quiet d_keeps show ?thesis by (metis (no_types))
qed

end

section \<open>What the files are promised\<close>

text \<open>C4. No write of a pass destroys work. However an editor saved over \<open>path\<close> until its version was taken off its
  name, and whatever the pass believed to be there, every other file is as it was afterwards, and the version that was at
  \<open>path\<close> either has the digest the pass decided about or is still in the vault under some name. When the write
  reports that it is simply in place, the file holds what was written; when it reports that something stayed,
  what was to be written is in the vault all the same.\<close>

theorem writes_keep_what_they_displace:
  assumes "sh_vault sh = memoryVault pf (editing edit)" and "undisturbed mem_file edit path"
    and "writePreserving sh path expect bytes tms ps = (r, ps')"
  shows "(mem_file (ps_vault ps') = mem_file (ps_vault ps) \<and> (\<exists>err. r = Inl err)) \<or>
    (\<exists>v. mem_file v = mem_file (ps_vault ps) \<and>
       nothing_lost path (agrees expect) (mem_file (edit path v)) (mem_file (ps_vault ps')) \<and>
       (r = Inr False \<longrightarrow> mem_file (ps_vault ps') path = Some bytes) \<and>
       (r = Inr True \<longrightarrow> (\<exists>q. mem_file (ps_vault ps') q = Some bytes)))"
  using memory.writePreserving_keeps [OF assms(1,3,2)] by blast


definition sample_editor :: "jstring \<Rightarrow> memory_vault \<Rightarrow> memory_vault" where
  "sample_editor path v =
     v\<lparr>mv_files := AList.update path \<lparr>mf_bytes = [110, 101, 119], mf_mtime = 9, mf_ctime = 9\<rparr> (mv_files v)\<rparr>"

lemma sample_editor_undisturbed: "undisturbed mem_file sample_editor path"
  by (simp add: undisturbed_def sample_editor_def)

definition sample_disk :: memory_vault where
  "sample_disk = \<lparr>mv_files = [(lit ''a.md'', \<lparr>mf_bytes = [111, 108, 100], mf_mtime = 1, mf_ctime = 1\<rparr>)], mv_folders = [],
     mv_notified = [], mv_reads = 0, mv_nameTakenOnce = None, mv_failRemoveOnce = None\<rparr>"

definition sample_shell :: "memory_vault shell" where
  "sample_shell = plain_shell (memoryVault plain_platform (editing sample_editor))"

lemma sample_shell_vault: "sh_vault sample_shell = memoryVault plain_platform (editing sample_editor)"
  by (simp add: sample_shell_def plain_shell_def)

lemma mem_file_edited: "mem_file (sample_editor path v) path = Some ([110, 101, 119])"
  by (simp add: sample_editor_def)

lemma writes_keep_what_they_displace_witness:
  "\<exists>r ps'. writePreserving sample_shell (lit ''a.md'') None [116, 104] \<lparr>tm_mtime = 5, tm_ctime = 5\<rparr> (fresh_pass sample_disk) = (r, ps') \<and>
     ((\<exists>err. r = Inl err) \<or> (\<exists>q. mem_file (ps_vault ps') q = Some ([110, 101, 119])))"
proof -
  obtain r ps' where w: "writePreserving sample_shell (lit ''a.md'') None [116, 104] \<lparr>tm_mtime = 5, tm_ctime = 5\<rparr>
      (fresh_pass sample_disk) = (r, ps')" by force
  show ?thesis
    using writes_keep_what_they_displace [OF sample_shell_vault sample_editor_undisturbed w] w mem_file_edited
    by (auto simp: nothing_lost_def agrees_def simp del: lit_Cons)
qed


lemma lift_result_simps [simp]: "lift_result r s = (r, s)"
  by (simp add: lift_result_def)

lemma writePreserving_engine:
  assumes "writePreserving sh path expect bytes tms ps = (r, ps')"
  shows "ps_engine ps' = ps_engine ps"
  using assms
  by (auto simp: writePreserving_def and_then_def on_vault_ps landed_at_def reporting_def Let_def
      split: option.splits sum.splits if_splits)

lemma unchangedSince_engine:
  assumes "unchangedSince sh path based ps = (r, ps')"
  shows "ps_engine ps' = ps_engine ps"
  using assms by (auto simp: unchangedSince_def or_else_def and_then_def on_vault_ps split: sum.splits)

text \<open>The entry of a version that is in place: synced at its uid, with its names.\<close>

definition in_place_entry :: "incoming \<Rightarrow> bytes \<Rightarrow> index_entry \<Rightarrow> bool" where
  "in_place_entry d c e \<longleftrightarrow> ie_synchash e = contentId (ic_chunks d) \<and> ie_hash e = contentId (ic_chunks d) \<and>
     ie_chunks e = ic_chunks d \<and> ie_syncuid e = rs_uid (ic_remote d) \<and> ie_size e = int (length c) \<and> \<not> ie_folder e"

lemma record_landed_entry:
  assumes "map_of (en_entries (ps_engine ps)) (ic_path d) = Some e"
  shows "\<exists>e'. map_of (en_entries (ps_engine (record_landed sh d c ps))) (ic_path d) = Some e' \<and> in_place_entry d c e'"
  using assms
  by (simp add: record_landed_def landed_at_def alter_entry_map in_place_entry_def synced_def observe_def Let_def)

lemma land_True:
  assumes "land sh d held ps = (Inr True, ps')"
  obtains c ps1 ps2 where "assembled sh d held = Inr c" "unchangedSince sh (ic_path d) (ic_based d) ps = (Inr True, ps1)"
    "writePreserving sh (ic_path d) (expecting sh (ic_baseDigest d)) c (times_of d) ps1 = (Inr False, ps2)"
    "ps' = record_landed sh d c ps2"
proof -
  from assms obtain c u ps1 where c: "assembled sh d held = Inr c"
    and u: "unchangedSince sh (ic_path d) (ic_based d) ps = (Inr u, ps1)"
    and rest: "(if \<not> u then and_then (modify (in_engine (ensure_entry (ic_path d)))) (\<lambda>_.
         and_then (conflict_of sh (ic_path d) (ic_remote d) c) (\<lambda>_. give False))
       else and_then (writePreserving sh (ic_path d) (expecting sh (ic_baseDigest d)) c (times_of d)) (\<lambda>stayed.
           if stayed then give False else and_then (modify (record_landed sh d c)) (\<lambda>_. give True))) ps1 = (Inr True, ps')"
    by (auto simp: land_def and_then_Inr)
  with that show thesis by (auto simp: and_then_Inr split: if_splits)
qed

lemma landFromLocal_Landed:
  assumes "landFromLocal sh d from_path ps = (Inr Landed, ps')"
  obtains c v1 ps1 ps2 where "vt_read (sh_vault sh) from_path (ps_vault ps) = (Inr c, v1)" "int (length c) = rs_size (ic_remote d)"
    "contentId (sealedNames (sh_platform sh) (sh_keys sh)
       (map ch_bytes (chunkBytes c (sizesFor (length c) (sh_isText sh from_path) (map_option lm_chunkMax (sh_limits sh))) (sh_isText sh from_path)))
       SEAL_WINDOW) = contentId (ic_chunks d)"
    "unchangedSince sh (ic_path d) (ic_based d) (ps\<lparr>ps_vault := v1\<rparr>) = (Inr True, ps1)"
    "writePreserving sh (ic_path d) (expecting sh (ic_baseDigest d)) c (times_of d) ps1 = (Inr False, ps2)"
    "ps' = record_landed sh d c ps2"
proof -
  obtain t v1 where t: "vt_read (sh_vault sh) from_path (ps_vault ps) = (t, v1)" by force
  with assms obtain c where c: "t = Inr c" by (cases t) (auto simp: landFromLocal_def or_else_def and_then_def on_vault_ps)
  with assms t have "int (length c) = rs_size (ic_remote d)"
    by (auto simp: landFromLocal_def or_else_def and_then_def on_vault_ps split: if_splits)
  with assms t c that show thesis
    by (auto simp: landFromLocal_def or_else_def on_vault_ps and_then_Inr Let_def split: if_splits prod.splits sum.splits)
qed

lemma assembled_Inr:
  assumes "assembled sh d held = Inr c"
  shows "\<exists>parts. list_all2 (\<lambda>name part. \<exists>body. map_of held name = Some body \<and> openChunk (sh_platform sh) (sh_keys sh) body = Inr part)
      (ic_chunks d) parts \<and> concat parts = c \<and> length c = nat (rs_size (ic_remote d))"
proof -
  have bodies: "bodies_for names held = Inr bodies \<Longrightarrow> list_all2 (\<lambda>name body. map_of held name = Some body) names bodies" for names bodies
    by (induction names arbitrary: bodies) (auto simp: try_then_Inr split: option.splits)
  from assms obtain bs where got: "bodies_for (ic_chunks d) held = Inr bs"
    and put: "(case assemble (sh_platform sh) (sh_keys sh) (sh_limits sh) (map Some bs) (nat (rs_size (ic_remote d))) of
          Inl e \<Rightarrow> Inl (assembly_failed e) | Inr content \<Rightarrow> Inr content) = Inr c"
    unfolding assembled_def try_then_Inr by blast
  then have bs: "bodies_for (ic_chunks d) held = Inr bs"
    "assemble (sh_platform sh) (sh_keys sh) (sh_limits sh) (map Some bs) (nat (rs_size (ic_remote d))) = Inr c"
    by (auto split: sum.splits)
  from bs(2) obtain parts where parts: "list_all2 (opens_to (sh_platform sh) (sh_keys sh)) (map Some bs) parts" "concat parts = c"
    "length c = nat (rs_size (ic_remote d))"
    unfolding assemble_Inr by blast
  have "list_all2 (\<lambda>name part. \<exists>body. map_of held name = Some body \<and> openChunk (sh_platform sh) (sh_keys sh) body = Inr part) (ic_chunks d) parts"
    by (rule list_all2_trans [OF _ bodies [OF bs(1)] parts(1) [unfolded list_all2_map1]]) (auto simp: opens_to_def)
  with parts show ?thesis by blast
qed

lemma landed_entry:
  assumes "ps_engine ps2 = ps_engine ps" and "map_of (en_entries (ps_engine ps)) (ic_path d) = Some e"
  shows "\<exists>e'. map_of (en_entries (ps_engine (record_landed sh d c ps2))) (ic_path d) = Some e' \<and> in_place_entry d c e'"
  by (rule record_landed_entry) (simp add: assms)

lemma landed_write:
  assumes V: "sh_vault sh = memoryVault pf (editing edit)" and quiet: "undisturbed mem_file edit (ic_path d)"
    and u: "unchangedSince sh (ic_path d) based ps = (Inr True, ps1)"
    and w: "writePreserving sh (ic_path d) expect c tms ps1 = (Inr False, ps2)"
  shows "mem_file (ps_vault ps2) (ic_path d) = Some c"
    "\<exists>v. mem_file v = mem_file (ps_vault ps) \<and> nothing_lost (ic_path d) (agrees expect) (mem_file (edit (ic_path d) v)) (mem_file (ps_vault ps2))"
    "ps_engine ps2 = ps_engine ps"
  using memory.writePreserving_keeps [OF V w quiet] memory.unchangedSince_keeps [OF V u]
    writePreserving_engine [OF w] unchangedSince_engine [OF u]
  by auto


text \<open>C38. A version made of chunks this device has is only written where they are that version. When \<open>landFromLocal\<close>
  returns \<open>landed\<close>, the bytes read from the other path have the declared size and, cut and sealed
  again, exactly the content id of the version; those bytes are at the path, recorded as synced; and
  nothing is lost but the version that was to be replaced.\<close>

theorem local_copies_are_the_version:
  assumes "sh_vault sh = memoryVault pf (editing edit)" and "undisturbed mem_file edit (ic_path d)"
    and "map_of (en_entries (ps_engine ps)) (ic_path d) = Some e" and "landFromLocal sh d source ps = (Inr Landed, ps')"
  shows "\<exists>c e' v. mem_file (ps_vault ps) source = Some c \<and> mem_file (ps_vault ps') (ic_path d) = Some c \<and>
    int (length c) = rs_size (ic_remote d) \<and>
    contentId (sealedNames (sh_platform sh) (sh_keys sh)
       (map ch_bytes (chunkBytes c (sizesFor (length c) (sh_isText sh source) (map_option lm_chunkMax (sh_limits sh))) (sh_isText sh source)))
       SEAL_WINDOW) = contentId (ic_chunks d) \<and>
    map_of (en_entries (ps_engine ps')) (ic_path d) = Some e' \<and> in_place_entry d c e' \<and>
    mem_file v = mem_file (ps_vault ps) \<and>
    nothing_lost (ic_path d) (agrees (expecting sh (ic_baseDigest d))) (mem_file (edit (ic_path d) v)) (mem_file (ps_vault ps'))"
proof -
  from assms(4) obtain c v1 ps1 ps2 where land: "vt_read (sh_vault sh) source (ps_vault ps) = (Inr c, v1)" "int (length c) = rs_size (ic_remote d)"
    "contentId (sealedNames (sh_platform sh) (sh_keys sh)
       (map ch_bytes (chunkBytes c (sizesFor (length c) (sh_isText sh source) (map_option lm_chunkMax (sh_limits sh))) (sh_isText sh source)))
       SEAL_WINDOW) = contentId (ic_chunks d)"
    "unchangedSince sh (ic_path d) (ic_based d) (ps\<lparr>ps_vault := v1\<rparr>) = (Inr True, ps1)"
    "writePreserving sh (ic_path d) (expecting sh (ic_baseDigest d)) c (times_of d) ps1 = (Inr False, ps2)"
    "ps' = record_landed sh d c ps2" by (rule landFromLocal_Landed)
  have read: "mem_file v1 = mem_file (ps_vault ps)" "mem_file (ps_vault ps) source = Some c"
    using memory.read_ok land(1) assms(1) by force+
  note wrote = landed_write [OF assms(1,2) land(4,5)]
  from wrote(2) read(1) obtain v where v: "mem_file v = mem_file (ps_vault ps)"
    "nothing_lost (ic_path d) (agrees (expecting sh (ic_baseDigest d))) (mem_file (edit (ic_path d) v)) (mem_file (ps_vault ps2))" by auto
  have "ps_engine ps2 = ps_engine ps" using wrote(3) by simp
  from landed_entry [OF this assms(3)] land(6) obtain e' where
    e': "map_of (en_entries (ps_engine ps')) (ic_path d) = Some e'" "in_place_entry d c e'" by blast
  from v e' wrote(1) land(2,3,6) read(2) show ?thesis by (intro exI conjI) simp_all
qed

text \<open>A vault whose only file is \<open>b.md\<close>, and a version of one chunk for \<open>n.md\<close>.\<close>

definition quiet_shell :: "memory_vault shell" where
  "quiet_shell = plain_shell (memoryVault plain_platform (editing (\<lambda>_ v. v)))"

definition one_file :: memory_vault where
  "one_file = \<lparr>mv_files = [(lit ''b.md'', \<lparr>mf_bytes = [1], mf_mtime = 1, mf_ctime = 1\<rparr>)], mv_folders = [],
     mv_notified = [], mv_reads = 0, mv_nameTakenOnce = None, mv_failRemoveOnce = None\<rparr>"

definition sample_incoming :: "jstring list \<Rightarrow> incoming" where
  "sample_incoming names = \<lparr>ic_path = lit ''n.md'', ic_remote = plain_remote
     \<lparr>rs_uid = 7, rs_folder = False, rs_deleted = False, rs_mtime = 3, rs_size = 1, rs_hash = contentId names\<rparr>,
     ic_chunks = names, ic_restore = False, ic_based = None, ic_baseDigest = None\<rparr>"

definition landing_pass :: "memory_vault pass" where
  "landing_pass = in_engine (ensure_entry (lit ''n.md'')) (fresh_pass one_file)"

lemma quiet_shell_simps [simp]:
  "sh_vault quiet_shell = memoryVault plain_platform (editing (\<lambda>_ v. v))" "sh_platform quiet_shell = plain_platform"
  "sh_keys quiet_shell = sample_keys" "sh_limits quiet_shell = None"
  by (simp_all add: quiet_shell_def plain_shell_def)

lemma sample_incoming_simps [simp]:
  "ic_path (sample_incoming names) = lit ''n.md''" "ic_chunks (sample_incoming names) = names" "ic_based (sample_incoming names) = None"
  "ic_baseDigest (sample_incoming names) = None" "rs_size (ic_remote (sample_incoming names)) = 1"
  by (simp_all add: sample_incoming_def plain_remote_def remote_at_def remote_state.defs)

lemma landing_pass_vault [simp]: "ps_vault landing_pass = one_file"
  by (simp add: landing_pass_def fresh_pass_def)

lemma landing_pass_entry: "map_of (en_entries (ps_engine landing_pass)) (ic_path (sample_incoming names)) = Some (newEntry (lit ''n.md''))"
  by (simp add: landing_pass_def fresh_pass_def ensure_entry_def fresh_engine_def js_map_simps)

lemma quiet_undisturbed: "undisturbed mem_file (\<lambda>_ v. v) path"
  by (simp add: undisturbed_def)

lemma sample_name_free: "ps_vault ps = one_file\<lparr>mv_reads := n\<rparr> \<Longrightarrow>
    unchangedSince quiet_shell (lit ''n.md'') None ps = (Inr True, ps)"
  by (simp add: unchangedSince_def on_vault_ps memoryVault_def mem_stat_def one_file_def still_the_same_def lit_Cons)

lemma sample_write_lands:
  assumes "ps_vault ps = one_file\<lparr>mv_reads := n\<rparr>"
  shows "\<exists>ps2. writePreserving quiet_shell (lit ''n.md'') None c tms ps = (Inr False, ps2)"
proof -
  define base where "base = conflictCopyPath (lit ''n.md'') (sh_device quiet_shell) (sh_date quiet_shell)"
  have "length (lit ''n.md'') < length base" unfolding base_def by (rule conflictCopyPath_longer)
  then have "base \<noteq> lit ''b.md''" by auto
  then have free: "freeConflictPath quiet_shell (lit ''n.md'') (ps_vault ps) = (Inr base, ps_vault ps)"
    by (simp add: freeConflictPath_def base_def [symmetric] memoryVault_def mem_exists_def taken_name_def assms one_file_def Let_def del: lit_Cons lit_Nil)
  have "map_of (mv_files (ps_vault ps)) (lit ''n.md'') = None" "mv_nameTakenOnce (ps_vault ps) = None"
    by (simp_all add: assms one_file_def lit_Cons)
  then have "mem_replace (editing (\<lambda>_ v. v)) (lit ''n.md'') None c tms base (ps_vault ps) =
      (Inr \<lparr>rp_keptAt = None, rp_landed = True\<rparr>, put_file (lit ''n.md'') c tms ((ps_vault ps)\<lparr>mv_nameTakenOnce := None\<rparr>))"
    by (simp add: mem_replace_def Let_def)
  moreover have "vt_replace (sh_vault quiet_shell) = Some (mem_replace (editing (\<lambda>_ v. v)))"
    by (simp add: memoryVault_def)
  ultimately show ?thesis
    by (simp add: writePreserving_def on_vault_ps free and_then_def del: lit_Cons lit_Nil)
qed


lemma local_copies_are_the_version_witness:
  "\<exists>names ps'. landFromLocal quiet_shell (sample_incoming names) (lit ''b.md'') landing_pass = (Inr Landed, ps') \<and>
     mem_file (ps_vault ps') (lit ''n.md'') = Some [1]"
proof -
  define names where "names = sealedNames plain_platform sample_keys
    (map ch_bytes (chunkBytes [1] (sizesFor (Suc 0) (sh_isText quiet_shell (lit ''b.md'')) None) (sh_isText quiet_shell (lit ''b.md'')))) SEAL_WINDOW"
  let ?d = "sample_incoming names"
  have read: "vt_read (sh_vault quiet_shell) (lit ''b.md'') (ps_vault landing_pass) = (Inr [1], one_file\<lparr>mv_reads := Suc 0\<rparr>)"
    by (simp add: memoryVault_def mem_read_def one_file_def)
  have same: "ps_vault (landing_pass\<lparr>ps_vault := one_file\<lparr>mv_reads := Suc 0\<rparr>\<rparr>) = one_file\<lparr>mv_reads := Suc 0\<rparr>" by simp
  from sample_write_lands [OF same] obtain ps2 where w: "writePreserving quiet_shell (lit ''n.md'') None [1] (times_of ?d)
      (landing_pass\<lparr>ps_vault := one_file\<lparr>mv_reads := Suc 0\<rparr>\<rparr>) = (Inr False, ps2)" by blast
  have exp: "expecting quiet_shell None = None" by (simp add: expecting_def)
  have "landFromLocal quiet_shell ?d (lit ''b.md'') landing_pass = (Inr Landed, record_landed quiet_shell ?d [1] ps2)"
    using read
    by (simp add: landFromLocal_def on_vault_ps Let_def names_def [symmetric] sample_name_free [OF same] w exp and_then_def or_else_def
        del: lit_Cons lit_Nil)
  then obtain ps' where l: "landFromLocal quiet_shell ?d (lit ''b.md'') landing_pass = (Inr Landed, ps')" by blast
  have "mem_file (ps_vault landing_pass) (lit ''b.md'') = Some [1]" by (simp add: one_file_def mem_file_def)
  with local_copies_are_the_version [OF quiet_shell_simps(1) quiet_undisturbed landing_pass_entry l] l show ?thesis
    by (auto simp del: lit_Cons)
qed

end
